(* ===== verification/Prelude.thy ===== *)
theory Prelude
  imports Main "HOL-Library.Word" "HOL-Library.List_Lexorder" "HOL-Library.AList"
    "HOL-Library.Multiset"
begin

text \<open>
  Shared vocabulary of the development: the machine types, the errors a Rust function can
  return, the monad of the functions that change state, little-endian integers, the
  operations of the Rust standard library on vectors and slices the program uses, and the
  generic lemmas on lists and association lists the components share.

  Conventions. A \<open>Vec<u8>\<close> is a list of bytes, ordered lexicographically as Rust orders
  it (theory \<open>List_Lexorder\<close>). \<open>usize\<close> values are lengths and positions in memory and are
  natural numbers; \<open>u32\<close> and \<open>u64\<close> values that the program computes with are words, which
  wrap around as in the release build (no overflow checks). A hash map is an association
  list with distinct keys, whose order stands for the unspecified iteration order.
\<close>

section \<open>Machine types\<close>

type_synonym byte = "8 word"
type_synonym bytes = "8 word list"
type_synonym u32 = "32 word"
type_synonym u64 = "64 word"

section \<open>Errors\<close>

text \<open>
  The values of \<open>anyhow::Error\<close> the storage layer can build, one constructor for each
  message of the storage layer, \<open>Msg\<close> for the messages of the engine, and \<open>Panicked\<close> for a Rust panic (the release profile aborts).
\<close>

datatype err =
    Node_too_large
  | Bincode_error
  | Short_read
  | Read_failed
  | Write_failed
  | Sync_failed
  | Open_failed
  | Checksum_mismatch u32
  | Wal_saturated
  | Msg string
  | Panicked

section \<open>Functions with state, errors and loops\<close>

text \<open>
  A function of the source that changes state, may fail and may not return: from a state
  to \<open>None\<close> (it does not return) or to its result and the state it leaves, which keeps
  every change made before an error.
\<close>

type_synonym ('s, 'a) act = "'s \<Rightarrow> ((err + 'a) \<times> 's) option"

definition ret :: "'a \<Rightarrow> ('s, 'a) act" where
  "ret x s = Some (Inr x, s)"

definition throw :: "err \<Rightarrow> ('s, 'a) act" where
  "throw e s = Some (Inl e, s)"

text \<open>The \<open>?\<close> operator followed by the rest of the function.\<close>

definition seq :: "('s, 'a) act \<Rightarrow> ('a \<Rightarrow> ('s, 'b) act) \<Rightarrow> ('s, 'b) act" where
  "seq m f s = Option.bind (m s) (\<lambda>(r, s').
     case r of Inl e \<Rightarrow> Some (Inl e, s') | Inr x \<Rightarrow> f x s')"

definition read_st :: "('s \<Rightarrow> 'a) \<Rightarrow> ('s, 'a) act" where
  "read_st f s = Some (Inr (f s), s)"

definition modify_st :: "('s \<Rightarrow> 's) \<Rightarrow> ('s, unit) act" where
  "modify_st f s = Some (Inr (), f s)"

definition of_result :: "err + 'a \<Rightarrow> ('s, 'a) act" where
  "of_result r s = Some (r, s)"

text \<open>Run an action of a component on its part of a larger state.\<close>

definition zoom :: "('s \<Rightarrow> 't) \<Rightarrow> ('t \<Rightarrow> 's \<Rightarrow> 's) \<Rightarrow> ('t, 'a) act \<Rightarrow> ('s, 'a) act" where
  "zoom get put m s = map_option (\<lambda>(r, t). (r, put t s)) (m (get s))"

named_theorems run

lemma run_ret [run, simp]: "ret x s = Some (Inr x, s)"
  by (simp add: ret_def)

lemma run_throw [run, simp]: "throw e s = Some (Inl e, s)"
  by (simp add: throw_def)

lemma run_read_st [run, simp]: "read_st f s = Some (Inr (f s), s)"
  by (simp add: read_st_def)

lemma run_modify_st [run, simp]: "modify_st f s = Some (Inr (), f s)"
  by (simp add: modify_st_def)

lemma run_of_result [run, simp]: "of_result r s = Some (r, s)"
  by (simp add: of_result_def)

lemma seq_Inr [run]: "m s = Some (Inr x, s') \<Longrightarrow> seq m f s = f x s'"
  by (simp add: seq_def)

lemma seq_Inl [run]: "m s = Some (Inl e, s') \<Longrightarrow> seq m f s = Some (Inl e, s')"
  by (simp add: seq_def)

lemma seq_None [run]: "m s = None \<Longrightarrow> seq m f s = None"
  by (simp add: seq_def)

lemma seq_simps [simp, run]:
  "seq (ret x) f s = f x s" "seq (of_result (Inr x)) f s = f x s"
  "seq (of_result (Inl e)) f s = Some (Inl e, s)" "seq (throw e) f s = Some (Inl e, s)"
  "seq (read_st g) f s = f (g s) s" "seq (modify_st h) (\<lambda>_. m) s = m (h s)"
  by (simp_all add: seq_def ret_def of_result_def throw_def read_st_def modify_st_def)

lemma zoom_Some [run]: "m (get s) = Some (r, t) \<Longrightarrow> zoom get put m s = Some (r, put t s)"
  by (simp add: zoom_def)

lemma seq_InrE:
  assumes "seq m f s = Some (Inr y, t)"
  obtains x s' where "m s = Some (Inr x, s')" and "f x s' = Some (Inr y, t)"
  using assms by (cases "m s") (auto simp: seq_def split: sum.splits)

text \<open>Recursive calls under \<open>seq\<close> are monotone, so loops can be partial functions.\<close>

lemma seq_mono [partial_function_mono]:
  assumes "mono_option (\<lambda>f. m f s)"
    and "\<And>x s'. mono_option (\<lambda>f. k x f s')"
  shows "mono_option (\<lambda>f. seq (m f) (\<lambda>x. k x f) s)"
proof -
  have "mono_option (\<lambda>f. case fst p of Inl e \<Rightarrow> Some (Inl e, snd p) | Inr x \<Rightarrow> k x f (snd p))"
    for p
    using assms(2) by (cases "fst p") (simp_all add: option.const_mono)
  with assms(1) show ?thesis
    unfolding seq_def case_prod_beta by (intro bind_mono)
qed

text \<open>A \<open>for\<close> loop whose body ends in \<open>?\<close>.\<close>

fun for_each :: "'a list \<Rightarrow> ('a \<Rightarrow> ('s, unit) act) \<Rightarrow> ('s, unit) act" where
  "for_each [] f = ret ()"
| "for_each (x # xs) f = seq (f x) (\<lambda>_. for_each xs f)"

section \<open>Little-endian integers\<close>

fun le_bytes :: "nat \<Rightarrow> nat \<Rightarrow> bytes" where
  "le_bytes 0 n = []"
| "le_bytes (Suc k) n = of_nat (n mod 256) # le_bytes k (n div 256)"

fun of_le :: "bytes \<Rightarrow> nat" where
  "of_le [] = 0"
| "of_le (b # bs) = unat b + 256 * of_le bs"

lemma length_le_bytes [simp]: "length (le_bytes k n) = k"
  by (induction k arbitrary: n) auto

lemma le_bytes_Nil [simp]: "le_bytes k n = [] \<longleftrightarrow> k = 0"
  by (cases k) auto

lemma unat_of_nat_byte [simp]: "unat (of_nat (n mod 256) :: byte) = n mod 256"
  by (simp add: unat_of_nat)

lemma of_le_le_bytes [simp]: "n < 256 ^ k \<Longrightarrow> of_le (le_bytes k n) = n"
proof (induction k arbitrary: n)
  case 0
  then show ?case by simp
next
  case (Suc k)
  then have "n div 256 < 256 ^ k" by (simp add: less_mult_imp_div_less mult.commute)
  with Suc.IH show ?case by (simp del: unat_of_nat add: mod_mult_div_eq)
qed

lemma le_bytes_small: "n < 256 \<Longrightarrow> le_bytes (Suc k) n = of_nat n # replicate k 0"
proof -
  have "le_bytes k 0 = replicate k 0" by (induction k) auto
  then show "n < 256 \<Longrightarrow> ?thesis" by simp
qed

lemma of_le_replicate [simp]: "of_le (replicate z 0 @ bs) = 256 ^ z * of_le bs"
  by (induction z) auto

text \<open>\<open>u32::to_le_bytes\<close> and \<open>u32::from_le_bytes\<close>.\<close>

definition le32 :: "u32 \<Rightarrow> bytes" where
  "le32 w = le_bytes 4 (unat w)"

definition of_le32 :: "bytes \<Rightarrow> u32" where
  "of_le32 bs = of_nat (of_le bs)"

lemma length_le32 [simp]: "length (le32 w) = 4"
  by (simp add: le32_def)

lemma of_le32_le32 [simp]: "of_le32 (le32 w) = w"
proof -
  have "unat w < 256 ^ 4"
    using unsigned_less [of w] by simp
  then show ?thesis by (simp add: of_le32_def le32_def)
qed

section \<open>Vectors and slices\<close>

text \<open>Indexing and the operations of \<open>Vec\<close> that panic out of range.\<close>

definition vec_get :: "'a list \<Rightarrow> nat \<Rightarrow> err + 'a" where
  "vec_get xs i = (if i < length xs then Inr (xs ! i) else Inl Panicked)"

definition vec_set :: "nat \<Rightarrow> 'a \<Rightarrow> 'a list \<Rightarrow> err + 'a list" where
  "vec_set i x xs = (if i < length xs then Inr (xs[i := x]) else Inl Panicked)"

definition ins_at :: "nat \<Rightarrow> 'a \<Rightarrow> 'a list \<Rightarrow> 'a list" where
  "ins_at i x xs = take i xs @ x # drop i xs"

definition vec_insert :: "nat \<Rightarrow> 'a \<Rightarrow> 'a list \<Rightarrow> err + 'a list" where
  "vec_insert i x xs = (if i \<le> length xs then Inr (ins_at i x xs) else Inl Panicked)"

text \<open>\<open>Vec::remove\<close>: the element taken out and the rest.\<close>

definition vec_remove :: "nat \<Rightarrow> 'a list \<Rightarrow> err + 'a \<times> 'a list" where
  "vec_remove i xs =
     (if i < length xs then Inr (xs ! i, take i xs @ drop (Suc i) xs) else Inl Panicked)"

text \<open>\<open>Vec::split_off\<close>: what stays and what is split off.\<close>

definition split_off :: "nat \<Rightarrow> 'a list \<Rightarrow> err + 'a list \<times> 'a list" where
  "split_off i xs = (if i \<le> length xs then Inr (take i xs, drop i xs) else Inl Panicked)"

lemma vec_get_ok [simp]: "i < length xs \<Longrightarrow> vec_get xs i = Inr (xs ! i)"
  by (simp add: vec_get_def)

lemma vec_set_ok [simp]: "i < length xs \<Longrightarrow> vec_set i x xs = Inr (xs[i := x])"
  by (simp add: vec_set_def)

lemma vec_insert_ok [simp]: "i \<le> length xs \<Longrightarrow> vec_insert i x xs = Inr (ins_at i x xs)"
  by (simp add: vec_insert_def)

lemma vec_remove_ok [simp]:
  "i < length xs \<Longrightarrow> vec_remove i xs = Inr (xs ! i, take i xs @ drop (Suc i) xs)"
  by (simp add: vec_remove_def)

lemma split_off_ok [simp]: "i \<le> length xs \<Longrightarrow> split_off i xs = Inr (take i xs, drop i xs)"
  by (simp add: split_off_def)

lemma length_ins_at [simp]: "length (ins_at i x xs) = Suc (length xs)"
  by (simp add: ins_at_def)

lemma set_ins_at [simp]: "set (ins_at i x xs) = insert x (set xs)"
  unfolding ins_at_def by (metis Un_insert_right append_take_drop_id list.simps(15) set_append)

lemma nth_ins_at:
  "i \<le> length xs \<Longrightarrow> j \<le> length xs \<Longrightarrow>
   ins_at i x xs ! j = (if j < i then xs ! j else if j = i then x else xs ! (j - 1))"
  by (auto simp: ins_at_def nth_append min_def nth_Cons')

text \<open>
  \<open>slice::binary_search\<close>, the loop of the standard library: \<open>Inr\<close> a position of the key
  (\<open>Ok\<close>) or \<open>Inl\<close> where it would go (\<open>Err\<close>).
\<close>

function bsearch_from :: "'a::linorder list \<Rightarrow> 'a \<Rightarrow> nat \<Rightarrow> nat \<Rightarrow> nat + nat" where
  "bsearch_from xs key left right =
     (if left < right
      then let mid = left + (right - left) div 2
           in if xs ! mid = key then Inr mid
              else if xs ! mid < key then bsearch_from xs key (mid + 1) right
              else bsearch_from xs key left mid
      else Inl left)"
  by pat_completeness auto
termination
  by (relation "measure (\<lambda>(xs, key, left, right). right - left)") auto

declare bsearch_from.simps [simp del]

definition binary_search :: "'a::linorder list \<Rightarrow> 'a \<Rightarrow> nat + nat" where
  "binary_search xs key = bsearch_from xs key 0 (length xs)"

text \<open>The number of keys below a key: where a sorted slice would take it.\<close>

definition rank :: "'a::linorder list \<Rightarrow> 'a \<Rightarrow> nat" where
  "rank xs key = length (takeWhile (\<lambda>x. x < key) xs)"

lemma rankI:
  assumes "i \<le> length xs" and "\<And>j. j < i \<Longrightarrow> xs ! j < key" and "i < length xs \<Longrightarrow> \<not> xs ! i < key"
  shows "rank xs key = i"
proof -
  have "takeWhile (\<lambda>x. x < key) xs = take i xs"
    using assms by (intro takeWhile_eq_take_P_nth) auto
  then show ?thesis using assms(1) by (simp add: rank_def)
qed

lemma rank_le [simp]: "rank xs key \<le> length xs"
  by (simp add: rank_def length_takeWhile_le)

lemma nth_less_rank: "j < rank xs key \<Longrightarrow> xs ! j < key"
  unfolding rank_def by (metis nth_mem set_takeWhileD takeWhile_nth)

lemma nth_rank: "rank xs key < length xs \<Longrightarrow> \<not> xs ! rank xs key < key"
  unfolding rank_def by (rule nth_length_takeWhile)

lemma nth_ge_rank:
  assumes "sorted_wrt (<) xs" and "rank xs key \<le> j" and "j < length xs"
  shows "key \<le> xs ! j"
proof -
  have "xs ! rank xs key \<le> xs ! j"
    using assms sorted_wrt_nth_less [of "(<)" xs "rank xs key" j]
    by (cases "rank xs key = j") (auto intro: less_imp_le)
  with nth_rank [of xs key] assms(2,3) show ?thesis by simp
qed

lemma bsearch_from_sorted:
  assumes "sorted_wrt (<) xs" and "l \<le> rank xs key" and "rank xs key \<le> r" and "r \<le> length xs"
  shows "bsearch_from xs key l r =
    (if rank xs key < r \<and> xs ! rank xs key = key then Inr (rank xs key) else Inl (rank xs key))"
  using assms
proof (induction xs key l r rule: bsearch_from.induct)
  case (1 xs key l r)
  let ?m = "l + (r - l) div 2"
  show ?case
  proof (cases "l < r")
    case False
    with "1.prems" show ?thesis by (subst bsearch_from.simps) auto
  next
    case True
    then have m: "?m < r" "l \<le> ?m" by auto
    consider "xs ! ?m = key" | "xs ! ?m < key" | "key < xs ! ?m" by (rule linorder_cases)
    then show ?thesis
    proof cases
      case 1
      have "rank xs key = ?m"
      proof (rule rankI)
        show "xs ! j < key" if "j < ?m" for j
          using that m \<open>r \<le> length xs\<close> sorted_wrt_nth_less [OF \<open>sorted_wrt (<) xs\<close>, of j ?m] 1
          by simp
      qed (use m "1.prems" 1 in auto)
      with True m 1 show ?thesis by (subst bsearch_from.simps) (simp add: Let_def)
    next
      case 2
      have "?m < rank xs key"
        using nth_ge_rank [of xs key ?m] "1.prems" m 2 by (meson leD leI less_le_trans)
      moreover have "xs ! ?m \<noteq> key" using 2 by simp
      ultimately show ?thesis using "1.IH"(1) [OF True refl] "1.prems" m 2 True
        by (subst bsearch_from.simps) (simp add: Let_def)
    next
      case 3
      have "rank xs key \<le> ?m"
        using nth_less_rank [of ?m xs key] 3 by (meson leI not_less_iff_gr_or_eq)
      with "1.IH"(2) [OF True refl] "1.prems" m 3 True show ?thesis
        by (subst bsearch_from.simps) (auto simp: Let_def)
    qed
  qed
qed

lemma mem_iff_rank:
  assumes "sorted_wrt (<) xs"
  shows "key \<in> set xs \<longleftrightarrow> rank xs key < length xs \<and> xs ! rank xs key = key"
proof
  assume "key \<in> set xs"
  then obtain j where j: "j < length xs" "xs ! j = key" by (auto simp: in_set_conv_nth)
  then have "rank xs key \<le> j" using nth_less_rank [of j xs key] by (meson leI less_irrefl)
  with j assms show "rank xs key < length xs \<and> xs ! rank xs key = key"
    using sorted_wrt_nth_less [OF assms, of "rank xs key" j] nth_rank [of xs key]
    by (cases "rank xs key = j") auto
qed (metis nth_mem)

lemma binary_search_sorted:
  assumes "sorted_wrt (<) xs"
  shows "binary_search xs key =
    (if key \<in> set xs then Inr (rank xs key) else Inl (rank xs key))"
  using bsearch_from_sorted [OF assms, of 0 key "length xs"]
  by (simp add: binary_search_def mem_iff_rank [OF assms])

section \<open>Association lists as hash maps\<close>

text \<open>Facts that describe \<open>AList.update\<close> and \<open>AList.delete\<close> by their keys and lookups.\<close>

named_theorems alist

lemma keys_delete [alist]: "fst ` set (AList.delete k xs) = fst ` set xs - {k}"
  by (auto simp: AList.delete_eq)

lemma delete_filter: "AList.delete k xs = filter (\<lambda>e. fst e \<noteq> k) xs"
  by (auto simp: AList.delete_eq case_prod_beta intro: filter_cong)

lemma distinct_keys_filter [intro]:
  "distinct (map fst xs) \<Longrightarrow> distinct (map fst (filter P xs))"
  by (induction xs) auto

lemmas keys_update [alist] = AList.dom_update
lemmas lookup_update [alist] = AList.update_conv'
lemmas lookup_delete [alist] = AList.delete_conv'
lemmas distinct_keys_update [intro] = AList.distinct_update

lemma length_update:
  "length (AList.update k v xs) = (if k \<in> fst ` set xs then length xs else Suc (length xs))"
  by (induction xs) auto

lemma length_filter_keys:
  assumes "distinct (map fst xs)" and "K \<subseteq> fst ` set xs"
  shows "length (filter (\<lambda>e. fst e \<notin> K) xs) = length xs - card K"
proof -
  let ?ys = "filter (\<lambda>e. fst e \<notin> K) xs"
  have "length ?ys = card (fst ` set ?ys)"
    using distinct_card [OF distinct_keys_filter [OF assms(1)]] by (metis length_map list.set_map)
  also have "fst ` set ?ys = fst ` set xs - K" by auto
  also have "card \<dots> = card (fst ` set xs) - card K"
    using assms(2) by (simp add: card_Diff_subset finite_subset)
  also have "card (fst ` set xs) = length xs"
    using distinct_card [OF assms(1)] by simp
  finally show ?thesis .
qed

end
