(* ===== verification/Text.thy ===== *)
theory Text
  imports Prelude "HOL-Library.Char_ord" "HOL-Library.Sublist"
begin

text \<open>
  Rust strings. A \<open>String\<close> is the list of its UTF-8 bytes, each byte a \<open>char\<close>; comparison
  is the order on bytes, as in Rust. The functions of the standard library that the engine
  and the server use: conversion to and from bytes (\<open>from_utf8_lossy\<close> with its replacement
  character), prefixes and suffixes, search, removal of quotes, white space, numbers in
  decimal and hexadecimal, \<open>join\<close> and \<open>split\<close>. Of the Unicode tables only the mapping of
  non-ASCII letters to upper or lower case is a parameter.
\<close>

type_synonym str = string

section \<open>Bytes\<close>

definition to_bytes_of :: "str \<Rightarrow> bytes" where
  "to_bytes_of s = map (\<lambda>c. of_nat (of_char c)) s"

definition text_of :: "bytes \<Rightarrow> str" where
  "text_of bs = map (\<lambda>b. char_of (unat b)) bs"

lemma text_of_bytes [simp]: "text_of (to_bytes_of s) = s"
proof -
  have "char_of (unat (of_nat (of_char c) :: byte)) = c" for c
  proof -
    have "(of_char c :: nat) < 256" by (rule nat_of_char_less_256)
    then show ?thesis by (simp add: unsigned_of_nat take_bit_nat_eq_self)
  qed
  then show ?thesis by (simp add: text_of_def to_bytes_of_def comp_def)
qed

lemma inj_to_bytes: "to_bytes_of s = to_bytes_of t \<longleftrightarrow> s = t"
  by (metis text_of_bytes)

lemma to_bytes_append [simp]: "to_bytes_of (s @ t) = to_bytes_of s @ to_bytes_of t"
  by (simp add: to_bytes_of_def)

text \<open>The length of the UTF-8 character at the head of the bytes, or of the invalid part.\<close>

definition cont_byte :: "nat \<Rightarrow> bool" where
  "cont_byte b \<longleftrightarrow> 128 \<le> b \<and> b < 192"

definition second_ok :: "nat \<Rightarrow> nat \<Rightarrow> bool" where
  "second_ok b c \<longleftrightarrow>
     (if b = 224 then 160 \<le> c \<and> c < 192 else if b = 237 then 128 \<le> c \<and> c < 160
      else if b = 240 then 144 \<le> c \<and> c < 192 else if b = 244 then 128 \<le> c \<and> c < 144
      else cont_byte c)"

definition nth0 :: "nat list \<Rightarrow> nat \<Rightarrow> nat" where
  "nth0 xs i = (if i < length xs then xs ! i else 0)"

definition utf8_char :: "nat list \<Rightarrow> bool \<times> nat" where
  "utf8_char bs = (let b = nth0 bs 0; c = nth0 bs 1; d = nth0 bs 2; e = nth0 bs 3 in
     if b < 128 then (True, 1)
     else if 194 \<le> b \<and> b < 224 then (if cont_byte c then (True, 2) else (False, 1))
     else if 224 \<le> b \<and> b < 240 then
       (if \<not> second_ok b c then (False, 1) else if cont_byte d then (True, 3) else (False, 2))
     else if 240 \<le> b \<and> b < 245 then
       (if \<not> second_ok b c then (False, 1) else if \<not> cont_byte d then (False, 2)
        else if cont_byte e then (True, 4) else (False, 3))
     else (False, 1))"

lemma utf8_char_pos: "0 < snd (utf8_char bs)"
  by (simp add: utf8_char_def Let_def)

function lossy :: "bytes \<Rightarrow> bytes" where
  "lossy bs = (if bs = [] then [] else
     (case utf8_char (map unat bs) of (ok, n) \<Rightarrow>
        (if ok then take n bs else [0xEF, 0xBF, 0xBD]) @ lossy (drop n bs)))"
  by pat_completeness auto
termination
proof (relation "measure length")
  fix bs :: bytes and ok n
  assume "bs \<noteq> []" and "(ok, n) = utf8_char (map unat bs)"
  then have "0 < n" using utf8_char_pos [of "map unat bs"] by (metis snd_conv)
  with \<open>bs \<noteq> []\<close> show "(drop n bs, bs) \<in> measure length" by simp
qed simp

declare lossy.simps [simp del]

definition from_utf8_lossy :: "bytes \<Rightarrow> str" where
  "from_utf8_lossy bs = text_of (lossy bs)"

lemma lossy_ascii: "(\<forall>b \<in> set bs. unat b < 128) \<Longrightarrow> lossy bs = bs"
proof (induction bs)
  case Nil
  then show ?case by (simp add: lossy.simps)
next
  case (Cons b bs)
  then have "utf8_char (map unat (b # bs)) = (True, 1)" by (simp add: utf8_char_def nth0_def)
  with Cons show ?case by (subst lossy.simps) simp
qed

section \<open>Search\<close>

definition contains :: "str \<Rightarrow> str \<Rightarrow> bool" where
  "contains s pat \<longleftrightarrow> sublist pat s"

definition unquote :: "str \<Rightarrow> str" where
  "unquote s = filter (\<lambda>c. c \<noteq> CHR 0x27) s"

text \<open>\<open>trim_start_matches\<close> with a non-empty pattern: every leading copy is removed.\<close>

function strip_prefixes :: "str \<Rightarrow> str \<Rightarrow> str" where
  "strip_prefixes pat s =
     (if pat \<noteq> [] \<and> prefix pat s then strip_prefixes pat (drop (length pat) s) else s)"
  by pat_completeness auto
termination
proof (relation "measure (\<lambda>(pat, s). length s)")
  fix pat s :: str
  assume "pat \<noteq> [] \<and> prefix pat s"
  then have "0 < length pat" "length pat \<le> length s" by (auto dest: prefix_length_le)
  then show "((pat, drop (length pat) s), pat, s) \<in> measure (\<lambda>(pat, s). length s)"
    by (simp del: length_greater_0_conv)
qed simp

declare strip_prefixes.simps [simp del]

section \<open>White space and case\<close>

text \<open>The characters with the Unicode property White_Space, in UTF-8.\<close>

definition white_space :: "str list" where
  "white_space = map (\<lambda>c. [c]) [CHR 0x09, CHR 0x0A, CHR 0x0B, CHR 0x0C, CHR 0x0D, CHR 0x20]
     @ map (\<lambda>c. [CHR 0xC2, c]) [CHR 0x85, CHR 0xA0]
     @ [[CHR 0xE1, CHR 0x9A, CHR 0x80]]
     @ map (\<lambda>c. [CHR 0xE2, CHR 0x80, c]) [CHR 0x80, CHR 0x81, CHR 0x82, CHR 0x83, CHR 0x84, CHR 0x85, CHR 0x86,
         CHR 0x87, CHR 0x88, CHR 0x89, CHR 0x8A, CHR 0xA8, CHR 0xA9, CHR 0xAF]
     @ [[CHR 0xE2, CHR 0x81, CHR 0x9F], [CHR 0xE3, CHR 0x80, CHR 0x80]]"

text \<open>Remove the leading strings that are in a list.\<close>

function strip_any :: "str list \<Rightarrow> str \<Rightarrow> str" where
  "strip_any pats s = (case find (\<lambda>w. w \<noteq> [] \<and> prefix w s) pats of
      None \<Rightarrow> s | Some w \<Rightarrow> strip_any pats (drop (length w) s))"
  by pat_completeness auto
termination
proof (relation "measure (\<lambda>(pats, s). length s)")
  fix pats :: "str list" and s w :: str
  assume "find (\<lambda>w. w \<noteq> [] \<and> prefix w s) pats = Some w"
  then have "w \<noteq> []" "prefix w s" by (auto simp: find_Some_iff)
  then have "0 < length w" "length w \<le> length s" by (auto dest: prefix_length_le)
  then show "((pats, drop (length w) s), pats, s) \<in> measure (\<lambda>(pats, s). length s)"
    by (simp del: length_greater_0_conv)
qed simp

declare strip_any.simps [simp del]

lemma strip_any_id: "\<forall>w \<in> set pats. w = [] \<or> \<not> prefix w s \<Longrightarrow> strip_any pats s = s"
  using find_None_iff [of "\<lambda>w. w \<noteq> [] \<and> prefix w s" pats] by (subst strip_any.simps) auto

definition trim_start :: "str \<Rightarrow> str" where
  "trim_start s = strip_any white_space s"

definition trim :: "str \<Rightarrow> str" where
  "trim s = rev (strip_any (map rev white_space) (rev (trim_start s)))"

text \<open>Text without white space at its ends.\<close>

definition trimmed :: "str \<Rightarrow> bool" where
  "trimmed s \<longleftrightarrow> (\<forall>w \<in> set white_space. \<not> prefix w s \<and> \<not> suffix w s)"

lemma trim_id: "trimmed s \<Longrightarrow> trim s = s"
  by (simp add: trim_def trim_start_def strip_any_id trimmed_def suffix_to_prefix)

text \<open>\<open>split_whitespace\<close>: the non-empty pieces between white space.\<close>

definition starts_white :: "str \<Rightarrow> bool" where
  "starts_white s \<longleftrightarrow> (\<exists>w \<in> set white_space. prefix w s)"

fun first_word :: "str \<Rightarrow> str" where
  "first_word [] = []"
| "first_word (c # cs) = (if starts_white (c # cs) then [] else c # first_word cs)"

lemma length_strip_any: "length (strip_any pats s) \<le> length s"
proof (induction pats s rule: strip_any.induct)
  case (1 pats s)
  show ?case
    by (subst strip_any.simps) (use 1 in \<open>auto split: option.split intro: le_trans\<close>)
qed

function split_words :: "str \<Rightarrow> str list" where
  "split_words s = (let t = trim_start s; w = first_word t in
     if t = [] \<or> w = [] then [] else w # split_words (drop (length w) t))"
  by pat_completeness auto
termination
proof (relation "measure length")
  fix s t w :: str
  assume t: "t = trim_start s" and "\<not> (t = [] \<or> w = [])"
  then have "0 < length w" "0 < length t" by auto
  moreover have "length t \<le> length s" unfolding t trim_start_def by (rule length_strip_any)
  ultimately show "(drop (length w) t, s) \<in> measure length" by (simp del: length_greater_0_conv)
qed simp

declare split_words.simps [simp del]

definition ascii_upper :: "char \<Rightarrow> char" where
  "ascii_upper c = (if CHR ''a'' \<le> c \<and> c \<le> CHR ''z'' then char_of ((of_char c :: nat) - 32) else c)"

definition ascii_lower :: "char \<Rightarrow> char" where
  "ascii_lower c = (if CHR ''A'' \<le> c \<and> c \<le> CHR ''Z'' then char_of ((of_char c :: nat) + 32) else c)"

text \<open>
  \<open>to_uppercase\<close> and \<open>to_lowercase\<close>; \<open>other\<close> is the mapping on strings with other than ASCII
  characters.
\<close>

definition to_uppercase :: "(str \<Rightarrow> str) \<Rightarrow> str \<Rightarrow> str" where
  "to_uppercase other s = (if \<forall>c \<in> set s. (of_char c :: nat) < 128 then map ascii_upper s else other s)"

definition to_lowercase :: "(str \<Rightarrow> str) \<Rightarrow> str \<Rightarrow> str" where
  "to_lowercase other s = (if \<forall>c \<in> set s. (of_char c :: nat) < 128 then map ascii_lower s else other s)"

section \<open>Numbers, joining and splitting\<close>

definition digit_char :: "nat \<Rightarrow> char" where
  "digit_char d = char_of (if d < 10 then 48 + d else 87 + d)"

fun show_nat :: "nat \<Rightarrow> str" where
  "show_nat n = (if n < 10 then [digit_char n] else show_nat (n div 10) @ [digit_char (n mod 10)])"

declare show_nat.simps [simp del]

definition show_int :: "int \<Rightarrow> str" where
  "show_int i = (if i < 0 then CHR ''-'' # show_nat (nat (- i)) else show_nat (nat i))"

text \<open>The format \<open>{:016x}\<close>.\<close>

definition hex16 :: "u64 \<Rightarrow> str" where
  "hex16 w = map (\<lambda>i. digit_char (unat w div 16 ^ (15 - i) mod 16)) [0..<16]"

fun join :: "str \<Rightarrow> str list \<Rightarrow> str" where
  "join sep [] = []"
| "join sep [s] = s"
| "join sep (s # t # ts) = s @ sep @ join sep (t # ts)"

fun split_on :: "char \<Rightarrow> str \<Rightarrow> str list" where
  "split_on c [] = [[]]"
| "split_on c (x # xs) =
     (if x = c then [] # split_on c xs
      else case split_on c xs of [] \<Rightarrow> [[x]] | w # ws \<Rightarrow> (x # w) # ws)"

text \<open>
  \<open>str::parse\<close> for an unsigned integer type with the given number of values: decimal digits
  with an optional plus.
\<close>

definition parse_nat :: "nat \<Rightarrow> str \<Rightarrow> nat option" where
  "parse_nat bound s = (let ds = (case s of c # cs \<Rightarrow> if c = CHR ''+'' then cs else s | [] \<Rightarrow> s);
       n = foldl (\<lambda>a c. 10 * a + (of_char c - 48)) 0 ds
     in if ds \<noteq> [] \<and> (\<forall>c \<in> set ds. CHR ''0'' \<le> c \<and> c \<le> CHR ''9'') \<and> n < bound
        then Some n else None)"

definition parse_usize :: "str \<Rightarrow> nat option" where
  "parse_usize s = parse_nat (2 ^ 64) s"

section \<open>Decimal numbers\<close>

lemma digits_induct [case_names digit more]:
  assumes "\<And>n. n < 10 \<Longrightarrow> P n" and "\<And>n. \<not> n < 10 \<Longrightarrow> P (n div 10) \<Longrightarrow> P n"
  shows "P (n :: nat)"
proof (induction n rule: less_induct)
  case (less n)
  then show ?case using assms by (cases "n < 10") auto
qed

lemma digit_value: "d < 10 \<Longrightarrow> of_char (digit_char d) - 48 = d"
  by (simp add: digit_char_def)

lemma digit_range: "d < 10 \<Longrightarrow> CHR ''0'' \<le> digit_char d \<and> digit_char d \<le> CHR ''9''"
  by (simp add: digit_char_def less_eq_char_def)

lemma show_nat_digits: "\<forall>c \<in> set (show_nat n). CHR ''0'' \<le> c \<and> c \<le> CHR ''9''"
proof (induction n rule: digits_induct)
  case (digit n)
  then show ?case by (subst show_nat.simps) (simp add: digit_range)
next
  case (more n)
  then show ?case by (subst show_nat.simps) (auto simp: digit_range)
qed

lemma show_nat_ne: "show_nat n \<noteq> []"
  by (subst show_nat.simps) simp

lemma show_nat_value: "foldl (\<lambda>a c. 10 * a + (of_char c - 48)) 0 (show_nat n) = n"
proof (induction n rule: digits_induct)
  case (digit n)
  then show ?case by (subst show_nat.simps) (simp add: digit_value)
next
  case (more n)
  then show ?case by (subst show_nat.simps) (simp add: digit_value)
qed

lemma parse_show: "n < bound \<Longrightarrow> parse_nat bound (show_nat n) = Some n"
proof -
  assume n: "n < bound"
  obtain c cs where s: "show_nat n = c # cs" using show_nat_ne [of n] by (cases "show_nat n") auto
  moreover have "c \<noteq> CHR ''+''" using show_nat_digits [of n] s by (auto simp: less_eq_char_def)
  ultimately show ?thesis
    using n show_nat_digits [of n] show_nat_value [of n] by (simp add: parse_nat_def Let_def)
qed

lemma split_on_none: "c \<notin> set w \<Longrightarrow> split_on c w = [w]"
  by (induction w) auto

lemma split_on_sep: "c \<notin> set w \<Longrightarrow> split_on c (w @ c # xs) = w # split_on c xs"
  by (induction w) auto

end
