(* ===== verification/Sql.thy ===== *)
theory Sql
  imports Text
begin

text \<open>
  The part of the SQL syntax tree of the sqlparser crate that the engine looks at, with one
  constructor for all it treats alike, and the evaluation of WHERE conditions
  (\<open>evaluate_where\<close> of \<open>src/src/parser/engine.rs\<close>). How the crate prints expressions and
  values is a parameter (\<open>sql_print\<close>).
\<close>

section \<open>Syntax\<close>

datatype sql_value = Number str | SingleQuotedString str | Other_value str

datatype binary_op = Eq | NotEq | Gt | Lt | Other_op str

text \<open>
  A compound identifier has at least one part. The arguments of a function are its unnamed
  expression arguments; \<open>None\<close> stands for any other form of argument.
\<close>

datatype expr =
    Identifier str
  | CompoundIdentifier str "str list"
  | Value sql_value
  | BinaryOp expr binary_op expr
  | Nested expr
  | Function str "expr option list"
  | Other_expr str

datatype table_factor = Table str | Other_factor str

datatype join_operator = Inner_On expr | Other_join

datatype select_item = UnnamedExpr expr | Other_item

record table_with_joins =
  relation :: table_factor
  joins :: "(table_factor \<times> join_operator) list"

record select =
  from_tables :: "table_with_joins list"
  projection :: "select_item list"
  selection :: "expr option"

datatype set_expr = Select select | Values "expr list list" | Other_body str

record sql_query =
  query_body :: set_expr
  query_limit :: "expr option"

text \<open>
  \<open>CreateTable\<close>: the table and, for each column, its name and the texts of its options.
  \<open>Update\<close>: assignments to (the first part of) a column. \<open>Delete\<close>: the FROM relations.
\<close>

datatype statement =
    CreateIndex "str option" str "expr list"
  | CreateTable str "(str \<times> str list) list"
  | Explain str
  | Insert str "sql_query option"
  | Query sql_query
  | Update table_factor "(str \<times> expr) list" "expr option"
  | Delete "table_factor list" "expr option"
  | Other_statement str

record sql_print =
  show_value :: "sql_value \<Rightarrow> str"
  show_expr :: "expr \<Rightarrow> str"
  show_statement :: "statement \<Rightarrow> str"

section \<open>Conditions\<close>

type_synonym row = "(str \<times> str) list"

definition or_empty :: "str option \<Rightarrow> str" where
  "or_empty x = (case x of Some v \<Rightarrow> v | None \<Rightarrow> [])"

text \<open>The value of an operand, the closure \<open>get_data\<close>.\<close>

definition get_data :: "sql_print \<Rightarrow> row \<Rightarrow> expr \<Rightarrow> str" where
  "get_data P row e = (case e of
      Identifier i \<Rightarrow>
        (case map_of row i of
           Some v \<Rightarrow> v
         | None \<Rightarrow> (case find (\<lambda>k. suffix (''.'' @ i) k) (map fst row) of
             Some k \<Rightarrow> or_empty (map_of row k)
           | None \<Rightarrow> []))
    | CompoundIdentifier p ps \<Rightarrow>
        (case map_of row (join ''.'' (p # ps)) of
           Some v \<Rightarrow> v
         | None \<Rightarrow> or_empty (map_of row (last (p # ps))))
    | Value v \<Rightarrow> unquote (show_value P v)
    | _ \<Rightarrow> [])"

fun evaluate_where :: "sql_print \<Rightarrow> expr \<Rightarrow> row \<Rightarrow> bool" where
  "evaluate_where P (BinaryOp left op right) row =
     (let left_val = get_data P row left; right_val = get_data P row right
      in case op of
           Eq \<Rightarrow> if left_val = [] \<and> right_val = [] then False else left_val = right_val
         | NotEq \<Rightarrow> left_val \<noteq> right_val
         | Gt \<Rightarrow> right_val < left_val
         | Lt \<Rightarrow> left_val < right_val
         | Other_op _ \<Rightarrow> False)"
| "evaluate_where P (Nested inner) row = evaluate_where P inner row"
| "evaluate_where P _ row = True"

end
