(* ===== verification/Memory_Tier.thy ===== *)
theory Memory_Tier
  imports Prelude
begin

text \<open>
  The memory tier of \<open>src/src/storage/mod.rs\<close>: a key-value cache in RAM with a second
  map of last-write times, hit and miss counters, the turbo switch and the RAM limit.

  The two \<open>DashMap\<close>s are association lists (\<open>cache\<close>, \<open>lru\<close>), the four atomics are
  \<open>u64\<close> words. \<open>Utc::now()\<close> is the argument \<open>now\<close> of the operation that reads the clock.
  The locale \<open>lossy_cache\<close> is what the B+tree and the engine rely on: a lookup returns the
  latest value written or nothing.
\<close>

section \<open>State\<close>

record mem_tier =
  cache :: "(bytes \<times> bytes) list"
  lru :: "(bytes \<times> int) list"
  hits :: u64
  misses :: u64
  turbo_mode :: u64
  max_ram_mb :: u64

definition mt_new :: "u64 \<Rightarrow> mem_tier" where
  "mt_new limit = \<lparr>cache = [], lru = [], hits = 0, misses = 0, turbo_mode = 0,
     max_ram_mb = limit\<rparr>"

section \<open>Operations\<close>

definition mt_get :: "bytes \<Rightarrow> mem_tier \<Rightarrow> bytes option \<times> mem_tier" where
  "mt_get key m =
     (case map_of (cache m) key of
        Some val \<Rightarrow>
          if turbo_mode m = 1 then (Some val, m)
          else (Some val, m\<lparr>hits := hits m + 1\<rparr>)
      | None \<Rightarrow>
          if turbo_mode m = 1 then (None, m)
          else (None, m\<lparr>misses := misses m + 1\<rparr>))"

definition mt_drop :: "bytes \<Rightarrow> mem_tier \<Rightarrow> mem_tier" where
  "mt_drop key m = m\<lparr>cache := AList.delete key (cache m), lru := AList.delete key (lru m)\<rparr>"

definition evict_lru :: "nat \<Rightarrow> mem_tier \<Rightarrow> mem_tier" where
  "evict_lru cnt m =
     (let items = sort_key snd (lru m)
      in foldl (\<lambda>m it. mt_drop (fst it) m) m (take (min cnt (length items)) items))"

definition mt_max_bytes :: "mem_tier \<Rightarrow> u64" where
  "mt_max_bytes m = max_ram_mb m * 1024 * 1024"

definition mt_insert :: "int \<Rightarrow> bytes \<Rightarrow> bytes \<Rightarrow> mem_tier \<Rightarrow> mem_tier" where
  "mt_insert now key val m =
     (let max_bytes = mt_max_bytes m;
          current_entries = length (cache m);
          estimated_size = (of_nat current_entries :: u64) * 256;
          m = (if max_bytes < estimated_size \<and> cache m \<noteq> []
               then evict_lru (current_entries div 10) m else m)
      in m\<lparr>lru := AList.update key now (lru m), cache := AList.update key val (cache m)\<rparr>)"

definition mt_remove :: "bytes \<Rightarrow> mem_tier \<Rightarrow> mem_tier" where
  "mt_remove key m = mt_drop key m"

definition mt_clear :: "mem_tier \<Rightarrow> mem_tier" where
  "mt_clear m = m\<lparr>cache := [], lru := []\<rparr>"

text \<open>The value a reader sees, without the counters.\<close>

definition mt_lookup :: "mem_tier \<Rightarrow> bytes \<Rightarrow> bytes option" where
  "mt_lookup m key = map_of (cache m) key"

section \<open>The invariant: both maps have the same keys, each once\<close>

definition mt_inv :: "mem_tier \<Rightarrow> bool" where
  "mt_inv m \<longleftrightarrow> distinct (map fst (cache m)) \<and> distinct (map fst (lru m))
     \<and> fst ` set (cache m) = fst ` set (lru m)"

lemma mt_inv_new [simp, intro]: "mt_inv (mt_new n)"
  by (simp add: mt_inv_def mt_new_def)

lemma mt_inv_lengths:
  assumes "mt_inv m"
  shows "length (lru m) = length (cache m)"
  using assms distinct_card [of "map fst (lru m)"] distinct_card [of "map fst (cache m)"]
  by (simp add: mt_inv_def)

lemma mt_get_fst [simp]: "fst (mt_get k m) = mt_lookup m k"
  by (simp add: mt_get_def mt_lookup_def split: option.split)

lemma mt_get_frame [simp]:
  "cache (snd (mt_get k m)) = cache m" "lru (snd (mt_get k m)) = lru m"
  "turbo_mode (snd (mt_get k m)) = turbo_mode m" "max_ram_mb (snd (mt_get k m)) = max_ram_mb m"
  by (simp_all add: mt_get_def split: option.split)

lemma mt_inv_get [simp]: "mt_inv (snd (mt_get k m)) = mt_inv m"
  by (simp add: mt_inv_def)

lemma mt_lookup_get [simp]: "mt_lookup (snd (mt_get k' m)) k = mt_lookup m k"
  by (simp add: mt_lookup_def)

lemma mt_lookup_new [simp]: "mt_lookup (mt_new n) k = None"
  by (simp add: mt_lookup_def mt_new_def)

lemma mt_inv_drop [intro]: "mt_inv m \<Longrightarrow> mt_inv (mt_drop k m)"
  by (simp add: mt_inv_def mt_drop_def keys_delete AList.distinct_delete)

lemma mt_inv_clear [simp, intro]: "mt_inv (mt_clear m)"
  by (simp add: mt_inv_def mt_clear_def)

lemma mt_lookup_drop: "mt_lookup (mt_drop k m) k' = (if k' = k then None else mt_lookup m k')"
  by (simp add: mt_lookup_def mt_drop_def alist)

lemma mt_drop_frame [simp]:
  "max_ram_mb (mt_drop k m) = max_ram_mb m" "turbo_mode (mt_drop k m) = turbo_mode m"
  by (simp_all add: mt_drop_def)

section \<open>Eviction\<close>

abbreviation drop_all :: "(bytes \<times> int) list \<Rightarrow> mem_tier \<Rightarrow> mem_tier" where
  "drop_all items m \<equiv> foldl (\<lambda>m it. mt_drop (fst it) m) m items"

abbreviation victims :: "nat \<Rightarrow> mem_tier \<Rightarrow> (bytes \<times> int) list" where
  "victims n m \<equiv> take n (sort_key snd (lru m))"

lemma mt_inv_drop_all [intro]: "mt_inv m \<Longrightarrow> mt_inv (drop_all its m)"
  by (induction its arbitrary: m) auto

lemma drop_all_frame [simp]:
  "max_ram_mb (drop_all its m) = max_ram_mb m" "turbo_mode (drop_all its m) = turbo_mode m"
  by (induction its arbitrary: m) auto

lemma cache_drop_all: "cache (drop_all its m) = filter (\<lambda>e. fst e \<notin> fst ` set its) (cache m)"
  by (induction its arbitrary: m)
    (auto simp: mt_drop_def delete_filter intro!: filter_cong)

lemma lru_drop_all: "lru (drop_all its m) = filter (\<lambda>e. fst e \<notin> fst ` set its) (lru m)"
  by (induction its arbitrary: m)
    (auto simp: mt_drop_def delete_filter intro!: filter_cong)

lemma evict_lru_eq: "evict_lru n m = drop_all (victims n m) m"
  by (simp add: evict_lru_def Let_def min_def)

lemma mt_inv_evict [intro]: "mt_inv m \<Longrightarrow> mt_inv (evict_lru n m)"
  by (auto simp: evict_lru_eq)

lemma evict_frame [simp]:
  "max_ram_mb (evict_lru n m) = max_ram_mb m" "turbo_mode (evict_lru n m) = turbo_mode m"
  by (simp_all add: evict_lru_eq)

lemma mt_lookup_drop_all:
  "mt_lookup (drop_all its m) k = (if k \<in> fst ` set its then None else mt_lookup m k)"
  by (induction its arbitrary: m) (auto simp: mt_lookup_drop)

lemma mt_lookup_evict: "mt_lookup (evict_lru n m) k \<in> {mt_lookup m k, None}"
  by (simp add: evict_lru_eq mt_lookup_drop_all)

lemma distinct_sorted_keys:
  assumes "mt_inv m"
  shows "distinct (map fst (sort_key snd (lru m)))"
proof -
  have "mset (map fst (sort_key snd (lru m))) = mset (map fst (lru m))" by simp
  with assms show ?thesis
    unfolding mt_inv_def by (metis mset_eq_imp_distinct_iff)
qed

lemma victims_oldest:
  assumes "mt_inv m" and e: "e \<in> set (lru m)" and f: "f \<in> set (lru m)"
    and gone: "fst e \<in> fst ` set (victims n m)" and kept: "fst f \<notin> fst ` set (victims n m)"
  shows "snd e \<le> snd f"
proof -
  let ?s = "sort_key snd (lru m)"
  have d: "distinct (map fst ?s)" by (rule distinct_sorted_keys [OF assms(1)])
  have s: "set ?s = set (take n ?s) \<union> set (drop n ?s)"
    by (metis append_take_drop_id set_append)
  from gone obtain e' where "e' \<in> set (take n ?s)" "fst e' = fst e" by auto
  moreover have "e \<in> set ?s" using e by simp
  ultimately have "e \<in> set (take n ?s)"
    using d by (metis eq_key_imp_eq_value in_set_takeD prod.collapse)
  moreover have "f \<in> set (drop n ?s)" using f kept s by auto
  moreover have "sorted (map snd (take n ?s @ drop n ?s))" by simp
  ultimately show ?thesis
    unfolding map_append sorted_append by auto
qed

lemma evicted_iff:
  assumes "mt_inv m" and "e \<in> set (lru m)"
  shows "mt_lookup (evict_lru n m) (fst e) = None \<longleftrightarrow> fst e \<in> fst ` set (victims n m)"
proof -
  have "fst e \<in> fst ` set (cache m)" using assms by (simp add: mt_inv_def)
  then have "mt_lookup m (fst e) \<noteq> None" by (simp add: mt_lookup_def map_of_eq_None_iff)
  then show ?thesis by (simp add: evict_lru_eq mt_lookup_drop_all)
qed

lemma length_evict:
  assumes "mt_inv m"
  shows "length (cache (evict_lru n m)) = length (cache m) - n"
proof -
  let ?K = "fst ` set (victims n m)"
  have d: "distinct (map fst (victims n m))"
    using distinct_sorted_keys [OF assms] by (metis distinct_take take_map)
  have "card ?K = min n (length (lru m))"
    using distinct_card [OF d] by simp
  moreover have "?K \<subseteq> fst ` set (cache m)"
    using assms set_take_subset [of n "sort_key snd (lru m)"] by (auto simp: mt_inv_def)
  ultimately show ?thesis
    using assms length_filter_keys [of "cache m" ?K]
    by (simp add: evict_lru_eq cache_drop_all mt_inv_lengths) (simp add: mt_inv_def)
qed

section \<open>Insertion\<close>

definition mt_make_room :: "mem_tier \<Rightarrow> mem_tier" where
  "mt_make_room m =
     (if mt_max_bytes m < (of_nat (length (cache m)) :: u64) * 256 \<and> cache m \<noteq> []
      then evict_lru (length (cache m) div 10) m else m)"

lemma mt_insert_eq:
  "mt_insert now k v m = (let r = mt_make_room m in
     r\<lparr>lru := AList.update k now (lru r), cache := AList.update k v (cache r)\<rparr>)"
  by (simp add: mt_insert_def mt_make_room_def Let_def)

lemma mt_inv_make_room [intro]: "mt_inv m \<Longrightarrow> mt_inv (mt_make_room m)"
  by (auto simp: mt_make_room_def)

lemma mt_lookup_make_room: "mt_lookup (mt_make_room m) k \<in> {mt_lookup m k, None}"
  using mt_lookup_evict by (auto simp: mt_make_room_def)

lemma make_room_frame [simp]: "max_ram_mb (mt_make_room m) = max_ram_mb m"
  by (simp add: mt_make_room_def)

lemma mt_inv_insert [intro]: "mt_inv m \<Longrightarrow> mt_inv (mt_insert now k v m)"
  using mt_inv_make_room [of m]
  by (simp add: mt_insert_eq Let_def mt_inv_def alist AList.distinct_update)

lemma mt_lookup_insert:
  "mt_lookup (mt_insert now k v m) k' = (if k' = k then Some v else mt_lookup (mt_make_room m) k')"
  by (simp add: mt_insert_eq Let_def mt_lookup_def alist)

lemma mt_insert_frame [simp]: "max_ram_mb (mt_insert now k v m) = max_ram_mb m"
  by (simp add: mt_insert_eq Let_def)

section \<open>The contract of the cache\<close>

text \<open>
  What the clients of the cache may rely on: a write is visible at once, and no operation
  ever makes up or brings back a value; it can only lose one.
\<close>

locale lossy_cache =
  fixes inv :: "'c \<Rightarrow> bool"
    and look :: "'c \<Rightarrow> 'k \<Rightarrow> 'v option"
    and put :: "'t \<Rightarrow> 'k \<Rightarrow> 'v \<Rightarrow> 'c \<Rightarrow> 'c"
  assumes put_inv: "inv c \<Longrightarrow> inv (put now k v c)"
    and put_same: "inv c \<Longrightarrow> look (put now k v c) k = Some v"
    and put_other: "inv c \<Longrightarrow> k' \<noteq> k \<Longrightarrow> look (put now k v c) k' \<in> {look c k', None}"
begin

lemma puts_inv: "inv c \<Longrightarrow> inv (foldl (\<lambda>c (now, k, v). put now k v c) c ws)"
  by (induction ws arbitrary: c) (auto simp: put_inv)

lemma puts_latest:
  assumes "inv c" and "look (foldl (\<lambda>c (now, k, v). put now k v c) c ws) key = Some v"
  shows "(case map_of (rev (map snd ws)) key of Some w \<Rightarrow> v = w | None \<Rightarrow> look c key = Some v)"
  using assms(2)
proof (induction ws arbitrary: v rule: rev_induct)
  case Nil
  then show ?case by simp
next
  case (snoc w ws)
  obtain now k x where w: "w = (now, k, x)" by (cases w)
  let ?c = "foldl (\<lambda>c (now, k, v). put now k v c) c ws"
  have "inv ?c" by (rule puts_inv [OF assms(1)])
  show ?case
  proof (cases "key = k")
    case True
    with snoc.prems put_same [OF \<open>inv ?c\<close>] show ?thesis by (simp add: w)
  next
    case False
    with snoc.prems put_other [OF \<open>inv ?c\<close>, of key k now x] have "look ?c key = Some v"
      by (auto simp: w)
    with False snoc.IH show ?thesis by (simp add: w)
  qed
qed

end

interpretation mt: lossy_cache mt_inv mt_lookup mt_insert
  by unfold_locales (use mt_lookup_make_room in \<open>auto simp: mt_lookup_insert\<close>)

section \<open>Properties of the memory tier\<close>

text \<open>
  C30 (memory tier, cache coherence): after any sequence of writes into a well-formed cache,
  with whatever evictions the RAM limit forced, a reader gets for each key the last value
  written to it, the value it had before when the sequence did not write it, or nothing;
  never an overwritten value.
\<close>

theorem mt_never_stale:
  assumes "mt_inv m"
    and "fst (mt_get key (foldl (\<lambda>m (now, k, v). mt_insert now k v m) m ws)) = Some v"
  shows "(case map_of (rev (map snd ws)) key of Some w \<Rightarrow> v = w
          | None \<Rightarrow> fst (mt_get key m) = Some v)"
  using mt.puts_latest [OF assms(1)] assms(2) unfolding mt_get_fst .

theorem mt_never_stale_witness:
  "map_of (rev (map snd [(5, [1], [7]), (6::int, [1::byte], [8::byte])])) [1] = Some [8] \<and>
   fst (mt_get [1] (foldl (\<lambda>m (now, k, v). mt_insert now k v m) (mt_new 0)
      [(5, [1], [7]), (6, [1], [8])])) = Some [8]"
proof -
  let ?ws = "[(5::int, [1::byte], [7::byte]), (6, [1], [8])]"
  have i: "mt_inv (mt_new 0)" by simp
  have "fst (mt_get [1] (foldl (\<lambda>m (now, k, v). mt_insert now k v m) (mt_new 0) ?ws)) = Some [8]"
    by (simp add: mt_lookup_insert)
  with mt_never_stale [OF i this] show ?thesis by simp
qed

text \<open>
  Eviction: evicting \<open>n\<close> entries removes exactly \<open>n\<close> of them (all, when
  there are fewer), every evicted entry was written no later than every entry that stays,
  the entries that stay keep their values, and both maps still agree.
\<close>

lemma mt_evict_oldest:
  assumes "mt_inv m"
  shows "mt_inv (evict_lru n m)
    \<and> length (cache (evict_lru n m)) = length (cache m) - n
    \<and> (\<forall>e f. e \<in> set (lru m) \<longrightarrow> f \<in> set (lru m)
        \<longrightarrow> mt_lookup (evict_lru n m) (fst e) = None
        \<longrightarrow> mt_lookup (evict_lru n m) (fst f) \<noteq> None \<longrightarrow> snd e \<le> snd f)
    \<and> (\<forall>k. mt_lookup (evict_lru n m) k \<noteq> None \<longrightarrow> mt_lookup (evict_lru n m) k = mt_lookup m k)"
proof (intro conjI allI impI)
  fix e f
  assume e: "e \<in> set (lru m)" and f: "f \<in> set (lru m)"
    and "mt_lookup (evict_lru n m) (fst e) = None" "mt_lookup (evict_lru n m) (fst f) \<noteq> None"
  then have "fst e \<in> fst ` set (victims n m)" "fst f \<notin> fst ` set (victims n m)"
    using evicted_iff [OF assms e] evicted_iff [OF assms f] by simp_all
  with victims_oldest [OF assms e f] show "snd e \<le> snd f" by simp
next
  fix k
  assume "mt_lookup (evict_lru n m) k \<noteq> None"
  with mt_lookup_evict [of n m k] show "mt_lookup (evict_lru n m) k = mt_lookup m k" by auto
qed (use assms in \<open>auto simp: length_evict\<close>)

text \<open>The bound on the number of entries.\<close>

definition mt_bound :: "mem_tier \<Rightarrow> nat" where
  "mt_bound m = max 10 (unat (mt_max_bytes m) div 256 + 1)"

lemma length_make_room:
  assumes "mt_inv m" and small: "length (cache m) < 2 ^ 56"
  shows "length (cache (mt_make_room m)) < mt_bound m
    \<or> length (cache (mt_make_room m)) < length (cache m)"
proof -
  have "unat ((of_nat (length (cache m)) :: u64) * 256) = length (cache m) * 256"
    using small by (simp add: unat_word_ariths unsigned_of_nat take_bit_nat_eq_self)
  then show ?thesis
    using assms length_evict [OF assms(1), of "length (cache m) div 10"]
    by (cases "mt_max_bytes m < (of_nat (length (cache m)) :: u64) * 256")
      (auto simp: mt_make_room_def mt_bound_def word_less_nat_alt)
qed

lemma mt_bound_insert [simp]: "mt_bound (mt_insert now k v m) = mt_bound m"
  by (simp add: mt_bound_def mt_max_bytes_def)

lemma length_insert_bound:
  assumes "mt_inv m" and "length (cache m) \<le> mt_bound m" and "mt_bound m < 2 ^ 56"
  shows "length (cache (mt_insert now k v m)) \<le> mt_bound m"
proof -
  have "length (cache (mt_insert now k v m)) \<le> Suc (length (cache (mt_make_room m)))"
    by (simp add: mt_insert_eq Let_def length_update)
  with length_make_room [OF assms(1)] assms(2,3) show ?thesis by linarith
qed

text \<open>
  C31 (memory tier, size bound): with \<open>B\<close> the RAM limit in bytes as the code computes it (with
  wrap-around), a cache of at most \<open>max 10 (B / 256 + 1)\<close> entries stays within that many
  entries whatever is written to it. The floor of ten is real: an eviction drops a tenth of
  the entries, rounded down, so fewer than ten entries are never evicted.
\<close>

theorem mt_size_bounded:
  assumes "mt_inv m" and "length (cache m) \<le> mt_bound m" and "mt_bound m < 2 ^ 56"
  shows "length (cache (foldl (\<lambda>m (now, k, v). mt_insert now k v m) m ws)) \<le> mt_bound m"
  using assms
proof (induction ws arbitrary: m)
  case Nil
  then show ?case by simp
next
  case (Cons w ws)
  obtain now k v where w: "w = (now, k, v)" by (cases w)
  let ?m = "mt_insert now k v m"
  have "mt_inv ?m" using Cons.prems(1) by auto
  moreover have "length (cache ?m) \<le> mt_bound ?m"
    using length_insert_bound [OF Cons.prems] by simp
  ultimately have "length (cache (foldl (\<lambda>m (now, k, v). mt_insert now k v m) ?m ws)) \<le> mt_bound ?m"
    using Cons.prems(3) by (intro Cons.IH) simp_all
  then show ?case by (simp add: w)
qed

theorem mt_size_bounded_witness:
  "length (cache (foldl (\<lambda>m (now, k, v). mt_insert now k v m) (mt_new 0)
     (map (\<lambda>n. (int n, le_bytes 8 n, [])) [0..<1000]))) \<le> 10"
proof -
  have i: "mt_inv (mt_new 0)" by simp
  have b: "mt_bound (mt_new 0) = 10" by (simp add: mt_bound_def mt_max_bytes_def mt_new_def)
  have l: "length (cache (mt_new 0)) \<le> mt_bound (mt_new 0)" by (simp add: mt_new_def)
  show ?thesis
    using mt_size_bounded [OF i l, of "map (\<lambda>n. (int n, le_bytes 8 n, [])) [0..<1000]"]
    by (simp add: b del: upt_rec_numeral)
qed

lemma mt_get_accounting:
  "fst (mt_get k m) = mt_lookup m k
   \<and> snd (mt_get k m) = (if turbo_mode m = 1 then m
        else if mt_lookup m k = None then m\<lparr>misses := misses m + 1\<rparr>
        else m\<lparr>hits := hits m + 1\<rparr>)"
  by (auto simp: mt_get_def mt_lookup_def split: option.split)

end
