(* ===== verification/Pager.thy ===== *)
theory Pager
  imports Prelude
begin

text \<open>
  The page manager of \<open>src/src/storage/pager.rs\<close>: 4096-byte pages of one file, each with a
  CRC32 of its last 4092 bytes in its first four, and a cached file length from which the
  number of pages is computed.

  The file is the byte sequence the operating system keeps. The device (io\_uring reads,
  writes, sync and open) and the CRC32 function are the record \<open>pager_env\<close>, an argument of
  the operations; \<open>posix\<close> states the documented behaviour of the device when it does not
  fail. The request loop of the pager thread serves one request at a time, so a request is
  one step (\<open>serve_read\<close>, \<open>serve_write\<close>, \<open>serve_sync\<close>, \<open>serve_reload\<close>). The thread reads
  the file length once, before its first request (\<open>pager_boot\<close>); until then \<open>num_pages\<close>
  sees the length 0 that \<open>Pager::open\<close> stored. A file that the thread cannot open, on which it
  panics, is not modelled.
\<close>

section \<open>State and environment\<close>

definition PAGE_SIZE :: nat where
  "PAGE_SIZE = 4096"

text \<open>
  \<open>read_at f off n\<close>: the bytes read or \<open>None\<close> (an I/O error). \<open>write_at f off data\<close>: the
  number of bytes written or \<open>None\<close>, and the file afterwards. \<open>open_path\<close>: the content of
  the file at a path, created empty when it is missing, or \<open>None\<close> when it cannot be opened.
\<close>

record pager_env =
  crc32 :: "bytes \<Rightarrow> u32"
  read_at :: "bytes \<Rightarrow> nat \<Rightarrow> nat \<Rightarrow> bytes option"
  write_at :: "bytes \<Rightarrow> nat \<Rightarrow> bytes \<Rightarrow> nat option \<times> bytes"
  sync_all :: "bytes \<Rightarrow> bool"
  open_path :: "string \<Rightarrow> bytes option"

record pager =
  disk :: bytes
  file_length :: u64
  booted :: bool

section \<open>The pager thread\<close>

definition pager_boot :: "pager \<Rightarrow> pager" where
  "pager_boot p =
     (if booted p then p else p\<lparr>file_length := of_nat (length (disk p)), booted := True\<rparr>)"

definition page_offset :: "u32 \<Rightarrow> u64" where
  "page_offset page_id = ucast page_id * of_nat PAGE_SIZE"

definition serve_read :: "pager_env \<Rightarrow> u32 \<Rightarrow> (pager, bytes) act" where
  "serve_read E page_id = seq (modify_st pager_boot) (\<lambda>_. seq (read_st disk) (\<lambda>f.
     (case read_at E f (unat (page_offset page_id)) PAGE_SIZE of
        Some buf \<Rightarrow>
          if length buf = PAGE_SIZE then ret buf
          else if length buf = 0 then ret (replicate PAGE_SIZE 0)
          else throw Short_read
      | None \<Rightarrow> throw Read_failed)))"

definition serve_write :: "pager_env \<Rightarrow> u32 \<Rightarrow> bytes \<Rightarrow> (pager, unit) act" where
  "serve_write E page_id data = seq (modify_st pager_boot) (\<lambda>_. seq (read_st disk) (\<lambda>f.
     (case write_at E f (unat (page_offset page_id)) data of
        (res, f') \<Rightarrow> seq (modify_st (disk_update (\<lambda>_. f'))) (\<lambda>_.
          (case res of Some _ \<Rightarrow> ret () | None \<Rightarrow> throw Write_failed)))))"

definition serve_sync :: "pager_env \<Rightarrow> (pager, unit) act" where
  "serve_sync E = seq (modify_st pager_boot) (\<lambda>_. seq (read_st disk) (\<lambda>f.
     if sync_all E f then ret () else throw Sync_failed))"

definition serve_reload :: "pager_env \<Rightarrow> string \<Rightarrow> (pager, unit) act" where
  "serve_reload E path = seq (modify_st pager_boot) (\<lambda>_.
     (case open_path E path of
        Some f \<Rightarrow> modify_st (\<lambda>p. p\<lparr>file_length := of_nat (length f), disk := f\<rparr>)
      | None \<Rightarrow> throw Open_failed))"

section \<open>The client side\<close>

definition pager_open :: "bytes \<Rightarrow> pager" where
  "pager_open f = \<lparr>disk = f, file_length = 0, booted = False\<rparr>"

definition checksum_ok :: "pager_env \<Rightarrow> bytes \<Rightarrow> bool" where
  "checksum_ok E page \<longleftrightarrow>
     (let stored = of_le32 (take 4 page) in stored = 0 \<or> crc32 E (drop 4 page) = stored)"

definition read_page :: "pager_env \<Rightarrow> u32 \<Rightarrow> (pager, bytes) act" where
  "read_page E page_id = seq (serve_read E page_id) (\<lambda>page.
     if checksum_ok E page then ret page else throw (Checksum_mismatch page_id))"

definition stamp :: "pager_env \<Rightarrow> bytes \<Rightarrow> bytes" where
  "stamp E page = le32 (crc32 E (drop 4 page)) @ drop 4 page"

definition write_page :: "pager_env \<Rightarrow> u32 \<Rightarrow> bytes \<Rightarrow> (pager, unit) act" where
  "write_page E page_id page_data = seq (serve_write E page_id (stamp E page_data)) (\<lambda>_.
     modify_st (\<lambda>p. let offset = page_offset page_id in
       if file_length p \<le> offset then p\<lparr>file_length := offset + of_nat PAGE_SIZE\<rparr> else p))"

definition num_pages :: "pager \<Rightarrow> u32" where
  "num_pages p = ucast (file_length p div of_nat PAGE_SIZE)"

definition pager_sync :: "pager_env \<Rightarrow> (pager, unit) act" where
  "pager_sync E = serve_sync E"

definition pager_reload :: "pager_env \<Rightarrow> string \<Rightarrow> (pager, unit) act" where
  "pager_reload E path = serve_reload E path"

section \<open>The device when it does not fail\<close>

definition posix_read :: "bytes \<Rightarrow> nat \<Rightarrow> nat \<Rightarrow> bytes" where
  "posix_read f off n = take n (drop off f)"

definition posix_write :: "bytes \<Rightarrow> nat \<Rightarrow> bytes \<Rightarrow> bytes" where
  "posix_write f off d =
     take off (f @ replicate (off - length f) 0) @ d @ drop (off + length d) f"

definition posix :: "pager_env \<Rightarrow> bool" where
  "posix E \<longleftrightarrow> (\<forall>f off n. read_at E f off n = Some (posix_read f off n))
     \<and> (\<forall>f off d. write_at E f off d = (Some (length d), posix_write f off d))
     \<and> (\<forall>f. sync_all E f)"

section \<open>Pages of a file\<close>

text \<open>The page the thread returns for a read, for a file of whole pages.\<close>

definition page_of :: "bytes \<Rightarrow> u32 \<Rightarrow> bytes" where
  "page_of f page_id =
     (let buf = posix_read f (unat page_id * PAGE_SIZE) PAGE_SIZE
      in if buf = [] then replicate PAGE_SIZE 0 else buf)"

lemma unat_page_offset [simp]: "unat (page_offset page_id) = unat page_id * 4096"
proof -
  have "unat page_id < 2 ^ 32" using unsigned_less [of page_id] by simp
  then show ?thesis
    by (simp add: page_offset_def PAGE_SIZE_def unat_word_ariths unsigned_ucast_eq take_bit_nat_eq_self)
qed

definition pager_inv :: "pager \<Rightarrow> bool" where
  "pager_inv p \<longleftrightarrow> booted p \<and> unat (file_length p) = length (disk p)
     \<and> PAGE_SIZE dvd length (disk p) \<and> length (disk p) \<le> PAGE_SIZE * 2 ^ 32"

lemma boot_booted [simp]: "booted p \<Longrightarrow> pager_boot p = p"
  by (simp add: pager_boot_def)

lemma length_page_of:
  assumes "PAGE_SIZE dvd length f"
  shows "length (page_of f i) = PAGE_SIZE"
proof -
  obtain k where k: "length f = 4096 * k" using assms by (auto simp: PAGE_SIZE_def elim: dvdE)
  show ?thesis
    by (cases "unat i < k") (auto simp: page_of_def posix_read_def PAGE_SIZE_def k Let_def)
qed

lemma serve_read_posix:
  assumes "posix E" and "pager_inv p"
  shows "serve_read E i p = Some (Inr (page_of (disk p) i), p)"
proof -
  obtain k where k: "length (disk p) = 4096 * k"
    using assms(2) by (auto simp: pager_inv_def PAGE_SIZE_def elim: dvdE)
  show ?thesis
    using assms
    by (cases "unat i < k")
      (auto simp: serve_read_def run pager_inv_def posix_def posix_read_def page_of_def
        PAGE_SIZE_def k Let_def)
qed

lemma read_page_posix:
  assumes "posix E" and "pager_inv p"
  shows "read_page E i p =
    Some (if checksum_ok E (page_of (disk p) i) then Inr (page_of (disk p) i)
          else Inl (Checksum_mismatch i), p)"
  using serve_read_posix [OF assms, of i] by (simp add: read_page_def run)

section \<open>Writes\<close>

lemma length_posix_write:
  "length (posix_write f off d) = max (length f) (off + length d)"
  by (auto simp: posix_write_def)

lemma page_of_write:
  assumes "PAGE_SIZE dvd length f" and "length d = PAGE_SIZE"
  shows "page_of (posix_write f (unat i * PAGE_SIZE) d) j = (if j = i then d else page_of f j)"
proof -
  obtain k where k: "length f = 4096 * k" using assms(1) by (auto simp: PAGE_SIZE_def elim: dvdE)
  consider "j = i" | "unat j < unat i" | "unat i < unat j"
    using word_unat_eq_iff [of j i] by linarith
  then show ?thesis
  proof cases
    case 1
    then show ?thesis
      using assms(2) by (auto simp: page_of_def posix_read_def posix_write_def PAGE_SIZE_def)
  next
    case 2
    then have "unat j * 4096 + 4096 \<le> unat i * 4096" by linarith
    with 2 show ?thesis
      by (cases "unat j < k")
        (auto simp: page_of_def posix_read_def posix_write_def PAGE_SIZE_def k Let_def
          drop_take min_def)
  next
    case 3
    then have "unat i * 4096 + 4096 \<le> unat j * 4096" by linarith
    with 3 assms(2) show ?thesis
      by (auto simp: page_of_def posix_read_def posix_write_def PAGE_SIZE_def k min_def)
  qed
qed

lemma length_stamp [simp]: "length page = PAGE_SIZE \<Longrightarrow> length (stamp E page) = PAGE_SIZE"
  by (simp add: stamp_def PAGE_SIZE_def)

lemma drop_stamp [simp]: "drop 4 (stamp E page) = drop 4 page"
  by (simp add: stamp_def)

lemma checksum_stamp [simp]: "checksum_ok E (stamp E page)"
  by (simp add: checksum_ok_def stamp_def)

definition written :: "pager_env \<Rightarrow> u32 \<Rightarrow> bytes \<Rightarrow> pager \<Rightarrow> pager" where
  "written E i data p =
     p\<lparr>disk := posix_write (disk p) (unat i * PAGE_SIZE) (stamp E data),
       file_length := (if file_length p \<le> page_offset i then page_offset i + of_nat PAGE_SIZE
                       else file_length p)\<rparr>"

lemma write_page_posix:
  assumes "posix E" and "pager_inv p" and "length data = PAGE_SIZE"
  shows "write_page E i data p = Some (Inr (), written E i data p)"
  using assms
  by (simp add: write_page_def serve_write_def run pager_inv_def posix_def written_def Let_def
      PAGE_SIZE_def)

lemma unat_page_end [simp]: "unat (page_offset i + 4096) = unat i * 4096 + 4096"
proof -
  have "unat i < 2 ^ 32" using unsigned_less [of i] by simp
  then show ?thesis by (simp add: unat_word_ariths)
qed

lemma length_written:
  assumes "pager_inv p" and "length data = PAGE_SIZE"
  shows "length (disk (written E i data p)) = max (length (disk p)) (unat i * PAGE_SIZE + PAGE_SIZE)"
  using assms by (simp add: written_def length_posix_write)

lemma pager_inv_written [intro]:
  assumes "pager_inv p" and "length data = PAGE_SIZE"
  shows "pager_inv (written E i data p)"
proof -
  obtain k where k: "length (disk p) = 4096 * k" and le: "k \<le> 2 ^ 32"
    using assms(1) by (auto simp: pager_inv_def PAGE_SIZE_def elim: dvdE)
  have i: "unat i < 2 ^ 32" using unsigned_less [of i] by simp
  have l: "length (disk (written E i data p)) = 4096 * max k (unat i + 1)"
    using length_written [OF assms] by (simp add: k PAGE_SIZE_def max_def)
  have "unat (file_length (written E i data p)) = 4096 * max k (unat i + 1)"
    using assms(1) by (auto simp: written_def pager_inv_def PAGE_SIZE_def k word_le_nat_alt)
  with assms(1) l le i show ?thesis
    by (auto simp: pager_inv_def PAGE_SIZE_def) (simp add: written_def)
qed

lemma page_of_written:
  assumes "pager_inv p" and "length data = PAGE_SIZE"
  shows "page_of (disk (written E i data p)) j =
    (if j = i then stamp E data else page_of (disk p) j)"
  using assms by (simp add: written_def page_of_write pager_inv_def)

text \<open>\<open>num_pages\<close> counts the pages of the file, up to the \<open>u32\<close> truncation.\<close>

definition page_count :: "pager \<Rightarrow> nat" where
  "page_count p = length (disk p) div PAGE_SIZE"

lemma num_pages_count:
  assumes "pager_inv p"
  shows "num_pages p = of_nat (page_count p)"
proof -
  have "num_pages p = of_nat (unat (file_length p div 4096))"
    by (simp add: num_pages_def PAGE_SIZE_def)
  with assms show ?thesis
    by (simp add: page_count_def pager_inv_def PAGE_SIZE_def unat_div)
qed

lemma page_count_written:
  assumes "pager_inv p" and "length data = PAGE_SIZE"
  shows "page_count (written E i data p) = max (page_count p) (Suc (unat i))"
proof -
  obtain k where k: "length (disk p) = 4096 * k"
    using assms(1) by (auto simp: pager_inv_def PAGE_SIZE_def elim: dvdE)
  show ?thesis
    using length_written [OF assms] by (simp add: page_count_def PAGE_SIZE_def k max_def)
qed

section \<open>The contract of a page store\<close>

text \<open>
  What the B+tree relies on: a write of a fitting page succeeds, changes that page only, and
  leaves the store usable. \<open>seal\<close> is what the store does to a page it keeps (the checksum).
\<close>

locale page_store =
  fixes inv :: "'s \<Rightarrow> bool"
    and load :: "'s \<Rightarrow> 'p \<Rightarrow> 'd"
    and wr :: "'p \<Rightarrow> 'd \<Rightarrow> ('s, unit) act"
    and fits :: "'d \<Rightarrow> bool"
    and seal :: "'d \<Rightarrow> 'd"
  assumes wr_ok: "inv s \<Longrightarrow> fits d \<Longrightarrow>
    \<exists>s'. wr p d s = Some (Inr (), s') \<and> inv s' \<and> load s' = (load s)(p := seal d)"
begin

lemma wr_okE:
  assumes "inv s" and "fits d"
  obtains s' where "wr p d s = Some (Inr (), s')" and "inv s'" and "load s' = (load s)(p := seal d)"
  using wr_ok [OF assms] by blast

lemma writes_ok:
  assumes "inv s" and "\<forall>(p, d) \<in> set ws. fits d"
  shows "\<exists>s'. for_each ws (\<lambda>(p, d). wr p d) s = Some (Inr (), s') \<and> inv s'
    \<and> (\<forall>q. load s' q = (case map_of (rev ws) q of Some d \<Rightarrow> seal d | None \<Rightarrow> load s q))"
  using assms
proof (induction ws arbitrary: s)
  case Nil
  then show ?case by simp
next
  case (Cons w ws)
  obtain p d where w: "w = (p, d)" by (cases w)
  with Cons.prems have "fits d" by simp
  with Cons.prems(1) obtain t where t: "wr p d s = Some (Inr (), t)" "inv t"
    "load t = (load s)(p := seal d)" by (rule wr_okE)
  with Cons.IH [of t] Cons.prems(2) obtain s' where
    s': "for_each ws (\<lambda>(p, d). wr p d) t = Some (Inr (), s')" "inv s'"
    "\<And>q. load s' q = (case map_of (rev ws) q of Some d \<Rightarrow> seal d | None \<Rightarrow> load t q)"
    by auto
  have "load s' q = (case map_of (rev (w # ws)) q of Some d \<Rightarrow> seal d | None \<Rightarrow> load s q)" for q
    using s'(3) [of q] t(3) by (simp add: w map_add_def split: option.split)
  with t s' show ?case by (simp add: w seq_Inr)
qed

end

interpretation pg: page_store "\<lambda>p. posix E \<and> pager_inv p" "\<lambda>p i. page_of (disk p) i"
    "write_page E" "\<lambda>d. length d = PAGE_SIZE" "stamp E" for E
proof
  fix p :: pager and d :: bytes and i :: u32
  assume "posix E \<and> pager_inv p" and "length d = PAGE_SIZE"
  then show "\<exists>p'. write_page E i d p = Some (Inr (), p') \<and> (posix E \<and> pager_inv p')
      \<and> page_of (disk p') = (page_of (disk p))(i := stamp E d)"
    by (intro exI [of _ "written E i d p"]) (auto simp: write_page_posix page_of_written)
qed

section \<open>Properties of the pager\<close>

text \<open>A concrete device, for the witnesses: a file that never fails, a sum for the CRC.\<close>

definition sample_env :: pager_env where
  "sample_env = \<lparr>crc32 = (\<lambda>bs. sum_list (map ucast bs)),
     read_at = (\<lambda>f off n. Some (posix_read f off n)),
     write_at = (\<lambda>f off d. (Some (length d), posix_write f off d)),
     sync_all = (\<lambda>_. True), open_path = (\<lambda>_. Some [])\<rparr>"

lemma posix_sample [simp]: "posix sample_env"
  by (simp add: posix_def sample_env_def)

definition empty_pager :: pager where
  "empty_pager = pager_boot (pager_open [])"

lemma empty_pager_inv [simp]: "pager_inv empty_pager"
  by (simp add: empty_pager_def pager_boot_def pager_open_def pager_inv_def)

text \<open>
  C29 (pager, read after write): on a device that does not fail and a file of whole pages,
  any sequence of page writes succeeds; afterwards every page that was written reads back as
  the last data written to it with its checksum in front, and every other page, past the end
  of the file included, reads exactly as it did before, checksum errors included.
\<close>

theorem pager_read_after_writes:
  assumes "posix E" and "pager_inv p" and "\<forall>(i, d) \<in> set ws. length d = PAGE_SIZE"
  shows "\<exists>p'. for_each ws (\<lambda>(i, d). write_page E i d) p = Some (Inr (), p') \<and> pager_inv p'
    \<and> (\<forall>j. map_option fst (read_page E j p') =
        (case map_of (rev ws) j of
           Some d \<Rightarrow> Some (Inr (stamp E d))
         | None \<Rightarrow> map_option fst (read_page E j p)))"
proof -
  obtain p' where "for_each ws (\<lambda>(i, d). write_page E i d) p = Some (Inr (), p')"
    and "pager_inv p'"
    and "\<And>j. page_of (disk p') j =
      (case map_of (rev ws) j of Some d \<Rightarrow> stamp E d | None \<Rightarrow> page_of (disk p) j)"
    using pg.writes_ok [of E p ws] assms by auto
  with assms show ?thesis
    by (intro exI [of _ p']) (simp add: read_page_posix split: option.split)
qed

theorem pager_read_after_writes_witness:
  "\<exists>p'. for_each [(2, replicate PAGE_SIZE 1), (2, replicate PAGE_SIZE 7)]
      (\<lambda>(i, d). write_page sample_env i d) empty_pager = Some (Inr (), p')
    \<and> map_option fst (read_page sample_env 2 p') =
        Some (Inr (stamp sample_env (replicate PAGE_SIZE 7)))"
proof -
  let ?ws = "[(2::u32, replicate PAGE_SIZE (1::byte)), (2, replicate PAGE_SIZE 7)]"
  have "map_of (rev ?ws) 2 = Some (replicate PAGE_SIZE 7)" by simp
  moreover have "\<forall>(i, d) \<in> set ?ws. length d = PAGE_SIZE" by simp
  ultimately show ?thesis
    using pager_read_after_writes [OF posix_sample empty_pager_inv, of ?ws]
    by (metis (no_types, lifting) option.case(2))
qed

text \<open>
  Corruption: after a page with a non-zero CRC was written, let anything happen
  to the file as long as it keeps whole pages and the four checksum bytes of that page. If
  the CRC of the page's other bytes now differs, reading the page is the error
  "checksum mismatch", never wrong data.
\<close>

theorem pager_detects_corruption:
  assumes "posix E" and "pager_inv p" and "length data = PAGE_SIZE"
    and "write_page E i data p = Some (Inr (), p')"
    and "crc32 E (drop 4 data) \<noteq> 0"
    and "pager_inv (p'\<lparr>disk := f\<rparr>)"
    and "take 4 (page_of f i) = take 4 (page_of (disk p') i)"
    and "crc32 E (drop 4 (page_of f i)) \<noteq> crc32 E (drop 4 data)"
  shows "map_option fst (read_page E i (p'\<lparr>disk := f\<rparr>)) = Some (Inl (Checksum_mismatch i))"
proof -
  have "p' = written E i data p"
    using assms(4) write_page_posix [OF assms(1-3), of i] by simp
  then have "take 4 (page_of f i) = le32 (crc32 E (drop 4 data))"
    using assms(2,3,7) by (simp add: page_of_written stamp_def)
  then have "\<not> checksum_ok E (page_of f i)"
    unfolding checksum_ok_def using assms(5,8) by (metis of_le32_le32)
  with read_page_posix [OF assms(1,6), of i] show ?thesis by simp
qed

theorem pager_detects_corruption_witness:
  "\<exists>p' f. write_page sample_env 0 (replicate PAGE_SIZE 1) empty_pager = Some (Inr (), p')
    \<and> map_option fst (read_page sample_env 0 (p'\<lparr>disk := f\<rparr>)) = Some (Inl (Checksum_mismatch 0))"
proof -
  let ?d = "replicate PAGE_SIZE (1::byte)"
  let ?p = "written sample_env 0 ?d empty_pager"
  let ?f = "take 4 (page_of (disk ?p) 0) @ replicate 4092 (2::byte)"
  have crc: "crc32 sample_env (replicate n b) = of_nat n * ucast b" for n b
    by (simp add: sample_env_def sum_list_replicate)
  have w: "write_page sample_env 0 ?d empty_pager = Some (Inr (), ?p)"
    by (rule write_page_posix) simp_all
  have l: "length (page_of (disk ?p) 0) = 4096"
    by (simp add: page_of_written PAGE_SIZE_def stamp_def)
  have lf: "length ?f = 4096" by (simp add: l)
  then have pf: "page_of ?f 0 = ?f" by (simp add: page_of_def posix_read_def PAGE_SIZE_def)
  have "pager_inv ?p" by (rule pager_inv_written) simp_all
  moreover have "length (disk ?p) = 4096"
    by (subst length_written [OF empty_pager_inv])
      (simp_all add: PAGE_SIZE_def empty_pager_def pager_boot_def pager_open_def)
  ultimately have inv: "pager_inv (?p\<lparr>disk := ?f\<rparr>)"
    using lf by (simp add: pager_inv_def del: length_append)
  have same: "take 4 (page_of ?f 0) = take 4 (page_of (disk ?p) 0)"
    unfolding pf by (simp add: l)
  have d1: "drop 4 ?d = replicate 4092 1" by (simp add: PAGE_SIZE_def)
  have d2: "drop 4 (page_of ?f 0) = replicate 4092 2" unfolding pf by (simp add: l)
  from pager_detects_corruption [OF posix_sample empty_pager_inv _ w _ inv same]
  have "map_option fst (read_page sample_env 0 (?p\<lparr>disk := ?f\<rparr>)) = Some (Inl (Checksum_mismatch 0))"
    unfolding d1 d2 crc by simp
  with w show ?thesis by blast
qed

end
