(* ===== verification/Codec.thy ===== *)
theory Codec
  imports Prelude
begin

text \<open>
  Byte encodings used to instantiate the serialization parameters. The program calls the
  bincode crate, which is a parameter of the model; these combinators follow its documented
  default layout (fixed-width little-endian integers, a 64-bit length before every sequence,
  one byte before an option), so that the witnesses run on a codec of the real shape.
  \<open>codec\<close> is the contract: a reader gets back what was written and the bytes after it.
\<close>

locale codec =
  fixes ok :: "'a \<Rightarrow> bool"
    and put :: "'a \<Rightarrow> bytes"
    and get :: "bytes \<Rightarrow> ('a \<times> bytes) option"
  assumes get_put: "ok x \<Longrightarrow> get (put x @ rest) = Some (x, rest)"

section \<open>Integers\<close>

definition get_nat :: "nat \<Rightarrow> bytes \<Rightarrow> (nat \<times> bytes) option" where
  "get_nat k bs = (if k \<le> length bs then Some (of_le (take k bs), drop k bs) else None)"

interpretation nat_codec: codec "\<lambda>n. n < 256 ^ k" "le_bytes k" "get_nat k" for k
  by unfold_locales (simp add: get_nat_def)

text \<open>\<open>i64\<close> in two's complement.\<close>

definition put_i64 :: "int \<Rightarrow> bytes" where
  "put_i64 i = le_bytes 8 (nat (i mod 2 ^ 64))"

definition get_i64 :: "bytes \<Rightarrow> (int \<times> bytes) option" where
  "get_i64 bs = map_option (\<lambda>(n, r). (if n < 2 ^ 63 then int n else int n - 2 ^ 64, r)) (get_nat 8 bs)"

definition i64_ok :: "int \<Rightarrow> bool" where
  "i64_ok i \<longleftrightarrow> - (2 ^ 63) \<le> i \<and> i < 2 ^ 63"

interpretation i64_codec: codec i64_ok put_i64 get_i64
proof
  fix i :: int and rest
  assume ok: "i64_ok i"
  let ?n = "nat (i mod 2 ^ 64)"
  have "?n < 256 ^ 8" by (simp add: nat_less_iff)
  then have "get_nat 8 (put_i64 i @ rest) = Some (?n, rest)"
    unfolding put_i64_def by (rule nat_codec.get_put)
  moreover have "i mod 2 ^ 64 = (if 0 \<le> i then i else i + 2 ^ 64)"
  proof (cases "0 \<le> i")
    case True
    with ok show ?thesis by (simp add: i64_ok_def)
  next
    case False
    have "(i + 2 ^ 64) mod 2 ^ 64 = i + 2 ^ 64"
      using False ok by (intro mod_pos_pos_trivial) (auto simp: i64_ok_def)
    with False show ?thesis by simp
  qed
  ultimately show "get_i64 (put_i64 i @ rest) = Some (i, rest)"
    using ok by (auto simp: get_i64_def i64_ok_def nat_less_iff)
qed

section \<open>Sequences\<close>

definition put_vec :: "bytes \<Rightarrow> bytes" where
  "put_vec bs = le_bytes 8 (length bs) @ bs"

definition get_vec :: "bytes \<Rightarrow> (bytes \<times> bytes) option" where
  "get_vec bs = Option.bind (get_nat 8 bs) (\<lambda>(n, r).
     if n \<le> length r then Some (take n r, drop n r) else None)"

definition vec_ok :: "'a list \<Rightarrow> bool" where
  "vec_ok xs \<longleftrightarrow> length xs < 2 ^ 64"

lemma get_nat_length [simp]:
  "vec_ok xs \<Longrightarrow> get_nat 8 (le_bytes 8 (length xs) @ r) = Some (length xs, r)"
  by (rule nat_codec.get_put) (simp add: vec_ok_def)

interpretation vec_codec: codec vec_ok put_vec get_vec
  by unfold_locales (simp add: put_vec_def get_vec_def)

fun get_many :: "(bytes \<Rightarrow> ('a \<times> bytes) option) \<Rightarrow> nat \<Rightarrow> bytes \<Rightarrow> ('a list \<times> bytes) option" where
  "get_many g 0 bs = Some ([], bs)"
| "get_many g (Suc n) bs = Option.bind (g bs) (\<lambda>(x, r).
     map_option (\<lambda>(xs, r). (x # xs, r)) (get_many g n r))"

definition put_list :: "('a \<Rightarrow> bytes) \<Rightarrow> 'a list \<Rightarrow> bytes" where
  "put_list p xs = le_bytes 8 (length xs) @ concat (map p xs)"

definition get_list :: "(bytes \<Rightarrow> ('a \<times> bytes) option) \<Rightarrow> bytes \<Rightarrow> ('a list \<times> bytes) option" where
  "get_list g bs = Option.bind (get_nat 8 bs) (\<lambda>(n, r). get_many g n r)"

context codec
begin

lemma get_many_put:
  "(\<forall>x \<in> set xs. ok x) \<Longrightarrow> get_many get (length xs) (concat (map put xs) @ rest) = Some (xs, rest)"
  by (induction xs) (simp_all add: get_put)

lemma get_list_put:
  "vec_ok xs \<and> (\<forall>x \<in> set xs. ok x) \<Longrightarrow> get_list get (put_list put xs @ rest) = Some (xs, rest)"
  by (simp add: get_list_def put_list_def get_many_put)

end

section \<open>Options of page numbers, and words\<close>

definition put_word :: "nat \<Rightarrow> 'a::len word \<Rightarrow> bytes" where
  "put_word k w = le_bytes k (unat w)"

definition get_word :: "nat \<Rightarrow> bytes \<Rightarrow> ('a::len word \<times> bytes) option" where
  "get_word k bs = map_option (\<lambda>(n, r). (of_nat n, r)) (get_nat k bs)"

lemma get_word_put:
  assumes "2 ^ LENGTH('a) \<le> (256 :: nat) ^ k"
  shows "get_word k (put_word k (w :: 'a::len word) @ rest) = Some (w, rest)"
proof -
  have "unat w < 256 ^ k" using unsigned_less [of w, where ?'a = nat] assms by linarith
  then show ?thesis by (simp add: get_word_def put_word_def nat_codec.get_put)
qed

interpretation u32_codec: codec "\<lambda>w :: u32. True" "put_word 4" "get_word 4"
  by unfold_locales (simp add: get_word_put)

interpretation u64_codec: codec "\<lambda>w :: u64. True" "put_word 8" "get_word 8"
  by unfold_locales (simp add: get_word_put)

definition put_opt :: "u32 option \<Rightarrow> bytes" where
  "put_opt x = (case x of None \<Rightarrow> [0] | Some w \<Rightarrow> 1 # put_word 4 w)"

definition get_opt :: "bytes \<Rightarrow> (u32 option \<times> bytes) option" where
  "get_opt bs = (case bs of
       b # r \<Rightarrow> if b = 0 then Some (None, r)
                else if b = 1 then map_option (\<lambda>(w, r). (Some w, r)) (get_word 4 r) else None
     | [] \<Rightarrow> None)"

interpretation opt_codec: codec "\<lambda>x. True" put_opt get_opt
  by unfold_locales (simp add: put_opt_def get_opt_def u32_codec.get_put split: option.split)

end
