(* ===== verification/Wal.thy ===== *)
theory Wal
  imports Codec "HOL-Library.Sublist"
begin

text \<open>
  The write-ahead log of \<open>src/src/storage/wal.rs\<close>: a bounded lock-free queue of entries, the
  flush that frames queued entries into a batch and hands it to the writer thread, the
  writer that pads each batch to whole 4096-byte blocks and appends it to the file, and the
  recovery loop that parses the file when the database is opened.

  Bincode, the device and what other threads do to the queue while \<open>enqueue\<close> sleeps are the
  record \<open>wal_env\<close>. The queue is the list of its entries, oldest first; the channel to the
  writer thread is the list of the batches not yet written. The channel of the code has 1024
  places and a flush waits for one; the list has no bound, so the model's flush does not wait.
\<close>

section \<open>State and environment\<close>

datatype wal_entry =
    PageUpdate u32 bytes
  | RecordUpdate bytes bytes
  | TransactionStart u64
  | TransactionCommit u64 u64 int
  | TransactionRollback u64

text \<open>
  \<open>ser_entry\<close>, \<open>de_entry\<close>: bincode on entries, \<open>None\<close> for its errors. \<open>wal_write f off
  data\<close>: the number of bytes written or \<open>None\<close>, and the file afterwards. \<open>backoff n q\<close>: the
  queue after the sleep of retry \<open>n\<close>.
\<close>

record wal_env =
  ser_entry :: "wal_entry \<Rightarrow> bytes option"
  de_entry :: "bytes \<Rightarrow> wal_entry option"
  wal_write :: "bytes \<Rightarrow> nat \<Rightarrow> bytes \<Rightarrow> nat option \<times> bytes"
  backoff :: "nat \<Rightarrow> wal_entry list \<Rightarrow> wal_entry list"

record wal =
  queue :: "wal_entry list"
  requests :: "bytes list"
  buffer_a :: bytes
  buffer_b :: bytes
  active_is_a :: bool
  batch_limit :: nat
  recovered_entries :: "wal_entry list"
  wal_file :: bytes
  wal_offset :: nat

definition QUEUE_CAP :: nat where
  "QUEUE_CAP = 1000000"

section \<open>Recovery\<close>

function wal_scan :: "wal_env \<Rightarrow> bytes \<Rightarrow> nat \<Rightarrow> wal_entry list" where
  "wal_scan E buffer cursor =
     (if cursor + 4 \<le> length buffer
      then let len = unat (of_le32 (take 4 (drop cursor buffer)))
           in if len = 0 then wal_scan E buffer ((cursor div 4096 + 1) * 4096)
              else if cursor + 4 + len \<le> length buffer
              then (case de_entry E (take len (drop (cursor + 4) buffer)) of
                      Some entry \<Rightarrow> entry # wal_scan E buffer (cursor + 4 + len)
                    | None \<Rightarrow> wal_scan E buffer (cursor + 4 + len))
              else []
      else [])"
  by pat_completeness auto
termination
proof (relation "measure (\<lambda>(E, buffer, cursor). length buffer - cursor)")
  fix buffer :: bytes and cursor :: nat
  have "cursor < (cursor div 4096 + 1) * 4096"
    using dividend_less_div_times [of 4096 cursor] by simp
  then show "cursor + 4 \<le> length buffer \<Longrightarrow>
    ((E, buffer, (cursor div 4096 + 1) * 4096), E, buffer, cursor)
      \<in> measure (\<lambda>(E, buffer, cursor). length buffer - cursor)" for E :: wal_env
    by simp
qed auto

declare wal_scan.simps [simp del]

definition wal_recover :: "wal_env \<Rightarrow> bytes \<Rightarrow> wal_entry list" where
  "wal_recover E buffer = wal_scan E buffer 0"

text \<open>
  \<open>Wal::open\<close>: \<open>None\<close> is a log that does not exist. A log that exists and cannot be opened is not
  modelled: it is recovered as empty, and the writer thread panics on it.
\<close>

definition wal_open :: "wal_env \<Rightarrow> bytes option \<Rightarrow> wal" where
  "wal_open E content =
     \<lparr>queue = [], requests = [], buffer_a = [], buffer_b = [], active_is_a = True,
      batch_limit = 32 * 1024 * 1024,
      recovered_entries = (case content of Some buffer \<Rightarrow> wal_recover E buffer | None \<Rightarrow> []),
      wal_file = (case content of Some buffer \<Rightarrow> buffer | None \<Rightarrow> []),
      wal_offset = (case content of Some buffer \<Rightarrow> length buffer | None \<Rightarrow> 0)\<rparr>"

definition wal_read_all :: "wal \<Rightarrow> wal_entry list \<times> wal" where
  "wal_read_all w = (recovered_entries w, w\<lparr>recovered_entries := []\<rparr>)"

section \<open>The queue\<close>

definition set_batch_limit :: "nat \<Rightarrow> wal \<Rightarrow> wal" where
  "set_batch_limit limit_bytes w = w\<lparr>batch_limit := limit_bytes\<rparr>"

definition q_push :: "wal_entry \<Rightarrow> wal \<Rightarrow> wal option" where
  "q_push entry w =
     (if length (queue w) < QUEUE_CAP then Some (w\<lparr>queue := queue w @ [entry]\<rparr>) else None)"

definition pop_entry :: "wal \<Rightarrow> wal_entry option \<times> wal" where
  "pop_entry w = (case queue w of [] \<Rightarrow> (None, w) | e # q \<Rightarrow> (Some e, w\<lparr>queue := q\<rparr>))"

function enqueue_from :: "wal_env \<Rightarrow> wal_entry \<Rightarrow> nat \<Rightarrow> (wal, unit) act" where
  "enqueue_from E entry retries w =
     (case q_push entry w of
        Some w' \<Rightarrow> Some (Inr (), w')
      | None \<Rightarrow>
          if 1000 < retries then Some (Inl Wal_saturated, w)
          else enqueue_from E entry (retries + 1) (w\<lparr>queue := backoff E retries (queue w)\<rparr>))"
  by pat_completeness auto
termination
  by (relation "measure (\<lambda>(E, entry, retries, w). 1001 - retries)") auto

declare enqueue_from.simps [simp del]

definition wal_enqueue :: "wal_env \<Rightarrow> wal_entry \<Rightarrow> (wal, unit) act" where
  "wal_enqueue E entry = enqueue_from E entry 0"

section \<open>Flush\<close>

definition frame :: "wal_env \<Rightarrow> wal_entry \<Rightarrow> bytes" where
  "frame E entry = (case ser_entry E entry of
      Some encoded \<Rightarrow> le32 (of_nat (length encoded)) @ encoded | None \<Rightarrow> [])"

fun fill_buffer :: "wal_env \<Rightarrow> nat \<Rightarrow> bytes \<Rightarrow> wal_entry list \<Rightarrow> bytes \<times> wal_entry list" where
  "fill_buffer E limit active [] = (active, [])"
| "fill_buffer E limit active (entry # q) =
     (let active = active @ frame E entry
      in if limit \<le> length active then (active, q) else fill_buffer E limit active q)"

definition active_buffer :: "wal \<Rightarrow> bytes" where
  "active_buffer w = (if active_is_a w then buffer_a w else buffer_b w)"

definition set_active :: "bytes \<Rightarrow> wal \<Rightarrow> wal" where
  "set_active b w = (if active_is_a w then w\<lparr>buffer_a := b\<rparr> else w\<lparr>buffer_b := b\<rparr>)"

definition flush_pipeline :: "wal_env \<Rightarrow> (wal, unit) act" where
  "flush_pipeline E w =
     (let q_len = length (queue w)
      in if q_len = 0 then Some (Inr (), w)
         else let limit = batch_limit w;
                  adaptive_limit = (if 1000000 < q_len then limit * 4 else limit);
                  (active, q) = fill_buffer E adaptive_limit (active_buffer w) (queue w);
                  w = (set_active active w)\<lparr>queue := q\<rparr>
              in if active = [] then Some (Inr (), w)
                 else Some (Inr (), (set_active [] w)
                        \<lparr>active_is_a := \<not> active_is_a w, requests := requests w @ [active]\<rparr>))"

section \<open>The writer thread\<close>

definition padded_size :: "nat \<Rightarrow> nat" where
  "padded_size sz = (sz + 4095) div 4096 * 4096"

definition pad :: "bytes \<Rightarrow> bytes" where
  "pad batch = batch @ replicate (padded_size (length batch) - length batch) 0"

definition wal_writer_step :: "wal_env \<Rightarrow> wal \<Rightarrow> wal" where
  "wal_writer_step E w =
     (case requests w of
        [] \<Rightarrow> w
      | batch # rs \<Rightarrow>
          (case wal_write E (wal_file w) (wal_offset w) (pad batch) of
             (res, f) \<Rightarrow> w\<lparr>requests := rs, wal_file := f,
                wal_offset := (case res of Some n \<Rightarrow> wal_offset w + n | None \<Rightarrow> wal_offset w)\<rparr>))"

section \<open>The environment when it does not fail\<close>

text \<open>
  Bincode encodes every entry into at least one byte and decodes an encoding to the entry;
  a write to a file opened for appending adds the data at its end.
\<close>

definition wal_codec :: "wal_env \<Rightarrow> bool" where
  "wal_codec E \<longleftrightarrow> (\<forall>e b. ser_entry E e = Some b \<longrightarrow> b \<noteq> [] \<and> de_entry E b = Some e)"

definition wal_append :: "wal_env \<Rightarrow> bool" where
  "wal_append E \<longleftrightarrow> (\<forall>f off d. wal_write E f off d = (Some (length d), f @ d))"

text \<open>An entry the log can hold: its encoding exists and its length fits the frame.\<close>

definition loggable :: "wal_env \<Rightarrow> wal_entry \<Rightarrow> bool" where
  "loggable E e \<longleftrightarrow> (case ser_entry E e of Some b \<Rightarrow> length b < 2 ^ 32 | None \<Rightarrow> False)"

definition batch_bytes :: "wal_env \<Rightarrow> wal_entry list \<Rightarrow> bytes" where
  "batch_bytes E es = concat (map (frame E) es)"

text \<open>The padding after a batch is empty or has room for the zero length that ends it.\<close>

definition gap_ok :: "bytes \<Rightarrow> bool" where
  "gap_ok batch \<longleftrightarrow> length batch mod 4096 \<le> 4092"

definition log_of :: "wal_env \<Rightarrow> wal_entry list list \<Rightarrow> bytes" where
  "log_of E bs = concat (map (\<lambda>es. pad (batch_bytes E es)) bs)"

section \<open>Scanning what was framed\<close>

lemma scan_frame:
  assumes "wal_codec E" and "loggable E e" and "drop c buf = frame E e @ rest"
  shows "wal_scan E buf c = e # wal_scan E buf (c + length (frame E e))"
proof -
  obtain b where b: "ser_entry E e = Some b" "length b < 2 ^ 32"
    using assms(2) by (auto simp: loggable_def split: option.splits)
  with assms(1) have ne: "b \<noteq> []" and de: "de_entry E b = Some e"
    by (auto simp: wal_codec_def)
  have f: "frame E e = le32 (of_nat (length b)) @ b" by (simp add: frame_def b)
  have len: "unat (of_nat (length b) :: u32) = length b"
    using b(2) by (simp add: unsigned_of_nat take_bit_nat_eq_self)
  have d4: "drop (c + 4) buf = b @ rest"
    using assms(3) f by (metis add.commute append_assoc append_eq_conv_conj drop_drop length_le32)
  have "length buf - c = 4 + length b + length rest"
    using arg_cong [OF assms(3), of length] by (simp add: f)
  moreover have "c \<le> length buf"
    using calculation ne by (cases b) auto
  ultimately have l: "length buf = c + 4 + length b + length rest" by linarith
  show ?thesis
    by (subst wal_scan.simps) (simp add: assms(3) f len l d4 de ne add.assoc)
qed

lemma scan_frames:
  assumes "wal_codec E" and "\<forall>e \<in> set es. loggable E e"
    and "drop c buf = batch_bytes E es @ rest"
  shows "wal_scan E buf c = es @ wal_scan E buf (c + length (batch_bytes E es))"
  using assms(2,3)
proof (induction es arbitrary: c)
  case Nil
  then show ?case by (simp add: batch_bytes_def)
next
  case (Cons e es)
  have "drop c buf = frame E e @ batch_bytes E es @ rest"
    using Cons.prems(2) by (simp add: batch_bytes_def)
  moreover from this have "drop (c + length (frame E e)) buf = batch_bytes E es @ rest"
    by (metis add.commute append_eq_conv_conj drop_drop)
  moreover have "batch_bytes E (e # es) = frame E e @ batch_bytes E es"
    by (simp add: batch_bytes_def)
  ultimately show ?case
    using scan_frame [OF assms(1), of e c buf] Cons.IH [of "c + length (frame E e)"] Cons.prems(1)
    by (simp add: add.assoc)
qed

lemma block_cases:
  obtains q r where "(n::nat) = q * 4096 + r" and "r < 4096"
proof
  show "n = n div 4096 * 4096 + n mod 4096" by simp
qed simp

lemma padded_size_block: "padded_size n = (if 4096 dvd n then n else (n div 4096 + 1) * 4096)"
proof (cases "4096 dvd n")
  case True
  then show ?thesis by (auto simp: padded_size_def elim!: dvdE)
next
  case False
  obtain q r where n: "n = q * 4096 + r" "r < 4096" by (rule block_cases)
  with False have "0 < r" by (cases r) auto
  with n have "(n + 4095) div 4096 = q + 1" "n div 4096 = q"
    by (auto intro!: div_nat_eqI)
  with False show ?thesis by (simp add: padded_size_def)
qed

lemma le_padded_size [simp]: "n \<le> padded_size n"
  using dividend_less_div_times [of 4096 n] by (simp add: padded_size_block)

lemma length_pad [simp]: "length (pad b) = padded_size (length b)"
  by (simp add: pad_def)

lemma padded_size_dvd [simp]: "4096 dvd padded_size n"
  by (simp add: padded_size_def)

text \<open>A zero length makes the scan skip to the next block.\<close>

lemma scan_gap:
  assumes "4096 dvd c" and "length b mod 4096 \<le> 4092"
    and "drop c buf = pad b @ rest"
  shows "wal_scan E buf (c + length b) = wal_scan E buf (c + length (pad b))"
proof (cases "4096 dvd length b")
  case True
  then show ?thesis by (simp add: padded_size_block)
next
  case False
  obtain k where c: "c = 4096 * k" using assms(1) by (auto elim: dvdE)
  let ?z = "padded_size (length b) - length b"
  have z: "4 \<le> ?z"
  proof -
    obtain q r where n: "length b = q * 4096 + r" "r < 4096" by (rule block_cases)
    with assms(2) have "r \<le> 4092" "length b div 4096 = q" by (auto intro!: div_nat_eqI)
    with n False show ?thesis by (simp add: padded_size_block)
  qed
  have "drop (length b) (drop c buf) = replicate ?z 0 @ rest"
    using assms(3) by (simp add: pad_def)
  then have d: "drop (c + length b) buf = replicate ?z 0 @ rest"
    by (simp add: add.commute)
  have "4 \<le> length (drop (c + length b) buf)"
    using z by (simp add: d)
  then have l: "c + length b + 4 \<le> length buf" by simp
  have zero: "take 4 (drop (c + length b) buf) = replicate 4 0"
    using z by (simp add: d)
  have "of_le32 (replicate 4 0) = 0" by (simp add: of_le32_def numeral_eq_Suc)
  moreover have "((c + length b) div 4096 + 1) * 4096 = c + length (pad b)"
    using False by (simp add: c padded_size_block)
  ultimately show ?thesis
    using l zero by (subst wal_scan.simps) (simp add: Let_def)
qed

lemma scan_batch:
  assumes "wal_codec E" and "\<forall>e \<in> set es. loggable E e" and "gap_ok (batch_bytes E es)"
    and "4096 dvd c" and "drop c buf = pad (batch_bytes E es) @ rest"
  shows "wal_scan E buf c = es @ wal_scan E buf (c + length (pad (batch_bytes E es)))"
proof -
  have "drop c buf = batch_bytes E es @ replicate (padded_size (length (batch_bytes E es))
      - length (batch_bytes E es)) 0 @ rest"
    using assms(5) by (simp add: pad_def)
  from scan_frames [OF assms(1,2) this] scan_gap [OF assms(4) _ assms(5)] assms(3)
  show ?thesis by (simp add: gap_ok_def)
qed

lemma scan_log:
  assumes "wal_codec E" and "\<forall>es \<in> set bs. \<forall>e \<in> set es. loggable E e"
    and "\<forall>es \<in> set bs. gap_ok (batch_bytes E es)"
    and "4096 dvd c" and "drop c buf = log_of E bs @ rest"
  shows "wal_scan E buf c = concat bs @ wal_scan E buf (c + length (log_of E bs))"
  using assms(2-5)
proof (induction bs arbitrary: c)
  case Nil
  then show ?case by (simp add: log_of_def)
next
  case (Cons es bs)
  let ?p = "pad (batch_bytes E es)"
  have d: "drop c buf = ?p @ log_of E bs @ rest"
    using Cons.prems(4) by (simp add: log_of_def)
  then have d': "drop (c + length ?p) buf = log_of E bs @ rest"
    by (metis add.commute append_eq_conv_conj drop_drop)
  have "4096 dvd c + length ?p" using Cons.prems(3) by simp
  then have "wal_scan E buf (c + length ?p) =
      concat bs @ wal_scan E buf (c + length ?p + length (log_of E bs))"
    using Cons.IH [OF _ _ _ d'] Cons.prems(1,2) by simp
  moreover have "wal_scan E buf c = es @ wal_scan E buf (c + length ?p)"
    using scan_batch [OF assms(1) _ _ Cons.prems(3) d] Cons.prems(1,2) by simp
  moreover have "length (log_of E (es # bs)) = length ?p + length (log_of E bs)"
    by (simp add: log_of_def)
  ultimately show ?case by (simp add: add.assoc)
qed

lemma scan_end: "length buf \<le> c \<Longrightarrow> wal_scan E buf c = []"
  by (subst wal_scan.simps) simp

lemma take_drop_take:
  assumes "c + m \<le> length (take n xs)"
  shows "take m (drop c (take n xs)) = take m (drop c xs)"
proof -
  have "c + m \<le> n" using assms by simp
  then have "m \<le> n - c" by arith
  then show ?thesis by (simp add: drop_take min.absorb1)
qed

text \<open>Cutting the file short only cuts the recovered entries short.\<close>

lemma scan_take: "prefix (wal_scan E (take n buf) c) (wal_scan E buf c)"
proof (induction E buf c rule: wal_scan.induct)
  case (1 E buf c)
  let ?len = "unat (of_le32 (take 4 (drop c buf)))"
  show ?case
  proof (cases "c + 4 \<le> length (take n buf)")
    case False
    then show ?thesis by (subst wal_scan.simps) auto
  next
    case True
    then have same: "take 4 (drop c (take n buf)) = take 4 (drop c buf)"
      by (rule take_drop_take)
    from True have l: "c + 4 \<le> length buf" by simp
    show ?thesis
    proof (cases "?len = 0")
      case True
      with 1(1) l same \<open>c + 4 \<le> length (take n buf)\<close> show ?thesis
        by (subst (1 2) wal_scan.simps) (simp add: Let_def)
    next
      case False
      show ?thesis
      proof (cases "c + 4 + ?len \<le> length (take n buf)")
        case True
        then have "take ?len (drop (c + 4) (take n buf)) = take ?len (drop (c + 4) buf)"
          by (rule take_drop_take)
        with 1(2,3) l same False True \<open>c + 4 \<le> length (take n buf)\<close> show ?thesis
          by (subst (1 2) wal_scan.simps) (auto simp: Let_def split: option.split)
      next
        case False
        with same \<open>?len \<noteq> 0\<close> have "wal_scan E (take n buf) c = []"
          by (subst wal_scan.simps) (auto simp: Let_def)
        then show ?thesis by simp
      qed
    qed
  qed
qed

section \<open>A concrete environment, for the witnesses\<close>

definition put_entry :: "wal_entry \<Rightarrow> bytes" where
  "put_entry e = (case e of
      PageUpdate p d \<Rightarrow> le_bytes 4 0 @ put_word 4 p @ put_vec d
    | RecordUpdate k d \<Rightarrow> le_bytes 4 1 @ put_vec k @ put_vec d
    | TransactionStart t \<Rightarrow> le_bytes 4 2 @ put_word 8 t
    | TransactionCommit t v ts \<Rightarrow> le_bytes 4 3 @ put_word 8 t @ put_word 8 v @ put_i64 ts
    | TransactionRollback t \<Rightarrow> le_bytes 4 4 @ put_word 8 t)"

definition get_entry :: "bytes \<Rightarrow> (wal_entry \<times> bytes) option" where
  "get_entry bs = Option.bind (get_nat 4 bs) (\<lambda>(tag, r).
     if tag = 0 then Option.bind (get_word 4 r) (\<lambda>(p, r).
       map_option (\<lambda>(d, r). (PageUpdate p d, r)) (get_vec r))
     else if tag = 1 then Option.bind (get_vec r) (\<lambda>(k, r).
       map_option (\<lambda>(d, r). (RecordUpdate k d, r)) (get_vec r))
     else if tag = 2 then map_option (\<lambda>(t, r). (TransactionStart t, r)) (get_word 8 r)
     else if tag = 3 then Option.bind (get_word 8 r) (\<lambda>(t, r). Option.bind (get_word 8 r)
       (\<lambda>(v, r). map_option (\<lambda>(ts, r). (TransactionCommit t v ts, r)) (get_i64 r)))
     else if tag = 4 then map_option (\<lambda>(t, r). (TransactionRollback t, r)) (get_word 8 r)
     else None)"

definition entry_ok :: "wal_entry \<Rightarrow> bool" where
  "entry_ok e = (case e of
      PageUpdate p d \<Rightarrow> vec_ok d
    | RecordUpdate k d \<Rightarrow> vec_ok k \<and> vec_ok d
    | TransactionCommit t v ts \<Rightarrow> i64_ok ts
    | _ \<Rightarrow> True)"

lemma get_tag: "n < 5 \<Longrightarrow> get_nat 4 (le_bytes 4 n @ r) = Some (n, r)"
  by (rule nat_codec.get_put) simp

interpretation entry_codec: codec entry_ok put_entry get_entry
proof
  fix e rest
  assume "entry_ok e"
  then show "get_entry (put_entry e @ rest) = Some (e, rest)"
    by (cases e) (simp_all add: entry_ok_def put_entry_def get_entry_def get_tag
      vec_codec.get_put u32_codec.get_put u64_codec.get_put i64_codec.get_put)
qed

definition sample_wal_env :: wal_env where
  "sample_wal_env = \<lparr>ser_entry = (\<lambda>e. if entry_ok e then Some (put_entry e) else None),
     de_entry = (\<lambda>b. map_option fst (get_entry b)),
     wal_write = (\<lambda>f off d. (Some (length d), f @ d)),
     backoff = (\<lambda>n q. q)\<rparr>"

lemma wal_codec_sample [simp]: "wal_codec sample_wal_env"
proof -
  have "put_entry e \<noteq> []" for e
    by (cases e) (simp_all add: put_entry_def)
  then show ?thesis
    using entry_codec.get_put [of _ "[]"]
    by (auto simp: wal_codec_def sample_wal_env_def split: if_splits)
qed

lemma wal_append_sample [simp]: "wal_append sample_wal_env"
  by (simp add: wal_append_def sample_wal_env_def)

section \<open>Properties of recovery\<close>

lemma wal_recover_batches:
  assumes "wal_codec E" and "\<forall>es \<in> set bs. \<forall>e \<in> set es. loggable E e"
    and "\<forall>es \<in> set bs. gap_ok (batch_bytes E es)"
  shows "wal_recover E (log_of E bs) = concat bs"
  using scan_log [OF assms, of 0 "log_of E bs" "[]"] by (simp add: wal_recover_def scan_end)

text \<open>
  C14 (WAL, recovery round trip): a log file written as a sequence of padded batches parses
  back to exactly the entries of the batches, in order, when bincode encodes each entry in less
  than \<open>2 ^ 32\<close> bytes and reads it back, and each batch ends at a block boundary
  or at least four bytes before one (\<open>gap_ok\<close>: its padding is empty or can hold the zero length
  that ends it). C40 is a log outside this condition.
\<close>

theorem wal_recover_log:
  assumes "wal_codec E" and "\<forall>es \<in> set bs. \<forall>e \<in> set es. loggable E e"
    and "\<forall>es \<in> set bs. gap_ok (batch_bytes E es)"
  shows "wal_recover E (log_of E bs) = concat bs"
  using wal_recover_batches [OF assms] .

theorem wal_recover_log_witness:
  "wal_recover sample_wal_env
     (log_of sample_wal_env [[RecordUpdate [1] [2], TransactionStart 7], [RecordUpdate [1] [3]]])
   = [RecordUpdate [1] [2], TransactionStart 7, RecordUpdate [1] [3]]"
proof -
  let ?bs = "[[RecordUpdate [1] [2], TransactionStart 7], [RecordUpdate [1] [3]]]"
  have ser: "ser_entry sample_wal_env (RecordUpdate [a] [b]) = Some (put_entry (RecordUpdate [a] [b]))"
    "ser_entry sample_wal_env (TransactionStart t) = Some (put_entry (TransactionStart t))" for a b t
    by (simp_all add: sample_wal_env_def entry_ok_def vec_ok_def)
  have len: "length (put_entry (RecordUpdate [a] [b])) = 22"
    "length (put_entry (TransactionStart t)) = 12" for a b t
    by (simp_all add: put_entry_def put_vec_def put_word_def)
  have "\<forall>es \<in> set ?bs. \<forall>e \<in> set es. loggable sample_wal_env e"
    by (simp add: loggable_def ser len)
  moreover have "\<forall>es \<in> set ?bs. gap_ok (batch_bytes sample_wal_env es)"
    by (simp add: gap_ok_def batch_bytes_def frame_def ser len)
  ultimately show ?thesis
    using wal_recover_log [OF wal_codec_sample, of ?bs] by simp
qed

text \<open>
  Torn logs: whatever the log holds and wherever a crash cut it, recovery of the
  cut file gives a prefix of what recovery of the whole file gives: no entry is invented,
  reordered or skipped, and the loop ends on every input.
\<close>

theorem wal_recover_torn: "prefix (wal_recover E (take n log)) (wal_recover E log)"
  unfolding wal_recover_def by (rule scan_take)

lemma straddled_length:
  assumes "z \<in> {1, 2, 3}" and "L < 256"
  shows "unat (of_le32 (take 4 (replicate z 0 @ le32 (of_nat L) @ rest))) = 256 ^ z * L"
proof -
  have L: "unat (of_nat L :: u32) = L" "unat (of_nat L :: byte) = L"
    using assms(2) by (simp_all add: unsigned_of_nat take_bit_nat_eq_self)
  have "le32 (of_nat L) = of_nat L # replicate 3 0"
    using assms(2) le_bytes_small [of L 3] by (simp add: le32_def L)
  then have "take 4 (replicate z 0 @ le32 (of_nat L) @ rest) = replicate z 0 @ of_nat L # replicate (3 - z) 0"
    using assms(1) by (auto simp: take_Cons')
  moreover have "of_le (of_nat L # replicate (3 - z) 0) = L"
    using of_le_replicate [of "3 - z" "[]"] by (simp add: L)
  ultimately have "of_le32 (take 4 (replicate z 0 @ le32 (of_nat L) @ rest)) = of_nat (256 ^ z * L)"
    unfolding of_le32_def by (simp only: of_le_replicate)
  moreover have "256 ^ z * L < 2 ^ 32"
    using assms by auto
  ultimately show ?thesis
    using take_bit_nat_eq_self [of "256 ^ z * L" 32] by (simp only: unsigned_of_nat) simp
qed

text \<open>
  C40 (WAL, lost batch): a batch ends one to three bytes before a block boundary, so its padding
  is too short to hold a zero length; the next batch, the last of the log, is at most one block
  long and its first entry takes 16 to 255 bytes. Then the recovery loop reads a length that
  straddles the boundary, finds it larger than the file and stops: it returns the entries of
  the first batch only, although the second is intact on disk.
\<close>

theorem wal_lost_batch:
  assumes "wal_codec E" and "\<forall>e \<in> set es. loggable E e"
    and "4092 < length (batch_bytes E es) mod 4096"
    and "ser_entry E e = Some b" and "16 \<le> length b" and "length b < 256"
    and "length (batch_bytes E (e # es')) \<le> 4096"
  shows "wal_recover E (log_of E [es, e # es']) = es"
proof -
  let ?B = "batch_bytes E es" and ?B' = "batch_bytes E (e # es')"
  let ?z = "padded_size (length ?B) - length ?B" and ?buf = "log_of E [es, e # es']"
  obtain q r where q: "length ?B = q * 4096 + r" "r < 4096" by (rule block_cases)
  with assms(3) have r: "4092 < r" by simp
  have "length ?B div 4096 = q" using q by (auto intro!: div_nat_eqI)
  with q r have pB: "padded_size (length ?B) = q * 4096 + 4096"
    by (simp add: padded_size_block dvd_eq_mod_eq_0)
  with q r have z: "?z \<in> {1, 2, 3}" by auto
  have B': "?B' = le32 (of_nat (length b)) @ b @ batch_bytes E es'"
    by (simp add: batch_bytes_def frame_def assms(4))
  then have "padded_size (length ?B') = 4096"
    using assms(5,7) by (auto simp: padded_size_def intro!: div_nat_eqI)
  then have len: "length ?buf = length ?B + ?z + 4096"
    by (simp add: log_of_def)
  have buf: "?buf = ?B @ replicate ?z 0 @ pad ?B'"
    by (simp add: log_of_def pad_def)
  have "wal_recover E ?buf = es @ wal_scan E ?buf (length ?B)"
    using scan_frames [OF assms(1,2), of 0 ?buf "replicate ?z 0 @ pad ?B'"] buf
    by (simp add: wal_recover_def)
  moreover have "unat (of_le32 (take 4 (drop (length ?B) ?buf))) = 256 ^ ?z * length b"
    using straddled_length [OF z assms(6)] by (simp add: buf pad_def B')
  moreover have "4096 \<le> 256 ^ ?z * length b"
    using z assms(5) by auto
  ultimately show ?thesis
    using len z by (subst (asm) wal_scan.simps) (auto simp: Let_def)
qed

theorem wal_lost_batch_witness:
  "wal_recover sample_wal_env (log_of sample_wal_env
     [[RecordUpdate [1] (replicate 4069 0)], [RecordUpdate [1] [2]]])
   = [RecordUpdate [1] (replicate 4069 0)]"
proof -
  let ?e = "RecordUpdate [1] (replicate 4069 0)"
  have s1: "ser_entry sample_wal_env ?e = Some (put_entry ?e)"
    by (simp add: sample_wal_env_def entry_ok_def vec_ok_def)
  have l1: "length (put_entry ?e) = 4090"
    by (simp add: put_entry_def put_vec_def)
  have s2: "ser_entry sample_wal_env (RecordUpdate [1] [2]) = Some (put_entry (RecordUpdate [1] [2]))"
    by (simp add: sample_wal_env_def entry_ok_def vec_ok_def)
  have l2: "length (put_entry (RecordUpdate [1] [2])) = 22"
    by (simp add: put_entry_def put_vec_def)
  show ?thesis
    by (rule wal_lost_batch [OF wal_codec_sample _ _ s2])
      (simp_all add: loggable_def s1 l1 l2 batch_bytes_def frame_def s2)
qed

end
