(* ===== verification/Wal_Pipeline.thy ===== *)
theory Wal_Pipeline
  imports Wal
begin

text \<open>
  The write pipeline around \<open>Wal\<close>: producers enqueue entries, a flush moves queued entries to
  the writer thread as a batch, the writer appends batches to the file, and the engine's
  background loop takes entries off the same queue. The queue contract is the locale
  \<open>bounded_fifo\<close>; the threads are the steps of \<open>wal_step\<close>, in any order.
\<close>

section \<open>The contract of the queue\<close>

text \<open>What a thread does to the queue: offer an element, or take the oldest.\<close>

datatype 'a queue_op = Push 'a | Pop

text \<open>A run of operations, with the elements accepted so far and the elements handed out.\<close>

fun queue_run :: "('a \<Rightarrow> 's \<Rightarrow> 's option) \<Rightarrow> ('s \<Rightarrow> 'a option \<times> 's) \<Rightarrow> 'a queue_op list
    \<Rightarrow> 's \<times> 'a list \<times> 'a list \<Rightarrow> 's \<times> 'a list \<times> 'a list" where
  "queue_run push pop [] r = r"
| "queue_run push pop (Push x # ops) (s, ins, outs) =
     (case push x s of
        Some s' \<Rightarrow> queue_run push pop ops (s', ins @ [x], outs)
      | None \<Rightarrow> queue_run push pop ops (s, ins, outs))"
| "queue_run push pop (Pop # ops) (s, ins, outs) =
     (case pop s of
        (Some x, s') \<Rightarrow> queue_run push pop ops (s', ins, outs @ [x])
      | (None, s') \<Rightarrow> queue_run push pop ops (s', ins, outs))"

locale bounded_fifo =
  fixes items :: "'s \<Rightarrow> 'a list"
    and push :: "'a \<Rightarrow> 's \<Rightarrow> 's option"
    and pop :: "'s \<Rightarrow> 'a option \<times> 's"
    and cap :: nat
  assumes push_ok: "length (items s) < cap \<Longrightarrow> \<exists>s'. push x s = Some s' \<and> items s' = items s @ [x]"
    and push_full: "cap \<le> length (items s) \<Longrightarrow> push x s = None"
    and pop_some: "items s = x # xs \<Longrightarrow> \<exists>s'. pop s = (Some x, s') \<and> items s' = xs"
    and pop_none: "items s = [] \<Longrightarrow> pop s = (None, s)"
begin

lemma push_Some: "push x s = Some s' \<Longrightarrow> items s' = items s @ [x] \<and> length (items s) < cap"
  using push_ok [of s x] push_full [of s x] by (cases "length (items s) < cap") auto

lemma pop_cases:
  obtains (none) "items s = []" "pop s = (None, s)"
    | (some) x s' where "pop s = (Some x, s')" "items s = x # items s'"
proof (cases "items s")
  case Nil
  with pop_none show ?thesis by (intro none) auto
next
  case (Cons x xs)
  with pop_some obtain s' where "pop s = (Some x, s')" "items s' = xs" by blast
  with Cons show ?thesis by (intro some) auto
qed

lemma queue_run_fifo:
  assumes "ins = outs @ items s" and "length (items s) \<le> cap"
    and "queue_run push pop ops (s, ins, outs) = (s', ins', outs')"
  shows "ins' = outs' @ items s' \<and> length (items s') \<le> cap"
  using assms
proof (induction ops arbitrary: s ins outs)
  case Nil
  then show ?case by auto
next
  case (Cons op ops)
  show ?case
  proof (cases op)
    case (Push x)
    show ?thesis
    proof (cases "push x s")
      case None
      with Push Cons.prems Cons.IH [of ins outs s] show ?thesis by simp
    next
      case (Some t)
      with push_Some have "items t = items s @ [x]" "length (items s) < cap" by blast+
      with Some Push Cons.prems Cons.IH [of "ins @ [x]" outs t] show ?thesis by simp
    qed
  next
    case Pop
    show ?thesis
    proof (cases rule: pop_cases [of s])
      case none
      with Pop Cons.prems Cons.IH [of ins outs s] show ?thesis by simp
    next
      case (some x t)
      with Pop Cons.prems Cons.IH [of ins "outs @ [x]" t] show ?thesis by simp
    qed
  qed
qed

end

interpretation wq: bounded_fifo queue q_push pop_entry QUEUE_CAP
  by unfold_locales (auto simp: q_push_def pop_entry_def)

text \<open>
  Whatever the threads do to a fresh log's queue, what was
  accepted is what was handed out, in the order it was accepted, followed by what is still
  queued; nothing is duplicated or lost inside the queue, and it never exceeds its million
  entries.
\<close>

lemma wal_queue_fifo:
  assumes "queue_run q_push pop_entry ops (wal_open E content, [], []) = (w, accepted, taken)"
  shows "accepted = taken @ queue w \<and> length (queue w) \<le> 1000000"
  using wq.queue_run_fifo [OF _ _ assms] by (simp add: wal_open_def QUEUE_CAP_def)

section \<open>Enqueue with back-off\<close>

text \<open>The queue at attempt \<open>n\<close>, the other threads having run during \<open>n\<close> sleeps.\<close>

fun queue_after :: "wal_env \<Rightarrow> wal_entry list \<Rightarrow> nat \<Rightarrow> wal_entry list" where
  "queue_after E q 0 = q"
| "queue_after E q (Suc n) = backoff E n (queue_after E q n)"

lemma enqueue_from_spec:
  assumes "r \<le> 1001" and "queue w = queue_after E q r"
  shows "enqueue_from E e r w =
    (if \<exists>n \<in> {r..1001}. length (queue_after E q n) < QUEUE_CAP
     then Some (Inr (), w\<lparr>queue := queue_after E q
            (LEAST n. r \<le> n \<and> length (queue_after E q n) < QUEUE_CAP) @ [e]\<rparr>)
     else Some (Inl Wal_saturated, w\<lparr>queue := queue_after E q 1001\<rparr>))"
  using assms
proof (induction "1001 - r" arbitrary: r w)
  case 0
  then have r: "r = 1001" by simp
  show ?case
  proof (cases "length (queue w) < QUEUE_CAP")
    case True
    then have "(LEAST n. r \<le> n \<and> length (queue_after E q n) < QUEUE_CAP) = r"
      using 0 by (intro Least_equality) auto
    with True 0 r show ?thesis by (subst enqueue_from.simps) (simp add: q_push_def)
  next
    case False
    with 0 r show ?thesis by (subst enqueue_from.simps) (simp add: q_push_def)
  qed
next
  case (Suc d)
  show ?case
  proof (cases "length (queue w) < QUEUE_CAP")
    case True
    then have "(LEAST n. r \<le> n \<and> length (queue_after E q n) < QUEUE_CAP) = r"
      using Suc.prems by (intro Least_equality) auto
    moreover have "\<exists>n \<in> {r..1001}. length (queue_after E q n) < QUEUE_CAP"
      using True Suc.prems by auto
    ultimately show ?thesis
      using True Suc.prems by (subst enqueue_from.simps) (simp add: q_push_def)
  next
    case False
    let ?w = "w\<lparr>queue := queue_after E q (Suc r)\<rparr>"
    have step: "enqueue_from E e r w = enqueue_from E e (Suc r) ?w"
      using False Suc.prems Suc.hyps(2) by (subst enqueue_from.simps) (auto simp: q_push_def)
    have from_Suc: "r \<le> n \<and> length (queue_after E q n) < QUEUE_CAP
        \<longleftrightarrow> Suc r \<le> n \<and> length (queue_after E q n) < QUEUE_CAP" for n
      using False Suc.prems(2) by (cases "n = r") auto
    then have ex: "(\<exists>n \<in> {r..1001}. length (queue_after E q n) < QUEUE_CAP)
        \<longleftrightarrow> (\<exists>n \<in> {Suc r..1001}. length (queue_after E q n) < QUEUE_CAP)"
      by (metis atLeastAtMost_iff)
    have "enqueue_from E e (Suc r) ?w =
      (if \<exists>n \<in> {Suc r..1001}. length (queue_after E q n) < QUEUE_CAP
       then Some (Inr (), ?w\<lparr>queue := queue_after E q
            (LEAST n. Suc r \<le> n \<and> length (queue_after E q n) < QUEUE_CAP) @ [e]\<rparr>)
       else Some (Inl Wal_saturated, ?w\<lparr>queue := queue_after E q 1001\<rparr>))"
      using Suc.hyps(2) by (intro Suc.hyps(1)) auto
    then show ?thesis
      unfolding step from_Suc ex by simp
  qed
qed

text \<open>
  C32 (WAL, enqueue): \<open>enqueue\<close> always returns. It appends the entry to the queue as it stands
  at the first attempt that finds room, and otherwise gives up with "WAL Queue Saturated"
  after 1002 attempts (numbers 0 to 1001), leaving the queue as the other threads made it.
\<close>

theorem wal_enqueue_spec:
  "wal_enqueue E e w =
    (if \<exists>n \<le> 1001. length (queue_after E (queue w) n) < QUEUE_CAP
     then Some (Inr (), w\<lparr>queue := queue_after E (queue w)
            (LEAST n. length (queue_after E (queue w) n) < QUEUE_CAP) @ [e]\<rparr>)
     else Some (Inl Wal_saturated, w\<lparr>queue := queue_after E (queue w) 1001\<rparr>))"
  using enqueue_from_spec [of 0 w E "queue w" e]
  by (simp add: wal_enqueue_def atLeast0AtMost Bex_def)

lemma wal_enqueue_room:
  assumes "length (queue w) < QUEUE_CAP"
  shows "wal_enqueue E e w = Some (Inr (), w\<lparr>queue := queue w @ [e]\<rparr>)"
  using assms by (simp add: wal_enqueue_def enqueue_from.simps q_push_def)

section \<open>Flush\<close>

lemma batch_bytes_simps [simp]:
  "batch_bytes E [] = []" "batch_bytes E (e # es) = frame E e @ batch_bytes E es"
  by (simp_all add: batch_bytes_def)

lemma fill_buffer_spec:
  "\<exists>p. q = p @ snd (fill_buffer E lim a q) \<and> fst (fill_buffer E lim a q) = a @ batch_bytes E p
    \<and> (snd (fill_buffer E lim a q) \<noteq> [] \<longrightarrow> lim \<le> length (a @ batch_bytes E p))
    \<and> (\<forall>k < length p. 1 \<le> k \<longrightarrow> length (a @ batch_bytes E (take k p)) < lim)
    \<and> (q \<noteq> [] \<longrightarrow> p \<noteq> [])"
proof (induction q arbitrary: a)
  case Nil
  then show ?case by simp
next
  case (Cons e q)
  let ?a = "a @ frame E e"
  show ?case
  proof (cases "lim \<le> length ?a")
    case True
    then show ?thesis by (intro exI [of _ "[e]"]) simp
  next
    case False
    obtain p where p: "q = p @ snd (fill_buffer E lim ?a q)"
      "fst (fill_buffer E lim ?a q) = ?a @ batch_bytes E p"
      "snd (fill_buffer E lim ?a q) \<noteq> [] \<longrightarrow> lim \<le> length (?a @ batch_bytes E p)"
      "\<forall>k < length p. 1 \<le> k \<longrightarrow> length (?a @ batch_bytes E (take k p)) < lim"
      using Cons.IH [of ?a] by blast
    have "length (a @ batch_bytes E (take k (e # p))) < lim" if "k < length (e # p)" "1 \<le> k" for k
    proof (cases "k = 1")
      case True
      with False show ?thesis by simp
    next
      case neq: False
      with that p(4) [rule_format, of "k - 1"] show ?thesis by (cases k) (auto simp: add.assoc)
    qed
    with p False show ?thesis by (intro exI [of _ "e # p"]) (auto simp: Let_def)
  qed
qed

definition quiet :: "wal \<Rightarrow> bool" where
  "quiet w \<longleftrightarrow> buffer_a w = [] \<and> buffer_b w = [] \<and> length (queue w) \<le> QUEUE_CAP"

lemma quiet_open [simp]: "quiet (wal_open E content)"
  by (simp add: quiet_def wal_open_def)

lemma flush_cases:
  assumes "quiet w"
  obtains p w' where "flush_pipeline E w = Some (Inr (), w')" and "queue w = p @ queue w'"
    and "requests w' = requests w @ (if batch_bytes E p = [] then [] else [batch_bytes E p])"
    and "quiet w'" and "wal_file w' = wal_file w" and "wal_offset w' = wal_offset w"
    and "batch_limit w' = batch_limit w"
    and "queue w' \<noteq> [] \<longrightarrow> batch_limit w \<le> length (batch_bytes E p)"
    and "\<forall>k < length p. 1 \<le> k \<longrightarrow> length (batch_bytes E (take k p)) < batch_limit w"
    and "queue w \<noteq> [] \<longrightarrow> p \<noteq> []"
proof (cases "queue w = []")
  case True
  with assms show ?thesis
    by (intro that [of w "[]"]) (auto simp: flush_pipeline_def)
next
  case False
  let ?r = "fill_buffer E (batch_limit w) [] (queue w)"
  obtain p where p: "queue w = p @ snd ?r" "fst ?r = batch_bytes E p"
    "snd ?r \<noteq> [] \<longrightarrow> batch_limit w \<le> length (batch_bytes E p)"
    "\<forall>k < length p. 1 \<le> k \<longrightarrow> length (batch_bytes E (take k p)) < batch_limit w"
    "queue w \<noteq> [] \<longrightarrow> p \<noteq> []"
    using fill_buffer_spec [of "queue w" E "batch_limit w" "[]"] by auto
  have lim: "\<not> 1000000 < length (queue w)"
    and act: "active_buffer w = []" "buffer_a w = []" "buffer_b w = []"
    using assms by (auto simp: quiet_def QUEUE_CAP_def active_buffer_def)
  have le: "length (snd ?r) \<le> QUEUE_CAP"
    using assms p(1) by (metis le_add2 le_trans length_append quiet_def)
  let ?w = "(set_active (batch_bytes E p) w)\<lparr>queue := snd ?r\<rparr>"
  let ?w' = "if batch_bytes E p = [] then ?w
    else (set_active [] ?w)\<lparr>active_is_a := \<not> active_is_a w, requests := requests w @ [batch_bytes E p]\<rparr>"
  have "flush_pipeline E w = Some (Inr (), ?w')"
    using False p(2)
    by (simp add: flush_pipeline_def Let_def lim act case_prod_beta set_active_def)
  moreover have "quiet ?w'"
    using le act(2,3) by (auto simp: quiet_def set_active_def)
  ultimately show ?thesis
    using p False by (intro that [of ?w' p]) (simp_all add: set_active_def, auto)
qed

section \<open>The threads as steps\<close>

text \<open>
  The log with the history of what happened to it: the entries accepted by \<open>enqueue\<close>; the
  entries taken off the queue, marked \<open>True\<close> when a flush took them and \<open>False\<close> when the
  background loop did; the batches sent to the writer; the batches in the file.
\<close>

record wal_sys =
  log :: wal
  accepted :: "wal_entry list"
  consumed :: "(bool \<times> wal_entry) list"
  sent :: "wal_entry list list"
  stored :: "wal_entry list list"

definition wal_init :: "wal_env \<Rightarrow> wal_sys" where
  "wal_init E = \<lparr>log = wal_open E None, accepted = [], consumed = [], sent = [], stored = []\<rparr>"

inductive wal_step :: "wal_env \<Rightarrow> wal_sys \<Rightarrow> wal_sys \<Rightarrow> bool" for E where
  enqueue: "loggable E e \<Longrightarrow> length (queue (log s)) < QUEUE_CAP
    \<Longrightarrow> wal_enqueue E e (log s) = Some (Inr (), w')
    \<Longrightarrow> wal_step E s (s\<lparr>log := w', accepted := accepted s @ [e]\<rparr>)"
| flush: "flush_pipeline E (log s) = Some (Inr (), w') \<Longrightarrow> queue (log s) = p @ queue w'
    \<Longrightarrow> wal_step E s (s\<lparr>log := w', consumed := consumed s @ map (Pair True) p,
         sent := sent s @ (if p = [] then [] else [p])\<rparr>)"
| write_out: "sent s = b # bs
    \<Longrightarrow> wal_step E s (s\<lparr>log := wal_writer_step E (log s), sent := bs, stored := stored s @ [b]\<rparr>)"
| drain: "pop_entry (log s) = (Some e, w')
    \<Longrightarrow> wal_step E s (s\<lparr>log := w', consumed := consumed s @ [(False, e)]\<rparr>)"

inductive wal_reachable :: "wal_env \<Rightarrow> wal_sys \<Rightarrow> bool" for E where
  start: "wal_reachable E (wal_init E)"
| step: "wal_reachable E s \<Longrightarrow> wal_step E s t \<Longrightarrow> wal_reachable E t"

definition flushed :: "wal_sys \<Rightarrow> wal_entry list" where
  "flushed s = map snd (filter fst (consumed s))"

definition drained :: "wal_sys \<Rightarrow> wal_entry list" where
  "drained s = map snd (filter (\<lambda>c. \<not> fst c) (consumed s))"

definition wal_sys_inv :: "wal_env \<Rightarrow> wal_sys \<Rightarrow> bool" where
  "wal_sys_inv E s \<longleftrightarrow> quiet (log s)
     \<and> requests (log s) = map (batch_bytes E) (sent s)
     \<and> wal_file (log s) = log_of E (stored s)
     \<and> accepted s = map snd (consumed s) @ queue (log s)
     \<and> concat (stored s) @ concat (sent s) = flushed s
     \<and> (\<forall>e \<in> set (accepted s). loggable E e)"

lemma wal_sys_inv_init: "wal_sys_inv E (wal_init E)"
  by (simp add: wal_sys_inv_def wal_init_def flushed_def) (simp add: wal_open_def log_of_def)

lemma frame_not_Nil: "loggable E e \<Longrightarrow> frame E e \<noteq> []"
  by (auto simp: loggable_def frame_def split: option.splits dest!: arg_cong [of _ _ length])

lemma batch_bytes_Nil:
  assumes "\<forall>e \<in> set p. loggable E e"
  shows "batch_bytes E p = [] \<longleftrightarrow> p = []"
  using assms by (cases p) (auto simp: frame_not_Nil)

lemma wal_sys_inv_step:
  assumes "wal_append E" and "wal_step E s t" and "wal_sys_inv E s"
  shows "wal_sys_inv E t"
  using assms(2,3)
proof cases
  case (enqueue e w')
  then have "w' = (log s)\<lparr>queue := queue (log s) @ [e]\<rparr>"
    using wal_enqueue_room by simp
  with enqueue assms(3) show ?thesis
    by (auto simp: wal_sys_inv_def quiet_def flushed_def)
next
  case (flush w' p)
  from assms(3) have q: "quiet (log s)" by (simp add: wal_sys_inv_def)
  obtain p' where w': "queue (log s) = p' @ queue w'" "quiet w'" "wal_file w' = wal_file (log s)"
    "requests w' = requests (log s) @ (if batch_bytes E p' = [] then [] else [batch_bytes E p'])"
    by (rule flush_cases [OF q, of E]) (use flush(2) in auto)
  with flush have [simp]: "p' = p" by simp
  have "\<forall>e \<in> set p. loggable E e"
    using assms(3) flush(3) by (simp add: wal_sys_inv_def)
  with flush w' assms(3) show ?thesis
    by (auto simp: wal_sys_inv_def batch_bytes_Nil flushed_def comp_def)
next
  case (write_out b bs)
  then have "requests (log s) = batch_bytes E b # map (batch_bytes E) bs"
    using assms(3) by (simp add: wal_sys_inv_def)
  with write_out assms show ?thesis
    by (auto simp: wal_sys_inv_def wal_writer_step_def wal_append_def quiet_def flushed_def log_of_def)
next
  case (drain e w')
  then obtain q where "queue (log s) = e # q" "w' = (log s)\<lparr>queue := q\<rparr>"
    by (auto simp: pop_entry_def split: list.splits)
  with drain assms(3) show ?thesis
    by (auto simp: wal_sys_inv_def quiet_def flushed_def)
qed

lemma wal_reachable_inv:
  assumes "wal_append E" and "wal_reachable E s"
  shows "wal_sys_inv E s"
  using assms(2)
  by induction (auto intro: wal_sys_inv_init wal_sys_inv_step [OF assms(1)])

lemma mset_consumed: "mset (map snd (consumed s)) = mset (flushed s) + mset (drained s)"
proof -
  have "mset (map snd xs) = mset (map snd (filter fst xs)) + mset (map snd (filter (\<lambda>c. \<not> fst c) xs))"
    for xs :: "(bool \<times> wal_entry) list"
    by (induction xs) simp_all
  then show ?thesis by (simp add: flushed_def drained_def)
qed

lemma subseq_flushed: "subseq (flushed s) (map snd (consumed s))"
  unfolding flushed_def by (intro subseq_map subseq_filter_left)

section \<open>Properties of the pipeline\<close>

text \<open>A concrete run for the witnesses: two entries, one drained, one flushed and written.\<close>

lemma sample_run:
  "\<exists>s. wal_reachable sample_wal_env s \<and> accepted s = [TransactionStart 1, TransactionStart 2]
    \<and> stored s = [[TransactionStart 2]] \<and> sent s = [] \<and> drained s = [TransactionStart 1]
    \<and> queue (log s) = []"
proof -
  let ?E = sample_wal_env and ?e = "TransactionStart 1" and ?f = "TransactionStart 2"
  let ?w = "wal_open ?E None"
  let ?B = "batch_bytes ?E [?f]"
  have l: "loggable ?E (TransactionStart t)" for t
    by (simp add: loggable_def sample_wal_env_def entry_ok_def put_entry_def put_word_def)
  have w: "queue ?w = []" "batch_limit ?w = 33554432" "buffer_a ?w = []" "active_is_a ?w"
    "requests ?w = []"
    by (simp_all add: wal_open_def)
  let ?s1 = "(wal_init ?E)\<lparr>log := ?w\<lparr>queue := [?e]\<rparr>, accepted := [?e]\<rparr>"
  let ?s2 = "?s1\<lparr>log := ?w\<lparr>queue := [?e, ?f]\<rparr>, accepted := [?e, ?f]\<rparr>"
  let ?s3 = "?s2\<lparr>log := ?w\<lparr>queue := [?f]\<rparr>, consumed := [(False, ?e)]\<rparr>"
  let ?w4 = "?w\<lparr>queue := [], buffer_a := [], active_is_a := False, requests := [?B]\<rparr>"
  let ?s4 = "?s3\<lparr>log := ?w4, consumed := [(False, ?e), (True, ?f)], sent := [[?f]]\<rparr>"
  let ?s5 = "?s4\<lparr>log := wal_writer_step ?E ?w4, sent := [], stored := [[?f]]\<rparr>"
  have "wal_step ?E (wal_init ?E) ?s1"
    using wal_step.enqueue [OF l [of 1], of "wal_init ?E"]
    by (simp add: wal_enqueue_room wal_init_def w QUEUE_CAP_def)
  moreover have "wal_step ?E ?s1 ?s2"
    using wal_step.enqueue [OF l [of 2], of ?s1]
    by (simp add: wal_enqueue_room wal_init_def w QUEUE_CAP_def)
  moreover have "wal_step ?E ?s2 ?s3"
    using wal_step.drain [of ?s2 ?e "?w\<lparr>queue := [?f]\<rparr>" ?E]
    by (simp add: pop_entry_def wal_init_def)
  moreover have "frame ?E ?f \<noteq> []" by (rule frame_not_Nil [OF l])
  then have "flush_pipeline ?E (?w\<lparr>queue := [?f]\<rparr>) = Some (Inr (), ?w4)"
    by (simp add: flush_pipeline_def w active_buffer_def set_active_def Let_def)
  then have "wal_step ?E ?s3 ?s4"
    using wal_step.flush [of ?E ?s3 ?w4 "[?f]"] by (simp add: wal_init_def)
  moreover have "wal_step ?E ?s4 ?s5"
    using wal_step.write_out [of ?s4 "[?f]" "[]" ?E] by (simp add: wal_init_def)
  ultimately have "wal_reachable ?E ?s5"
    using wal_reachable.start [of ?E] by (meson wal_reachable.step)
  moreover have "queue (wal_writer_step ?E ?w4) = []"
    by (simp add: wal_writer_step_def split: prod.split)
  ultimately show ?thesis
    by (intro exI [of _ ?s5]) (simp add: drained_def)
qed

text \<open>
  C27 (WAL pipeline, conservation): in every state the threads can reach, each accepted entry
  is in exactly one place: the log file, a batch on its way to the writer, the hands of the
  background loop, or the queue. The file holds the flushed batches and nothing else, and
  both orders are kept: what was flushed is a subsequence of what was accepted.
\<close>

theorem wal_conservation:
  assumes "wal_append E" and "wal_reachable E s"
  shows "mset (accepted s) = mset (concat (stored s)) + mset (concat (sent s))
      + mset (drained s) + mset (queue (log s))
    \<and> wal_file (log s) = log_of E (stored s)
    \<and> subseq (concat (stored s) @ concat (sent s)) (accepted s)"
proof -
  have inv: "wal_sys_inv E s" by (rule wal_reachable_inv [OF assms])
  then have "mset (accepted s) = mset (flushed s) + mset (drained s) + mset (queue (log s))"
    by (simp only: wal_sys_inv_def mset_append mset_consumed)
  moreover have "flushed s = concat (stored s) @ concat (sent s)"
    using inv by (simp add: wal_sys_inv_def)
  moreover have "subseq (flushed s) (accepted s)"
    using inv subseq_flushed [of s] by (auto simp: wal_sys_inv_def intro: subseq_rev_drop_many)
  ultimately show ?thesis
    using inv by (simp add: wal_sys_inv_def add_ac)
qed

theorem wal_conservation_witness:
  "\<exists>s. wal_reachable sample_wal_env s \<and> accepted s = [TransactionStart 1, TransactionStart 2]
    \<and> wal_file (log s) = log_of sample_wal_env [[TransactionStart 2]]"
  using sample_run wal_conservation [OF wal_append_sample] by metis

text \<open>
  C17 (WAL pipeline, crash recovery): on a device that appends every batch in full, take any state
  reached by any interleaving of enqueues,
  pops of the background loop, flushes and writer steps, in which every batch written to the
  file so far ends at a block boundary or at least four bytes before one (\<open>gap_ok\<close>; C40 is a log
  for which this fails). Recovery of the whole file returns exactly the entries of the written
  batches, in order; of the file cut at any byte it returns a prefix of them. When the accepted
  entries are distinct, none that the background loop took is among them: the log alone does
  not make such an entry durable.
\<close>

theorem wal_crash_recovery:
  assumes "wal_append E" and "wal_codec E" and "wal_reachable E s"
    and "\<forall>es \<in> set (stored s). gap_ok (batch_bytes E es)"
  shows "wal_recover E (wal_file (log s)) = concat (stored s)
    \<and> prefix (wal_recover E (take n (wal_file (log s)))) (concat (stored s))
    \<and> (distinct (accepted s) \<longrightarrow>
        set (wal_recover E (wal_file (log s))) \<inter> set (drained s) = {})"
proof -
  have inv: "wal_sys_inv E s" by (rule wal_reachable_inv [OF assms(1,3)])
  then have f: "wal_file (log s) = log_of E (stored s)"
    and fl: "flushed s = concat (stored s) @ concat (sent s)"
    and acc: "accepted s = map snd (consumed s) @ queue (log s)"
    by (simp_all add: wal_sys_inv_def)
  have "set (concat (stored s)) \<subseteq> set (flushed s)"
    unfolding fl by simp
  also have "\<dots> \<subseteq> set (accepted s)"
    using acc by (auto simp: flushed_def)
  finally have "\<forall>e \<in> set (concat (stored s)). loggable E e"
    using inv unfolding wal_sys_inv_def by blast
  then have "\<forall>es \<in> set (stored s). \<forall>e \<in> set es. loggable E e"
    by simp
  then have rec: "wal_recover E (log_of E (stored s)) = concat (stored s)"
    using assms(2,4) by (intro wal_recover_batches)
  moreover have "set (flushed s) \<inter> set (drained s) = {}" if "distinct (accepted s)"
  proof -
    have "distinct (map snd (consumed s))" using that acc by simp
    then show ?thesis
      by (auto simp: flushed_def drained_def distinct_map dest: inj_onD)
  qed
  ultimately show ?thesis
    using f fl wal_recover_torn [of E n "log_of E (stored s)"] by auto
qed

theorem wal_crash_recovery_witness:
  "\<exists>s. wal_reachable sample_wal_env s \<and> drained s = [TransactionStart 1]
    \<and> wal_recover sample_wal_env (wal_file (log s)) = [TransactionStart 2]"
proof -
  obtain s where s: "wal_reachable sample_wal_env s" "stored s = [[TransactionStart 2]]"
    "drained s = [TransactionStart 1]" using sample_run by blast
  have g: "\<forall>es \<in> set (stored s). gap_ok (batch_bytes sample_wal_env es)"
    by (simp add: s(2) gap_ok_def frame_def sample_wal_env_def entry_ok_def put_entry_def put_word_def)
  from wal_crash_recovery [OF wal_append_sample wal_codec_sample s(1) g] s show ?thesis by auto
qed

end
