(* ===== verification/Btree.thy ===== *)
theory Btree
  imports Memory_Tier Pager Wal_Pipeline
begin

text \<open>
  The B+tree of \<open>src/src/storage/btree.rs\<close>: nodes kept one per page, lookups that consult the
  memory tier first, insertion with preventive splitting of full nodes on the way down,
  page allocation at the end of the file and the replay of the log when the database is
  opened. Every save also puts the page on the log's queue.

  Bincode on nodes is part of \<open>btree_env\<close>. Loops that the code writes without a bound
  (\<open>get\<close>, \<open>insert_non_full\<close>) are partial functions, \<open>None\<close> when they do not return; reads out
  of a vector's range are \<open>Panicked\<close>.
\<close>

section \<open>Nodes and the state of the tree\<close>

datatype node_type = Internal | Leaf

record node =
  node_type :: node_type
  keys :: "bytes list"
  children :: "u32 list"
  vals :: "bytes list"
  next_leaf :: "u32 option"

definition new_leaf :: node where
  "new_leaf = \<lparr>node_type = Leaf, keys = [], children = [], vals = [], next_leaf = None\<rparr>"

definition new_internal :: node where
  "new_internal = \<lparr>node_type = Internal, keys = [], children = [], vals = [], next_leaf = None\<rparr>"

record btree_env =
  penv :: pager_env
  wenv :: wal_env
  ser_node :: "node \<Rightarrow> bytes option"
  de_node :: "bytes \<Rightarrow> node option"
  size_node :: "node \<Rightarrow> nat option"

record btree =
  bt_pager :: pager
  bt_wal :: wal
  root_page_id :: u32
  memory_tier :: mem_tier

abbreviation on_pager :: "(pager, 'a) act \<Rightarrow> (btree, 'a) act" where
  "on_pager \<equiv> zoom bt_pager (\<lambda>p. bt_pager_update (\<lambda>_. p))"

abbreviation on_wal :: "(wal, 'a) act \<Rightarrow> (btree, 'a) act" where
  "on_wal \<equiv> zoom bt_wal (\<lambda>w. bt_wal_update (\<lambda>_. w))"

section \<open>Nodes and pages\<close>

definition to_bytes :: "btree_env \<Rightarrow> node \<Rightarrow> err + bytes" where
  "to_bytes E n = (case ser_node E n of
      None \<Rightarrow> Inl Bincode_error
    | Some encoded \<Rightarrow>
        if PAGE_SIZE - 4 < length encoded then Inl Node_too_large
        else Inr (replicate 4 0 @ encoded @ replicate (PAGE_SIZE - 4 - length encoded) 0))"

definition from_bytes :: "btree_env \<Rightarrow> bytes \<Rightarrow> err + node" where
  "from_bytes E page = (case de_node E (drop 4 page) of None \<Rightarrow> Inl Bincode_error | Some n \<Rightarrow> Inr n)"

definition is_full :: "btree_env \<Rightarrow> node \<Rightarrow> bool" where
  "is_full E n = (let estimated_size = (case size_node E n of None \<Rightarrow> 0 | Some k \<Rightarrow> k)
     in PAGE_SIZE * 3 div 4 < estimated_size)"

definition load_node :: "btree_env \<Rightarrow> u32 \<Rightarrow> (btree, node) act" where
  "load_node E page_id =
     seq (on_pager (read_page (penv E) page_id)) (\<lambda>page. of_result (from_bytes E page))"

definition save_node :: "btree_env \<Rightarrow> u32 \<Rightarrow> node \<Rightarrow> (btree, unit) act" where
  "save_node E page_id node = seq (of_result (to_bytes E node)) (\<lambda>bs.
     seq (on_wal (wal_enqueue (wenv E) (PageUpdate page_id bs))) (\<lambda>_.
     on_pager (write_page (penv E) page_id bs)))"

definition allocate_page :: "btree_env \<Rightarrow> (btree, u32) act" where
  "allocate_page E = seq (read_st (\<lambda>s. num_pages (bt_pager s))) (\<lambda>id.
     seq (on_pager (write_page (penv E) id (replicate PAGE_SIZE 0))) (\<lambda>_. ret id))"

section \<open>Lookup\<close>

text \<open>The child of an internal node to follow, clamped to the last child.\<close>

definition child_index :: "node \<Rightarrow> bytes \<Rightarrow> nat" where
  "child_index node key =
     (let i = (case binary_search (keys node) key of Inr idx \<Rightarrow> idx + 1 | Inl idx \<Rightarrow> idx)
      in if length (children node) \<le> i then length (children node) - 1 else i)"

partial_function (option) get_from ::
    "btree_env \<Rightarrow> bytes \<Rightarrow> u32 \<Rightarrow> btree \<Rightarrow> ((err + bytes option) \<times> btree) option" where
  "get_from E key current_page_id s = seq (load_node E current_page_id) (\<lambda>node.
     (case node_type node of
        Leaf \<Rightarrow>
          (case binary_search (keys node) key of
             Inr idx \<Rightarrow> seq (of_result (vec_get (vals node) idx)) (\<lambda>v. ret (Some v))
           | Inl _ \<Rightarrow> ret None)
      | Internal \<Rightarrow>
          seq (of_result (vec_get (children node) (child_index node key))) (\<lambda>child.
            get_from E key child))) s"

definition bt_get :: "btree_env \<Rightarrow> bytes \<Rightarrow> (btree, bytes option) act" where
  "bt_get E key s =
     (case mt_get key (memory_tier s) of (cached, m) \<Rightarrow>
        let s = s\<lparr>memory_tier := m\<rparr> in
        (case cached of
           Some val \<Rightarrow> ret (Some val) s
         | None \<Rightarrow> get_from E key (root_page_id s) s))"

section \<open>Insertion\<close>

text \<open>\<open>split_child\<close> changes the parent it is given; the model returns the changed parent.\<close>

definition split_child :: "btree_env \<Rightarrow> node \<Rightarrow> nat \<Rightarrow> u32 \<Rightarrow> (btree, node) act" where
  "split_child E parent i child_id = seq (load_node E child_id) (\<lambda>child.
     let mid = length (keys child) div 2 in
     if node_type child = Leaf then
       seq (of_result (vec_get (keys child) mid)) (\<lambda>mid_key.
       seq (of_result (split_off mid (keys child))) (\<lambda>(lkeys, rkeys).
       seq (of_result (split_off mid (vals child))) (\<lambda>(lvals, rvals).
       let new_node = new_leaf\<lparr>keys := rkeys, vals := rvals, next_leaf := next_leaf child\<rparr> in
       seq (allocate_page E) (\<lambda>new_node_id.
       let child = child\<lparr>keys := lkeys, vals := lvals, next_leaf := Some new_node_id\<rparr> in
       seq (of_result (vec_insert i mid_key (keys parent))) (\<lambda>pkeys.
       seq (of_result (vec_insert (i + 1) new_node_id (children parent))) (\<lambda>pchildren.
       seq (save_node E new_node_id new_node) (\<lambda>_.
       seq (save_node E child_id child) (\<lambda>_.
       ret (parent\<lparr>keys := pkeys, children := pchildren\<rparr>)))))))))
     else
       seq (of_result (vec_remove mid (keys child))) (\<lambda>(mid_key, ckeys).
       seq (of_result (split_off mid ckeys)) (\<lambda>(lkeys, rkeys).
       seq (of_result (split_off (mid + 1) (children child))) (\<lambda>(lchildren, rchildren).
       let new_node = new_internal\<lparr>keys := rkeys, children := rchildren\<rparr> in
       seq (allocate_page E) (\<lambda>new_node_id.
       seq (of_result (vec_insert i mid_key (keys parent))) (\<lambda>pkeys.
       seq (of_result (vec_insert (i + 1) new_node_id (children parent))) (\<lambda>pchildren.
       seq (save_node E new_node_id new_node) (\<lambda>_.
       seq (save_node E child_id (child\<lparr>keys := lkeys, children := lchildren\<rparr>)) (\<lambda>_.
       ret (parent\<lparr>keys := pkeys, children := pchildren\<rparr>))))))))))"

text \<open>The step of \<open>insert_non_full\<close> that splits a full child: the node, and the child to enter.\<close>

definition make_way :: "btree_env \<Rightarrow> bytes \<Rightarrow> node \<Rightarrow> nat \<Rightarrow> u32 \<Rightarrow> node
    \<Rightarrow> (btree, node \<times> u32 \<times> node) act" where
  "make_way E key node i child_id child =
     (if is_full E child then
        seq (split_child E node i child_id) (\<lambda>node.
        seq (of_result (vec_get (keys node) i)) (\<lambda>sep.
        let i = (if sep < key then i + 1 else i) in
        seq (of_result (vec_get (children node) i)) (\<lambda>child_id.
        seq (load_node E child_id) (\<lambda>child.
        ret (node, child_id, child)))))
      else ret (node, child_id, child))"

partial_function (option) insert_non_full ::
    "btree_env \<Rightarrow> bytes \<Rightarrow> bytes \<Rightarrow> u32 \<Rightarrow> node \<Rightarrow> btree \<Rightarrow> ((err + unit) \<times> btree) option" where
  "insert_non_full E key val page_id node s =
     (if node_type node = Leaf then
        (case binary_search (keys node) key of
           Inr idx \<Rightarrow>
             seq (of_result (vec_set idx val (vals node))) (\<lambda>vs.
             save_node E page_id (node\<lparr>vals := vs\<rparr>))
         | Inl idx \<Rightarrow>
             seq (of_result (vec_insert idx key (keys node))) (\<lambda>ks.
             seq (of_result (vec_insert idx val (vals node))) (\<lambda>vs.
             save_node E page_id (node\<lparr>keys := ks, vals := vs\<rparr>)))) s
      else
        let i = child_index node key in
        seq (of_result (vec_get (children node) i)) (\<lambda>child_id.
        seq (load_node E child_id) (\<lambda>child.
        seq (make_way E key node i child_id child) (\<lambda>r.
        seq (insert_non_full E key val (fst (snd r)) (snd (snd r))) (\<lambda>_.
        save_node E page_id (fst r))))) s)"

text \<open>A full root is moved to a new page, split, and its page gets a new root above the halves.\<close>

definition grow_root :: "btree_env \<Rightarrow> u32 \<Rightarrow> node \<Rightarrow> (btree, unit) act" where
  "grow_root E root_id root = seq (allocate_page E) (\<lambda>old_root_id.
     seq (save_node E old_root_id root) (\<lambda>_.
     seq (split_child E (new_internal\<lparr>children := [old_root_id]\<rparr>) 0 old_root_id) (\<lambda>new_root.
     save_node E root_id new_root)))"

definition bt_insert :: "btree_env \<Rightarrow> bytes \<Rightarrow> bytes \<Rightarrow> (btree, unit) act" where
  "bt_insert E key val = seq (read_st root_page_id) (\<lambda>root_id.
     seq (load_node E root_id) (\<lambda>root.
     seq (if is_full E root then
            seq (grow_root E root_id root) (\<lambda>_.
            seq (load_node E root_id) (\<lambda>root.
            insert_non_full E key val root_id root))
          else insert_non_full E key val root_id root) (\<lambda>_.
     on_pager (pager_sync (penv E)))))"

section \<open>Opening the database\<close>

text \<open>The replay of one recovered entry; page data is cut or padded with zeros to a page.\<close>

definition replay :: "btree_env \<Rightarrow> int \<Rightarrow> wal_entry \<Rightarrow> (btree, unit) act" where
  "replay E now entry = (case entry of
      PageUpdate page_id data \<Rightarrow>
        on_pager (write_page (penv E) page_id
          (take PAGE_SIZE data @ replicate (PAGE_SIZE - length data) 0))
    | RecordUpdate key data \<Rightarrow> modify_st (\<lambda>s. s\<lparr>memory_tier := mt_insert now key data (memory_tier s)\<rparr>)
    | _ \<Rightarrow> ret ())"

text \<open>
  \<open>BPlusTree::open\<close> on a database file \<open>f\<close> and the content of the log file. \<open>clock\<close> gives the
  time of each replayed entry. \<open>boots\<close> says whether the pager's thread has read the file
  length when the code calls \<open>num_pages\<close>; the code does not wait for it.
\<close>

definition bt_open :: "btree_env \<Rightarrow> (nat \<Rightarrow> int) \<Rightarrow> bool \<Rightarrow> bytes \<Rightarrow> bytes option \<Rightarrow> mem_tier
    \<Rightarrow> ((err + unit) \<times> btree) option" where
  "bt_open E clock boots f wal_content m =
     (let (entries, w) = wal_read_all (wal_open (wenv E) wal_content) in
      seq (if entries \<noteq> [] then
             seq (for_each (enumerate 0 entries) (\<lambda>(i, entry). replay E (clock i) entry)) (\<lambda>_.
             on_pager (pager_sync (penv E)))
           else ret ()) (\<lambda>_.
      seq (modify_st (\<lambda>s. if boots then s\<lparr>bt_pager := pager_boot (bt_pager s)\<rparr> else s)) (\<lambda>_.
      seq (read_st (\<lambda>s. num_pages (bt_pager s))) (\<lambda>n.
      if n = 0 then
        seq (of_result (to_bytes E new_leaf)) (\<lambda>bs.
        seq (on_pager (write_page (penv E) 0 bs)) (\<lambda>_.
        on_pager (pager_sync (penv E))))
      else ret ())))
      \<lparr>bt_pager = pager_open f, bt_wal = w, root_page_id = 0, memory_tier = m\<rparr>)"

end
