(* ===== verification/Btree_Spec.thy ===== *)
theory Btree_Spec
  imports Btree
begin

text \<open>
  The B+tree as a value. A \<open>ptree\<close> is the tree of nodes reachable from a page, each with its
  page number. \<open>pt_insert\<close> is insertion on such trees, following the code's algorithm but
  without pages, logs and errors; \<open>okt\<close> is the search-tree invariant and \<open>entries\<close> the content.
  This theory proves insertion correct on trees; \<open>Btree_Refine\<close> proves that the code on pages
  implements it.
\<close>

section \<open>Trees\<close>

datatype ptree =
    PLeaf u32 "bytes list" "bytes list" "u32 option"
  | PNode u32 "bytes list" "ptree list"

primrec tid :: "ptree \<Rightarrow> u32" where
  "tid (PLeaf p ks vs nx) = p"
| "tid (PNode p ks ts) = p"

primrec with_tid :: "u32 \<Rightarrow> ptree \<Rightarrow> ptree" where
  "with_tid q (PLeaf p ks vs nx) = PLeaf q ks vs nx"
| "with_tid q (PNode p ks ts) = PNode q ks ts"

primrec node_of :: "ptree \<Rightarrow> node" where
  "node_of (PLeaf p ks vs nx) = new_leaf\<lparr>keys := ks, vals := vs, next_leaf := nx\<rparr>"
| "node_of (PNode p ks ts) = new_internal\<lparr>keys := ks, children := map tid ts\<rparr>"

primrec entries :: "ptree \<Rightarrow> (bytes \<times> bytes) list" where
  "entries (PLeaf p ks vs nx) = zip ks vs"
| "entries (PNode p ks ts) = concat (map entries ts)"

primrec pages_of :: "ptree \<Rightarrow> u32 list" where
  "pages_of (PLeaf p ks vs nx) = [p]"
| "pages_of (PNode p ks ts) = p # concat (map pages_of ts)"

primrec height :: "ptree \<Rightarrow> nat" where
  "height (PLeaf p ks vs nx) = 0"
| "height (PNode p ks ts) = Suc (foldr max (map height ts) 0)"

lemma foldr_max_le: "foldr max xs (0::nat) \<le> m \<longleftrightarrow> (\<forall>x \<in> set xs. x \<le> m)"
  by (induction xs) auto

lemma foldr_max_mono: "set xs \<subseteq> set ys \<Longrightarrow> foldr max xs (0::nat) \<le> foldr max ys 0"
  using foldr_max_le [of ys "foldr max ys 0"] by (auto simp: foldr_max_le)

lemma height_child: "t \<in> set ts \<Longrightarrow> height t < height (PNode p ks ts)"
  using foldr_max_le [of "map height ts" "foldr max (map height ts) 0"] by (auto simp: less_Suc_eq_le)

lemma tid_in_pages: "tid t \<in> set (pages_of t)"
  by (cases t) auto

section \<open>The search-tree invariant\<close>

text \<open>Bounds of a key range: \<open>None\<close> is no bound. Lower bounds are inclusive for the keys of a
  leaf, strict for separators; upper bounds are strict.\<close>

definition from_lo :: "bytes option \<Rightarrow> bytes \<Rightarrow> bool" where
  "from_lo lo k = (case lo of None \<Rightarrow> True | Some l \<Rightarrow> l \<le> k)"

definition past_lo :: "bytes option \<Rightarrow> bytes \<Rightarrow> bool" where
  "past_lo lo k = (case lo of None \<Rightarrow> True | Some l \<Rightarrow> l < k)"

definition below :: "bytes option \<Rightarrow> bytes \<Rightarrow> bool" where
  "below hi k = (case hi of None \<Rightarrow> True | Some h \<Rightarrow> k < h)"

lemma bounds_simps [simp]:
  "from_lo None k" "from_lo (Some l) k \<longleftrightarrow> l \<le> k" "past_lo None k" "past_lo (Some l) k \<longleftrightarrow> l < k"
  "below None k" "below (Some h) k \<longleftrightarrow> k < h"
  by (simp_all add: from_lo_def past_lo_def below_def)

lemma past_from_lo: "past_lo lo k \<Longrightarrow> from_lo lo k"
  by (cases lo) auto

text \<open>The range of child \<open>i\<close> of a node with separators \<open>ks\<close>.\<close>

definition lo_of :: "bytes option \<Rightarrow> bytes list \<Rightarrow> nat \<Rightarrow> bytes option" where
  "lo_of lo ks i = (if i = 0 then lo else Some (ks ! (i - 1)))"

definition hi_of :: "bytes list \<Rightarrow> bytes option \<Rightarrow> nat \<Rightarrow> bytes option" where
  "hi_of ks hi i = (if i < length ks then Some (ks ! i) else hi)"

primrec okt :: "ptree \<Rightarrow> bytes option \<Rightarrow> bytes option \<Rightarrow> bool" where
  "okt (PLeaf p ks vs nx) = (\<lambda>lo hi. length vs = length ks \<and> sorted_wrt (<) ks
     \<and> (\<forall>k \<in> set ks. from_lo lo k \<and> below hi k))"
| "okt (PNode p ks ts) = (\<lambda>lo hi. length ts = Suc (length ks) \<and> sorted_wrt (<) ks
     \<and> (\<forall>k \<in> set ks. past_lo lo k \<and> below hi k)
     \<and> (\<forall>i < length ts. (map okt ts ! i) (lo_of lo ks i) (hi_of ks hi i)))"

lemma okt_node [simp]:
  "okt (PNode p ks ts) lo hi \<longleftrightarrow> length ts = Suc (length ks) \<and> sorted_wrt (<) ks
     \<and> (\<forall>k \<in> set ks. past_lo lo k \<and> below hi k)
     \<and> (\<forall>i < length ts. okt (ts ! i) (lo_of lo ks i) (hi_of ks hi i))"
  by auto

declare okt.simps(2) [simp del]

lemma okt_child:
  "okt (PNode p ks ts) lo hi \<Longrightarrow> i < length ts \<Longrightarrow> okt (ts ! i) (lo_of lo ks i) (hi_of ks hi i)"
  by simp

lemma from_lo_of:
  assumes "\<forall>k \<in> set ks. past_lo lo k" and "i \<le> length ks" and "from_lo (lo_of lo ks i) k"
  shows "from_lo lo k"
proof (cases i)
  case (Suc j)
  with assms have "past_lo lo (ks ! j)" "ks ! j \<le> k" by (auto simp: lo_of_def)
  then show ?thesis by (cases lo) auto
qed (use assms in \<open>simp add: lo_of_def\<close>)

lemma below_hi_of:
  assumes "\<forall>k \<in> set ks. below hi k" and "below (hi_of ks hi i) k"
  shows "below hi k"
proof (cases "i < length ks")
  case True
  with assms have "below hi (ks ! i)" "k < ks ! i" by (auto simp: hi_of_def)
  then show ?thesis by (cases hi) auto
qed (use assms in \<open>simp add: hi_of_def\<close>)

lemma entries_in_range:
  "okt t lo hi \<Longrightarrow> (k, v) \<in> set (entries t) \<Longrightarrow> from_lo lo k \<and> below hi k"
proof (induction t arbitrary: lo hi)
  case (PLeaf p ks vs nx)
  then show ?case by (auto dest: set_zip_leftD)
next
  case (PNode p ks ts)
  then obtain t where "t \<in> set ts" "(k, v) \<in> set (entries t)" by auto
  then obtain i where i: "i < length ts" "(k, v) \<in> set (entries (ts ! i))"
    by (metis in_set_conv_nth)
  with PNode.prems okt_child PNode.IH [of "ts ! i"]
  have "from_lo (lo_of lo ks i) k \<and> below (hi_of ks hi i) k" by (metis nth_mem)
  with PNode.prems(1) i(1) show ?case
    using from_lo_of [of ks lo i k] below_hi_of [of ks hi i k] by auto
qed

section \<open>The child that a key belongs to\<close>

definition slot :: "bytes list \<Rightarrow> bytes \<Rightarrow> nat" where
  "slot ks key = (case binary_search ks key of Inr i \<Rightarrow> i + 1 | Inl i \<Rightarrow> i)"

lemma slot_le: "sorted_wrt (<) ks \<Longrightarrow> slot ks key \<le> length ks"
  using rank_le [of ks key]
  by (auto simp: slot_def binary_search_sorted mem_iff_rank)

lemma nth_before_slot:
  assumes "sorted_wrt (<) ks" and "j < slot ks key"
  shows "ks ! j \<le> key"
  using assms nth_less_rank [of j ks key] mem_iff_rank [OF assms(1), of key]
  by (cases "j = rank ks key") (auto simp: slot_def binary_search_sorted split: if_splits)

lemma nth_from_slot:
  assumes "sorted_wrt (<) ks" and "slot ks key \<le> j" and "j < length ks"
  shows "key < ks ! j"
proof -
  have "key \<le> ks ! j"
    using assms nth_ge_rank [OF assms(1), of key j]
    by (auto simp: slot_def binary_search_sorted split: if_splits)
  moreover have "ks ! j \<noteq> key"
  proof
    assume eq: "ks ! j = key"
    then have "key \<in> set ks" using assms(3) nth_mem by blast
    with assms have "rank ks key < j" "ks ! rank ks key = key"
      by (auto simp: slot_def binary_search_sorted mem_iff_rank)
    with eq assms(3) sorted_wrt_nth_less [OF assms(1), of "rank ks key" j] show False by simp
  qed
  ultimately show ?thesis by simp
qed

lemma slotI:
  assumes "sorted_wrt (<) ks" and "i \<le> length ks" and "0 < i \<Longrightarrow> ks ! (i - 1) \<le> key"
    and "i < length ks \<Longrightarrow> key < ks ! i"
  shows "slot ks key = i"
proof (rule linorder_cases [of "slot ks key" i])
  assume "slot ks key < i"
  then have "key < ks ! (i - 1)" using nth_from_slot [OF assms(1)] assms(2) by simp
  with assms(3) \<open>slot ks key < i\<close> show ?thesis by simp
next
  assume "i < slot ks key"
  then have "ks ! i \<le> key" "i < length ks"
    using slot_le [OF assms(1), of key] nth_before_slot [OF assms(1)] by auto
  with assms(4) show ?thesis by simp
qed simp

lemma slot_in_range:
  assumes "sorted_wrt (<) ks" and "from_lo lo key" and "below hi key"
  shows "from_lo (lo_of lo ks (slot ks key)) key" "below (hi_of ks hi (slot ks key)) key"
  using assms(2,3) nth_before_slot [OF assms(1), of "slot ks key - 1" key]
    nth_from_slot [OF assms(1), of key "slot ks key"]
  by (auto simp: lo_of_def hi_of_def)

lemma map_of_concat_none:
  assumes "\<And>xs. xs \<in> set xss \<Longrightarrow> k \<notin> fst ` set xs"
  shows "map_of (concat xss) k = None"
  using assms by (auto simp: map_of_eq_None_iff)

lemma map_of_concat_one:
  assumes "i < length xss" and "\<And>j. j < length xss \<Longrightarrow> j \<noteq> i \<Longrightarrow> k \<notin> fst ` set (xss ! j)"
  shows "map_of (concat xss) k = map_of (xss ! i) k"
proof -
  have "concat xss = concat (take i xss) @ xss ! i @ concat (drop (Suc i) xss)"
    using id_take_nth_drop [OF assms(1)] by (metis concat.simps(2) concat_append)
  moreover have "map_of (concat (take i xss)) k = None"
  proof (rule map_of_concat_none)
    fix xs
    assume "xs \<in> set (take i xss)"
    then obtain j where "j < i" "xs = xss ! j" using assms(1) by (auto simp: in_set_conv_nth)
    with assms show "k \<notin> fst ` set xs" by simp
  qed
  moreover have "map_of (concat (drop (Suc i) xss)) k = None"
  proof (rule map_of_concat_none)
    fix xs
    assume "xs \<in> set (drop (Suc i) xss)"
    then obtain j where "j < length xss - Suc i" "xs = xss ! (Suc i + j)"
      by (auto simp: in_set_conv_nth)
    with assms(2) [of "Suc i + j"] show "k \<notin> fst ` set xs" by simp
  qed
  ultimately show ?thesis
    by (simp add: map_add_def split: option.split)
qed

text \<open>A key of the node's range can only be in the child its slot names.\<close>

lemma key_in_slot:
  assumes "okt (PNode p ks ts) lo hi" and "j < length ts" and "key \<in> fst ` set (entries (ts ! j))"
  shows "j = slot ks key"
proof -
  obtain v where v: "(key, v) \<in> set (entries (ts ! j))" using assms(3) by auto
  have s: "sorted_wrt (<) ks" and l: "length ts = Suc (length ks)" using assms(1) by auto
  have r: "from_lo (lo_of lo ks j) key" "below (hi_of ks hi j) key"
    using entries_in_range [OF okt_child [OF assms(1,2)] v] by auto
  show ?thesis
    using r l assms(2) by (intro slotI [OF s, symmetric]) (auto simp: lo_of_def hi_of_def)
qed

lemma lookup_node:
  assumes "okt (PNode p ks ts) lo hi"
  shows "map_of (entries (PNode p ks ts)) key = map_of (entries (ts ! slot ks key)) key"
proof -
  have l: "slot ks key < length ts"
    using assms slot_le [of ks key] by (auto simp: less_Suc_eq_le)
  have "map_of (concat (map entries ts)) key = map_of (map entries ts ! slot ks key) key"
  proof (rule map_of_concat_one)
    fix j
    assume "j < length (map entries ts)" "j \<noteq> slot ks key"
    then show "key \<notin> fst ` set (map entries ts ! j)" using key_in_slot [OF assms, of j key] by auto
  qed (use l in simp)
  with l show ?thesis by simp
qed

section \<open>Splitting a node\<close>

fun pt_split :: "u32 \<Rightarrow> ptree \<Rightarrow> ptree \<times> bytes \<times> ptree" where
  "pt_split q (PLeaf p ks vs nx) = (let mid = length ks div 2 in
     (PLeaf p (take mid ks) (take mid vs) (Some q), ks ! mid,
      PLeaf q (drop mid ks) (drop mid vs) nx))"
| "pt_split q (PNode p ks ts) = (let mid = length ks div 2 in
     (PNode p (take mid ks) (take (mid + 1) ts), ks ! mid,
      PNode q (drop (mid + 1) ks) (drop (mid + 1) ts)))"

text \<open>The split separates: both halves of a leaf have a key, an inner node has a separator.\<close>

fun splittable :: "ptree \<Rightarrow> bool" where
  "splittable (PLeaf p ks vs nx) \<longleftrightarrow> 2 \<le> length ks"
| "splittable (PNode p ks ts) \<longleftrightarrow> ks \<noteq> []"

lemma split_entries:
  "pt_split q t = (l, m, r) \<Longrightarrow> entries l @ entries r = entries t"
proof (cases t)
  case (PLeaf p ks vs nx)
  assume "pt_split q t = (l, m, r)"
  with PLeaf have "entries l = take (length ks div 2) (zip ks vs)"
    "entries r = drop (length ks div 2) (zip ks vs)" "entries t = zip ks vs"
    by (auto simp: Let_def take_zip drop_zip)
  then show ?thesis by simp
next
  case (PNode p ks ts)
  assume "pt_split q t = (l, m, r)"
  with PNode show ?thesis
    by (auto simp: Let_def simp flip: concat_append map_append)
qed

lemma split_okt:
  assumes "okt t lo hi" and "splittable t" and "pt_split q t = (l, m, r)"
  shows "okt l lo (Some m) \<and> okt r (Some m) hi \<and> past_lo lo m \<and> below hi m"
proof (cases t)
  case (PLeaf p ks vs nx)
  let ?mid = "length ks div 2"
  have s: "sorted_wrt (<) ks" and len: "length vs = length ks"
    and rng: "\<And>k. k \<in> set ks \<Longrightarrow> from_lo lo k \<and> below hi k"
    using assms(1) PLeaf by auto
  have mid: "0 < ?mid" "?mid < length ks" using assms(2) PLeaf by auto
  have m: "m = ks ! ?mid" and l: "l = PLeaf p (take ?mid ks) (take ?mid vs) (Some q)"
    and r: "r = PLeaf q (drop ?mid ks) (drop ?mid vs) nx"
    using assms(3) PLeaf by (auto simp: Let_def)
  have "ks ! 0 < m" using s mid m by (simp add: sorted_wrt_nth_less)
  moreover have "from_lo lo (ks ! 0)" using mid by (intro conjunct1 [OF rng] nth_mem) linarith
  ultimately have "past_lo lo m" by (cases lo) auto
  moreover have "below hi m" using rng mid m by simp
  moreover have "okt l lo (Some m)"
  proof -
    have "k < m" if k: "k \<in> set (take ?mid ks)" for k
    proof -
      obtain j where "j < ?mid" "k = ks ! j" using k by (auto simp: in_set_conv_nth)
      with s mid m show ?thesis by (simp add: sorted_wrt_nth_less)
    qed
    with s len rng show ?thesis by (auto simp: l sorted_wrt_take dest: in_set_takeD)
  qed
  moreover have "okt r (Some m) hi"
  proof -
    have "m \<le> k" if k: "k \<in> set (drop ?mid ks)" for k
    proof -
      obtain j where "j < length ks - ?mid" "k = ks ! (?mid + j)" using k by (auto simp: in_set_conv_nth)
      with s mid m show ?thesis
        using sorted_wrt_nth_less [OF s, of ?mid "?mid + j"]
        by (cases "j = 0") (auto intro: less_imp_le)
    qed
    with s len rng show ?thesis by (auto simp: r sorted_wrt_drop dest: in_set_dropD)
  qed
  ultimately show ?thesis by simp
next
  case (PNode p ks ts)
  let ?mid = "length ks div 2"
  have s: "sorted_wrt (<) ks" and len: "length ts = Suc (length ks)"
    and rng: "\<And>k. k \<in> set ks \<Longrightarrow> past_lo lo k \<and> below hi k"
    and ch: "\<And>i. i < length ts \<Longrightarrow> okt (ts ! i) (lo_of lo ks i) (hi_of ks hi i)"
    using assms(1) PNode by auto
  have mid: "?mid < length ks" using assms(2) PNode by auto
  have m: "m = ks ! ?mid" and l: "l = PNode p (take ?mid ks) (take (Suc ?mid) ts)"
    and r: "r = PNode q (drop (Suc ?mid) ks) (drop (Suc ?mid) ts)"
    using assms(3) PNode by (auto simp: Let_def)
  have "past_lo lo m" "below hi m" using rng mid m by auto
  moreover have "okt l lo (Some m)"
  proof -
    have "k < m" if k: "k \<in> set (take ?mid ks)" for k
    proof -
      obtain j where "j < ?mid" "k = ks ! j" using k by (auto simp: in_set_conv_nth)
      with s mid m show ?thesis by (simp add: sorted_wrt_nth_less)
    qed
    moreover have "okt (take (Suc ?mid) ts ! i) (lo_of lo (take ?mid ks) i)
        (hi_of (take ?mid ks) (Some m) i)" if "i < Suc ?mid" for i
      using ch [of i] that mid len m by (cases "i = ?mid") (auto simp: lo_of_def hi_of_def)
    ultimately show ?thesis
      using s len rng mid by (auto simp: l sorted_wrt_take min_def dest: in_set_takeD)
  qed
  moreover have "okt r (Some m) hi"
  proof -
    have "m < k" if k: "k \<in> set (drop (Suc ?mid) ks)" for k
    proof -
      obtain j where "j < length ks - Suc ?mid" "k = ks ! (Suc ?mid + j)"
        using k by (auto simp: in_set_conv_nth)
      with s mid m show ?thesis by (simp add: sorted_wrt_nth_less)
    qed
    moreover have "okt (drop (Suc ?mid) ts ! i) (lo_of (Some m) (drop (Suc ?mid) ks) i)
        (hi_of (drop (Suc ?mid) ks) hi i)" if "i < length ts - Suc ?mid" for i
      using ch [of "Suc ?mid + i"] that mid len m
      by (cases i) (auto simp: lo_of_def hi_of_def less_diff_conv add.commute)
    ultimately show ?thesis
      using s len rng mid by (auto simp: r sorted_wrt_drop dest: in_set_dropD)
  qed
  ultimately show ?thesis by simp
qed

section \<open>Insertion\<close>

text \<open>
  One step down: the separators, children and position after splitting the child the key
  belongs to when it is full, and the next free page. The position compares the new
  separator with \<open><\<close>, as the code does.
\<close>

definition pt_step :: "(node \<Rightarrow> bool) \<Rightarrow> bytes \<Rightarrow> nat \<Rightarrow> bytes list \<Rightarrow> ptree list
    \<Rightarrow> bytes list \<times> ptree list \<times> nat \<times> nat" where
  "pt_step full key n ks ts =
     (let i = slot ks key; child = ts ! i
      in if full (node_of child) then
           (case pt_split (of_nat n) child of (l, m, r) \<Rightarrow>
             (ins_at i m ks, take i ts @ [l, r] @ drop (Suc i) ts, if m < key then i + 1 else i, n + 1))
         else (ks, ts, i, n))"

lemma height_split:
  assumes "pt_split q t = (l, m, r)"
  shows "height l \<le> height t" "height r \<le> height t"
proof -
  have "foldr max (map height (take k ts)) 0 \<le> foldr max (map height ts) 0"
    "foldr max (map height (drop k ts)) 0 \<le> foldr max (map height ts) 0" for k ts
    by (intro foldr_max_mono; auto dest: in_set_takeD in_set_dropD)+
  with assms show "height l \<le> height t" "height r \<le> height t"
    by (cases t; auto simp: Let_def)+
qed

lemma pt_step_height:
  assumes "pt_step full key n ks ts = (ks', ts', i, n')" and "slot ks key < length ts"
    and "t \<in> set ts'"
  shows "height t < height (PNode p ks ts)"
proof -
  let ?c = "ts ! slot ks key"
  have c: "?c \<in> set ts" using assms(2) by simp
  have "t \<in> set ts \<or> (\<exists>l m r. pt_split (of_nat n) ?c = (l, m, r) \<and> (t = l \<or> t = r))"
    using assms by (auto simp: pt_step_def Let_def split: if_splits prod.splits
        dest: in_set_takeD in_set_dropD)
  then show ?thesis
  proof (elim disjE exE conjE)
    assume "t \<in> set ts"
    then show ?thesis by (rule height_child)
  next
    fix l m r
    assume sp: "pt_split (of_nat n) ?c = (l, m, r)"
    show "t = l \<Longrightarrow> ?thesis" "t = r \<Longrightarrow> ?thesis"
      using height_split [OF sp] height_child [OF c, of p ks] by simp_all
  qed
qed

text \<open>
  Insertion below a node that is not full: the new tree and the next free page. The guard
  only covers malformed nodes (the code would panic there).
\<close>

function pt_ins :: "(node \<Rightarrow> bool) \<Rightarrow> bytes \<Rightarrow> bytes \<Rightarrow> nat \<Rightarrow> ptree \<Rightarrow> ptree \<times> nat" where
  "pt_ins full key val n (PLeaf p ks vs nx) =
     (case binary_search ks key of
        Inr idx \<Rightarrow> (PLeaf p ks (vs[idx := val]) nx, n)
      | Inl idx \<Rightarrow> (PLeaf p (ins_at idx key ks) (ins_at idx val vs) nx, n))"
| "pt_ins full key val n (PNode p ks ts) =
     (case pt_step full key n ks ts of (ks', ts', i, n') \<Rightarrow>
        if slot ks key < length ts \<and> i < length ts' then
          (case pt_ins full key val n' (ts' ! i) of (c, n'') \<Rightarrow> (PNode p ks' (ts'[i := c]), n''))
        else (PNode p ks ts, n))"
  by pat_completeness auto
termination
  by (relation "measure (\<lambda>(full, key, val, n, t). height t)")
    (auto simp del: height.simps intro!: pt_step_height [OF sym])

text \<open>
  No split on the path of the key takes the key itself as the separator, and every node that
  is split can be separated.
\<close>

declare conj_cong [fundef_cong]

function clean :: "(node \<Rightarrow> bool) \<Rightarrow> bytes \<Rightarrow> nat \<Rightarrow> ptree \<Rightarrow> bool" where
  "clean full key n (PLeaf p ks vs nx) \<longleftrightarrow> True"
| "clean full key n (PNode p ks ts) \<longleftrightarrow>
     (case pt_step full key n ks ts of (ks', ts', i, n') \<Rightarrow>
        slot ks key < length ts
        \<and> (full (node_of (ts ! slot ks key)) \<longrightarrow> splittable (ts ! slot ks key)
             \<and> fst (snd (pt_split (of_nat n) (ts ! slot ks key))) \<noteq> key)
        \<and> i < length ts' \<and> clean full key n' (ts' ! i))"
  by pat_completeness auto
termination
  by (relation "measure (\<lambda>(full, key, n, t). height t)")
    (auto simp del: height.simps intro!: pt_step_height [OF sym])

declare pt_ins.simps(2) [simp del] clean.simps(2) [simp del]

section \<open>One step down keeps the tree and finds the key's child\<close>

lemma insert_sorted:
  fixes ks :: "bytes list"
  assumes "sorted_wrt (<) ks" and "i \<le> length ks"
    and "0 < i \<Longrightarrow> ks ! (i - 1) < m" and "i < length ks \<Longrightarrow> m < ks ! i"
  shows "sorted_wrt (<) (ins_at i m ks)"
proof -
  have "x < m" if x: "x \<in> set (take i ks)" for x
  proof -
    obtain j where "j < i" "x = ks ! j" using x assms(2) by (auto simp: in_set_conv_nth)
    have "ks ! j \<le> ks ! (i - 1)"
    proof (cases "j = i - 1")
      case False
      with \<open>j < i\<close> have "j < i - 1" by linarith
      moreover from this have "i - 1 < length ks" using assms(2) by linarith
      ultimately show ?thesis
        using sorted_wrt_nth_less [OF assms(1), of j "i - 1"] by (simp add: less_imp_le)
    qed simp
    with assms(3) \<open>j < i\<close> \<open>x = ks ! j\<close> show ?thesis by auto
  qed
  moreover have "m < x" if x: "x \<in> set (drop i ks)" for x
  proof -
    obtain j where "j < length ks - i" "x = ks ! (i + j)" using x by (auto simp: in_set_conv_nth)
    moreover from this have "i + j < length ks" by linarith
    moreover from this have "m < ks ! i" using assms(4) by simp
    ultimately show ?thesis
      using sorted_wrt_nth_less [OF assms(1), of i "i + j"] by (cases "j = 0") auto
  qed
  moreover have "x < y" if "x \<in> set (take i ks)" "y \<in> set (drop i ks)" for x y
    using that calculation by (meson less_trans)
  ultimately show ?thesis
    using assms(1) by (simp add: ins_at_def sorted_wrt_append sorted_wrt_take sorted_wrt_drop)
qed

lemma split_node_okt:
  assumes ok: "okt (PNode p ks ts) lo hi" and i: "i < length ts"
    and spl: "splittable (ts ! i)" and sp: "pt_split q (ts ! i) = (l, m, r)"
  shows "okt (PNode p (ins_at i m ks) (take i ts @ [l, r] @ drop (Suc i) ts)) lo hi"
proof -
  have s: "sorted_wrt (<) ks" and len: "length ts = Suc (length ks)"
    and rng: "\<And>k. k \<in> set ks \<Longrightarrow> past_lo lo k \<and> below hi k"
    and ch: "\<And>i. i < length ts \<Longrightarrow> okt (ts ! i) (lo_of lo ks i) (hi_of ks hi i)"
    using ok by auto
  have ile: "i \<le> length ks" using i len by simp
  have h: "okt l (lo_of lo ks i) (Some m)" "okt r (Some m) (hi_of ks hi i)"
    "past_lo (lo_of lo ks i) m" "below (hi_of ks hi i) m"
    using split_okt [OF ch [OF i] spl sp] by auto
  have m_lo: "ks ! (i - 1) < m" if "0 < i" using h(3) that by (simp add: lo_of_def)
  have m_hi: "m < ks ! i" if "i < length ks" using h(4) that by (simp add: hi_of_def)
  have "past_lo lo m"
    using h(3) rng [of "ks ! (i - 1)"] m_lo ile
    by (cases "i = 0") (auto simp: lo_of_def past_lo_def split: option.splits intro: less_trans)
  moreover have "below hi m"
    using h(4) rng [of "ks ! i"] m_hi ile
    by (cases "i < length ks") (auto simp: hi_of_def below_def split: option.splits intro: less_trans)
  moreover have "sorted_wrt (<) (ins_at i m ks)"
    by (rule insert_sorted [OF s ile m_lo m_hi])
  moreover have "okt ((take i ts @ [l, r] @ drop (Suc i) ts) ! j)
      (lo_of lo (ins_at i m ks) j) (hi_of (ins_at i m ks) hi j)" if j: "j < Suc (length ts)" for j
  proof -
    consider "j < i" | "j = i" | "j = Suc i" | "Suc i < j" by linarith
    then show ?thesis
    proof cases
      case 1
      with i len ch [of j] show ?thesis
        by (auto simp: nth_append lo_of_def hi_of_def nth_ins_at)
    next
      case 2
      with i ile h(1) show ?thesis
        by (auto simp: nth_append lo_of_def hi_of_def nth_ins_at)
    next
      case 3
      with i ile h(2) show ?thesis
        by (auto simp: nth_append lo_of_def hi_of_def nth_ins_at)
    next
      case 4
      then obtain d where d: "j = Suc (Suc (i + d))" using less_iff_Suc_add by auto
      with j have "Suc (i + d) < length ts" by simp
      with d i ile len ch [of "Suc (i + d)"] show ?thesis
        by (auto simp: nth_append lo_of_def hi_of_def nth_ins_at)
    qed
  qed
  ultimately show ?thesis
    using rng i len by (auto simp: less_Suc_eq_le)
qed

lemma pt_step_spec:
  assumes ok: "okt (PNode p ks ts) lo hi" and st: "pt_step full key n ks ts = (ks', ts', i, n')"
    and cl: "full (node_of (ts ! slot ks key)) \<Longrightarrow> splittable (ts ! slot ks key)
      \<and> fst (snd (pt_split (of_nat n) (ts ! slot ks key))) \<noteq> key"
  shows "okt (PNode p ks' ts') lo hi \<and> concat (map entries ts') = concat (map entries ts)
    \<and> i = slot ks' key \<and> i < length ts'"
proof (cases "full (node_of (ts ! slot ks key))")
  case False
  with st ok slot_le [of ks key] show ?thesis by (auto simp: pt_step_def Let_def less_Suc_eq_le)
next
  case True
  let ?i = "slot ks key"
  obtain l m r where sp: "pt_split (of_nat n) (ts ! ?i) = (l, m, r)"
    by (cases "pt_split (of_nat n) (ts ! ?i)")
  have spl: "splittable (ts ! ?i)" and neq: "m \<noteq> key" using cl [OF True] sp by auto
  have s: "sorted_wrt (<) ks" and len: "length ts = Suc (length ks)" using ok by auto
  have ilen: "?i \<le> length ks" by (rule slot_le [OF s])
  then have il: "?i < length ts" using len by simp
  have ks': "ks' = ins_at ?i m ks" and ts': "ts' = take ?i ts @ [l, r] @ drop (Suc ?i) ts"
    and i: "i = (if m < key then Suc ?i else ?i)"
    using st True sp by (auto simp: pt_step_def Let_def)
  have ok': "okt (PNode p ks' ts') lo hi"
    unfolding ks' ts' by (rule split_node_okt [OF ok il spl sp])
  have "concat (map entries ts') = concat (map entries (take ?i ts)) @ entries (ts ! ?i)
      @ concat (map entries (drop (Suc ?i) ts))"
    unfolding ts' using split_entries [OF sp] by simp
  also have "\<dots> = concat (map entries (take ?i ts @ ts ! ?i # drop (Suc ?i) ts))" by simp
  also have "\<dots> = concat (map entries ts)" using id_take_nth_drop [OF il] by simp
  finally have e: "concat (map entries ts') = concat (map entries ts)" .
  have s': "sorted_wrt (<) (ins_at ?i m ks)" using ok' ks' by simp
  have "slot ks' key = i"
    unfolding ks' i
    using neq ilen nth_before_slot [OF s, of "?i - 1" key] nth_from_slot [OF s, of key ?i]
    by (intro slotI [OF s']) (auto simp: nth_ins_at split: if_splits)
  with ok' e i il ts' show ?thesis by auto
qed

section \<open>Insertion keeps the invariant and updates one key\<close>

lemma map_of_list_update:
  "distinct (map fst xs) \<Longrightarrow> i < length xs \<Longrightarrow> fst (xs ! i) = k \<Longrightarrow>
   map_of (xs[i := (k, v)]) = (map_of xs)(k \<mapsto> v)"
proof (induction xs arbitrary: i)
  case (Cons x xs)
  then show ?case
    by (cases i) (auto simp: fun_eq_iff image_iff, (metis nth_mem)+)
qed simp

lemma map_of_insert:
  "k \<notin> fst ` set xs \<Longrightarrow> map_of (xs @ (k, v) # ys) = (map_of (xs @ ys))(k \<mapsto> v)"
  by (induction xs) (auto simp: fun_eq_iff)

lemma pt_ins_leaf:
  assumes "okt (PLeaf p ks vs nx) lo hi" and "from_lo lo key" and "below hi key"
    and "pt_ins full key val n (PLeaf p ks vs nx) = (t', n')"
  shows "okt t' lo hi \<and> map_of (entries t') = (map_of (zip ks vs))(key \<mapsto> val)"
proof -
  let ?r = "rank ks key"
  have s: "sorted_wrt (<) ks" and len: "length vs = length ks"
    and rng: "\<forall>k \<in> set ks. from_lo lo k \<and> below hi k"
    using assms(1) by auto
  have d: "distinct ks" using s by (simp add: strict_sorted_iff)
  show ?thesis
  proof (cases "key \<in> set ks")
    case True
    then have r: "?r < length ks" "ks ! ?r = key" using mem_iff_rank [OF s] by auto
    have "zip ks (vs[?r := val]) = (zip ks vs)[?r := (key, val)]"
      using r zip_update [of ks ?r key vs val] by (metis list_update_id)
    moreover have "map_of ((zip ks vs)[?r := (key, val)]) = (map_of (zip ks vs))(key \<mapsto> val)"
      using r d len by (intro map_of_list_update) simp_all
    ultimately show ?thesis
      using assms(4) True s len rng by (auto simp: binary_search_sorted [OF s])
  next
    case False
    have "zip (ins_at ?r key ks) (ins_at ?r val vs)
        = zip (take ?r ks) (take ?r vs) @ (key, val) # zip (drop ?r ks) (drop ?r vs)"
      using len by (simp add: ins_at_def)
    moreover have "zip ks vs = zip (take ?r ks) (take ?r vs) @ zip (drop ?r ks) (drop ?r vs)"
      using len by (simp flip: zip_append)
    moreover have "key \<notin> fst ` set (zip (take ?r ks) (take ?r vs))"
      using False by (auto dest!: set_zip_leftD in_set_takeD)
    ultimately have "map_of (zip (ins_at ?r key ks) (ins_at ?r val vs))
        = (map_of (zip ks vs))(key \<mapsto> val)"
      using map_of_insert by metis
    moreover have "sorted_wrt (<) (ins_at ?r key ks)"
      using nth_less_rank [of "?r - 1" ks key] nth_rank [of ks key] False
      by (intro insert_sorted [OF s]) (auto, metis antisym_conv3 nth_mem)
    ultimately show ?thesis
      using assms False len rng by (auto simp: binary_search_sorted [OF s])
  qed
qed

lemma replace_child:
  assumes ok: "okt (PNode p ks ts) lo hi"
    and c: "okt c (lo_of lo ks (slot ks key)) (hi_of ks hi (slot ks key))"
    and m: "map_of (entries c) = (map_of (entries (ts ! slot ks key)))(key \<mapsto> val)"
  shows "okt (PNode p ks (ts[slot ks key := c])) lo hi
    \<and> map_of (entries (PNode p ks (ts[slot ks key := c])))
      = (map_of (entries (PNode p ks ts)))(key \<mapsto> val)"
proof -
  let ?i = "slot ks key" and ?ts = "ts[slot ks key := c]"
  have "?i < length ts" using ok slot_le [of ks key] by (auto simp: less_Suc_eq_le)
  have "okt (?ts ! i) (lo_of lo ks i) (hi_of ks hi i)" if "i < length ts" for i
    using okt_child [OF ok that] c that by (cases "i = ?i") auto
  then have ok': "okt (PNode p ks ?ts) lo hi"
    using ok by auto
  have "map_of (entries (PNode p ks ?ts)) k = ((map_of (entries (PNode p ks ts)))(key \<mapsto> val)) k" for k
    unfolding lookup_node [OF ok'] fun_upd_apply lookup_node [OF ok]
    using m \<open>?i < length ts\<close> by (cases "slot ks k = ?i") (auto simp: nth_list_update)
  with ok' show ?thesis by blast
qed

lemma pt_ins_spec:
  assumes "okt t lo hi" and "from_lo lo key" and "below hi key" and "clean full key n t"
  shows "okt (fst (pt_ins full key val n t)) lo hi
    \<and> map_of (entries (fst (pt_ins full key val n t))) = (map_of (entries t))(key \<mapsto> val)"
  using assms
proof (induction full key n t arbitrary: lo hi rule: clean.induct)
  case (1 full key n p ks vs nx)
  obtain t' n' where "pt_ins full key val n (PLeaf p ks vs nx) = (t', n')" by fastforce
  with pt_ins_leaf [OF 1(1-3) this] show ?case by simp
next
  case (2 full key n p ks ts)
  obtain ks' ts' i n' where st: "pt_step full key n ks ts = (ks', ts', i, n')"
    by (metis prod_cases4)
  have cl: "slot ks key < length ts" "full (node_of (ts ! slot ks key)) \<Longrightarrow> splittable (ts ! slot ks key)
      \<and> fst (snd (pt_split (of_nat n) (ts ! slot ks key))) \<noteq> key"
    "i < length ts'" "clean full key n' (ts' ! i)"
    using "2.prems"(4) st by (auto simp: clean.simps(2))
  from pt_step_spec [OF "2.prems"(1) st cl(2)]
  have ok': "okt (PNode p ks' ts') lo hi" and e: "concat (map entries ts') = concat (map entries ts)"
    and i: "i = slot ks' key" by auto
  obtain c n'' where c: "pt_ins full key val n' (ts' ! i) = (c, n'')" by fastforce
  have s': "sorted_wrt (<) ks'" using ok' by simp
  have IH: "okt (fst (pt_ins full key val n' (ts' ! i))) (lo_of lo ks' i) (hi_of ks' hi i)
    \<and> map_of (entries (fst (pt_ins full key val n' (ts' ! i)))) = (map_of (entries (ts' ! i)))(key \<mapsto> val)"
    using okt_child [OF ok' cl(3)] slot_in_range [OF s' "2.prems"(2,3)] cl(4)
    by (intro "2.IH" [OF st [symmetric] refl refl]) (use cl i in auto)
  with replace_child [OF ok', of c key val] c st cl e i show ?case
    by (simp add: pt_ins.simps(2))
qed

section \<open>Insertion at the root\<close>

lemma with_tid_simps [simp]:
  "tid (with_tid q t) = q" "entries (with_tid q t) = entries t"
  "okt (with_tid q t) lo hi = okt t lo hi" "splittable (with_tid q t) = splittable t"
  "node_of (with_tid q t) = node_of t" "height (with_tid q t) = height t"
  by (cases t; simp)+

text \<open>The tree under a new root after the old root moved to page \<open>n\<close> and was split.\<close>

definition pt_grow :: "nat \<Rightarrow> ptree \<Rightarrow> ptree" where
  "pt_grow n t = (case pt_split (of_nat (Suc n)) (with_tid (of_nat n) t) of
     (l, m, r) \<Rightarrow> PNode (tid t) [m] [l, r])"

definition pt_insert :: "(node \<Rightarrow> bool) \<Rightarrow> bytes \<Rightarrow> bytes \<Rightarrow> nat \<Rightarrow> ptree \<Rightarrow> ptree \<times> nat" where
  "pt_insert full key val n t =
     (if full (node_of t) then pt_ins full key val (n + 2) (pt_grow n t)
      else pt_ins full key val n t)"

definition clean_root :: "(node \<Rightarrow> bool) \<Rightarrow> bytes \<Rightarrow> nat \<Rightarrow> ptree \<Rightarrow> bool" where
  "clean_root full key n t \<longleftrightarrow>
     (if full (node_of t) then splittable t \<and> clean full key (n + 2) (pt_grow n t)
      else clean full key n t)"

lemma pt_grow_spec:
  assumes "okt t None None" and "splittable t"
  shows "okt (pt_grow n t) None None \<and> entries (pt_grow n t) = entries t"
proof -
  obtain l m r where sp: "pt_split (of_nat (Suc n)) (with_tid (of_nat n) t) = (l, m, r)"
    by (metis prod_cases3)
  then have "okt l None (Some m)" "okt r (Some m) None" "entries l @ entries r = entries t"
    using split_okt [OF _ _ sp, of None None] split_entries [OF sp] assms by auto
  moreover have "pt_grow n t = PNode (tid t) [m] [l, r]"
    by (simp only: pt_grow_def sp prod.case)
  ultimately show ?thesis
    by (auto simp: lo_of_def hi_of_def less_2_cases_iff)
qed

lemma pt_insert_spec:
  assumes "okt t None None" and "clean_root full key n t"
  shows "okt (fst (pt_insert full key val n t)) None None
    \<and> map_of (entries (fst (pt_insert full key val n t))) = (map_of (entries t))(key \<mapsto> val)"
proof (cases "full (node_of t)")
  case True
  with assms pt_grow_spec [of t n] pt_ins_spec [of "pt_grow n t" None None key full "n + 2" val]
  show ?thesis by (simp add: pt_insert_def clean_root_def)
next
  case False
  with assms pt_ins_spec [of t None None key full n val] show ?thesis
    by (simp add: pt_insert_def clean_root_def)
qed

section \<open>Pages of the tree\<close>

lemma split_pages:
  assumes "pt_split q t = (l, m, r)"
  shows "mset (pages_of l) + mset (pages_of r) = add_mset q (mset (pages_of t))"
    and "tid l = tid t" and "tid r = q"
proof -
  show "mset (pages_of l) + mset (pages_of r) = add_mset q (mset (pages_of t))"
  proof (cases t)
    case (PNode p ks ts)
    have "mset (concat (map pages_of (take k ts))) + mset (concat (map pages_of (drop k ts)))
        = mset (concat (map pages_of ts))" for k
      by (metis append_take_drop_id concat_append map_append mset_append)
    with assms PNode show ?thesis by (auto simp: Let_def)
  qed (use assms in \<open>auto simp: Let_def\<close>)
qed (use assms in \<open>cases t; auto simp: Let_def\<close>)+

lemma step_pages:
  assumes "pt_step full key n ks ts = (ks', ts', i, n')" and "slot ks key < length ts"
  shows "mset (concat (map pages_of ts')) = mset (concat (map pages_of ts)) + mset (map of_nat [n..<n'])"
    and "n \<le> n'" and "n' \<le> Suc n"
proof -
  let ?i = "slot ks key"
  have c: "mset (concat (map pages_of ts)) = mset (concat (map pages_of (take ?i ts)))
      + mset (pages_of (ts ! ?i)) + mset (concat (map pages_of (drop (Suc ?i) ts)))"
    using id_take_nth_drop [OF assms(2)]
    by (metis concat.simps(2) concat_append list.simps(9) map_append mset_append union_assoc)
  show "mset (concat (map pages_of ts')) = mset (concat (map pages_of ts)) + mset (map of_nat [n..<n'])"
  proof (cases "full (node_of (ts ! ?i))")
    case True
    obtain l m r where sp: "pt_split (of_nat n) (ts ! ?i) = (l, m, r)" by (metis prod_cases3)
    show ?thesis
      using assms(1) True split_pages(1) [OF sp] unfolding c
      by (auto simp: pt_step_def Let_def sp)
  next
    case False
    with assms(1) show ?thesis by (auto simp: pt_step_def Let_def)
  qed
  show "n \<le> n'" "n' \<le> Suc n"
    using assms(1) by (auto simp: pt_step_def Let_def split: if_splits prod.splits)
qed

lemma mset_pages_update:
  assumes "i < length ts"
  shows "mset (concat (map pages_of (ts[i := c]))) + mset (pages_of (ts ! i))
    = mset (concat (map pages_of ts)) + mset (pages_of c)"
  using assms by (induction ts arbitrary: i) (auto split: nat.split)

lemma pt_ins_pages:
  assumes "clean full key n t"
  shows "mset (pages_of (fst (pt_ins full key val n t)))
      = mset (pages_of t) + mset (map of_nat [n..<snd (pt_ins full key val n t)])
    \<and> tid (fst (pt_ins full key val n t)) = tid t
    \<and> n \<le> snd (pt_ins full key val n t)"
  using assms
proof (induction full key n t rule: clean.induct)
  case (1 full key n p ks vs nx)
  then show ?case by (simp split: sum.split)
next
  case (2 full key n p ks ts)
  obtain ks' ts' i n' where st: "pt_step full key n ks ts = (ks', ts', i, n')"
    by (metis prod_cases4)
  have cl: "slot ks key < length ts" "i < length ts'" "clean full key n' (ts' ! i)"
    using "2.prems" st by (auto simp: clean.simps(2))
  obtain c n'' where c: "pt_ins full key val n' (ts' ! i) = (c, n'')" by fastforce
  have IH: "mset (pages_of c) = mset (pages_of (ts' ! i)) + mset (map of_nat [n'..<n''])" "n' \<le> n''"
    using "2.IH" [OF st [symmetric] refl refl] "2.prems" st c by (auto simp: clean.simps(2))
  have "mset (map of_nat [n..<n'']) = mset (map of_nat [n..<n']) + mset (map of_nat [n'..<n''] :: u32 list)"
    using step_pages(2) [OF st cl(1)] IH(2)
    by (metis le_Suc_ex map_append mset_append upt_add_eq_append)
  then have "mset (concat (map pages_of (ts'[i := c]))) + mset (pages_of (ts' ! i))
      = (mset (concat (map pages_of ts)) + mset (map of_nat [n..<n''])) + mset (pages_of (ts' ! i))"
    unfolding mset_pages_update [OF cl(2), of c] step_pages(1) [OF st cl(1)] IH(1)
    by (simp only: add_ac)
  then have "mset (concat (map pages_of (ts'[i := c])))
      = mset (concat (map pages_of ts)) + mset (map of_nat [n..<n''])"
    by (rule add_right_imp_eq)
  then show ?case
    using st cl c step_pages(2) [OF st cl(1)] IH(2) by (simp add: pt_ins.simps(2))
qed

end
