(* ===== verification/Btree_Refine.thy ===== *)
theory Btree_Refine
  imports Btree_Spec
begin

text \<open>
  The code of \<open>Btree\<close> implements the trees of \<open>Btree_Spec\<close>. The locale \<open>node_store\<close> is the
  contract of nodes kept in pages (load, save, allocate) and is interpreted on the model's
  own operations; \<open>holds t f\<close> says that the tree \<open>t\<close> is stored in the nodes \<open>f\<close>. The lemmas
  \<open>split_child_sim\<close>, \<open>insert_sim\<close> and \<open>get_sim\<close> relate each function of the code to its
  counterpart on trees, and \<open>tree_rep\<close> is the invariant of an open tree.
\<close>

section \<open>Bincode on nodes\<close>

text \<open>The size of a node in bincode's documented layout.\<close>

definition vecs_size :: "bytes list \<Rightarrow> nat" where
  "vecs_size xs = 8 + sum_list (map (\<lambda>x. 8 + length x) xs)"

definition node_size :: "node \<Rightarrow> nat" where
  "node_size n = 4 + vecs_size (keys n) + (8 + 4 * length (children n)) + vecs_size (vals n)
     + (case next_leaf n of None \<Rightarrow> 1 | Some _ \<Rightarrow> 5)"

definition node_codec :: "btree_env \<Rightarrow> bool" where
  "node_codec E \<longleftrightarrow>
     (\<forall>n. node_size n \<le> PAGE_SIZE \<longrightarrow> ser_node E n \<noteq> None)
     \<and> (\<forall>n b. ser_node E n = Some b \<longrightarrow> length b = node_size n \<and> (\<forall>r. de_node E (b @ r) = Some n))
     \<and> (\<forall>n. size_node E n = map_option length (ser_node E n))"

definition fits :: "node \<Rightarrow> bool" where
  "fits n \<longleftrightarrow> node_size n \<le> PAGE_SIZE - 4"

lemma to_bytes_ok:
  assumes "node_codec E"
  shows "fits n \<Longrightarrow> \<exists>b. to_bytes E n = Inr b \<and> length b = PAGE_SIZE \<and> de_node E (drop 4 b) = Some n"
    and "\<not> fits n \<Longrightarrow> to_bytes E n \<in> {Inl Node_too_large, Inl Bincode_error}"
proof -
  show "\<exists>b. to_bytes E n = Inr b \<and> length b = PAGE_SIZE \<and> de_node E (drop 4 b) = Some n" if "fits n"
  proof -
    from that obtain e where e: "ser_node E n = Some e" "length e = node_size n"
      "\<And>r. de_node E (e @ r) = Some n"
      using assms unfolding node_codec_def fits_def by (metis diff_le_self le_trans not_None_eq)
    with that show ?thesis by (simp add: to_bytes_def fits_def PAGE_SIZE_def)
  qed
  show "to_bytes E n \<in> {Inl Node_too_large, Inl Bincode_error}" if "\<not> fits n"
    using that assms
    by (cases "ser_node E n") (auto simp: to_bytes_def node_codec_def fits_def)
qed

section \<open>The store of nodes\<close>

text \<open>
  A node counts as stored when it is in the file and would also come back after a crash: from
  the last update of its page on the log's queue or, when there is none, from \<open>p0\<close>, the file
  as it was before the queued updates.
\<close>

definition page_updates :: "wal_entry list \<Rightarrow> (u32 \<times> bytes) list" where
  "page_updates es = concat (map (\<lambda>e. case e of PageUpdate p d \<Rightarrow> [(p, d)] | _ \<Rightarrow> []) es)"

definition logged :: "wal_entry list \<Rightarrow> u32 \<Rightarrow> bytes option" where
  "logged es = map_of (rev (page_updates es))"

definition page_node :: "btree_env \<Rightarrow> bytes \<Rightarrow> node option" where
  "page_node E page = (if checksum_ok (penv E) page then de_node E (drop 4 page) else None)"

definition recoverable :: "btree_env \<Rightarrow> pager \<Rightarrow> btree \<Rightarrow> u32 \<Rightarrow> node option" where
  "recoverable E p0 s p = (case logged (queue (bt_wal s)) p of
      Some d \<Rightarrow> page_node E (stamp (penv E) d)
    | None \<Rightarrow> if unat p < page_count p0 then page_node E (page_of (disk p0) p) else None)"

definition node_at :: "btree_env \<Rightarrow> pager \<Rightarrow> btree \<Rightarrow> u32 \<Rightarrow> node option" where
  "node_at E p0 s p = (let n = page_node E (page_of (disk (bt_pager s)) p)
     in if recoverable E p0 s p = n then n else None)"

lemma node_at_page: "node_at E p0 s p = Some n \<Longrightarrow>
  page_node E (page_of (disk (bt_pager s)) p) = Some n \<and> recoverable E p0 s p = Some n"
  by (auto simp: node_at_def Let_def split: if_splits)

lemma logged_append: "logged (es @ [PageUpdate p d]) = (logged es)(p \<mapsto> d)"
  by (auto simp: logged_def page_updates_def)

definition whole_pages :: "nat \<Rightarrow> wal_entry list \<Rightarrow> bool" where
  "whole_pages n es \<longleftrightarrow> (\<forall>p d. PageUpdate p d \<in> set es \<longrightarrow> length d = PAGE_SIZE \<and> unat p < n)"

definition binv :: "btree_env \<Rightarrow> btree \<Rightarrow> bool" where
  "binv E s \<longleftrightarrow> posix (penv E) \<and> node_codec E \<and> pager_inv (bt_pager s)
     \<and> length (queue (bt_wal s)) \<le> QUEUE_CAP \<and> whole_pages (page_count (bt_pager s)) (queue (bt_wal s))"

abbreviation pages :: "btree \<Rightarrow> nat" where
  "pages s \<equiv> page_count (bt_pager s)"

definition room :: "btree \<Rightarrow> nat" where
  "room s = QUEUE_CAP - length (queue (bt_wal s))"

text \<open>What the node operations do not touch.\<close>

definition frame_of :: "btree \<Rightarrow> u32 \<times> mem_tier" where
  "frame_of s = (root_page_id s, memory_tier s)"

locale node_store =
  fixes inv :: "'s \<Rightarrow> bool"
    and look :: "'s \<Rightarrow> u32 \<Rightarrow> 'n option"
    and size :: "'s \<Rightarrow> nat"
    and free :: "'s \<Rightarrow> nat"
    and rest :: "'s \<Rightarrow> 'r"
    and load :: "u32 \<Rightarrow> ('s, 'n) act"
    and save :: "u32 \<Rightarrow> 'n \<Rightarrow> ('s, unit) act"
    and alloc :: "('s, u32) act"
    and small :: "'n \<Rightarrow> bool"
  assumes load_ok: "inv s \<Longrightarrow> look s p = Some n \<Longrightarrow> load p s = Some (Inr n, s)"
    and save_ok: "inv s \<Longrightarrow> small n \<Longrightarrow> 0 < free s \<Longrightarrow> unat p < size s \<Longrightarrow>
      \<exists>s'. save p n s = Some (Inr (), s') \<and> inv s' \<and> look s' = (look s)(p \<mapsto> n)
        \<and> size s' = size s \<and> free s' = free s - 1 \<and> rest s' = rest s"
    and alloc_ok: "inv s \<Longrightarrow> size s < 2 ^ 32 \<Longrightarrow>
      \<exists>s'. alloc s = Some (Inr (of_nat (size s)), s') \<and> inv s'
        \<and> (\<forall>p. p \<noteq> of_nat (size s) \<longrightarrow> look s' p = look s p)
        \<and> size s' = Suc (size s) \<and> free s' = free s \<and> rest s' = rest s"
begin

text \<open>Allocating a page and saving a node in it adds the node and changes no other.\<close>

lemma alloc_save:
  assumes "inv s" and "size s < 2 ^ 32" and "small n" and "0 < free s"
  obtains s1 s2 where "alloc s = Some (Inr (of_nat (size s)), s1)"
    and "save (of_nat (size s)) n s1 = Some (Inr (), s2)" and "inv s2"
    and "look s2 = (look s)(of_nat (size s) \<mapsto> n)" and "size s2 = Suc (size s)"
    and "free s2 = free s - 1" and "rest s2 = rest s"
proof -
  let ?q = "of_nat (size s) :: u32"
  obtain s1 where s1: "alloc s = Some (Inr ?q, s1)" "inv s1"
    "\<And>p. p \<noteq> ?q \<Longrightarrow> look s1 p = look s p" "size s1 = Suc (size s)" "free s1 = free s"
    "rest s1 = rest s"
    using alloc_ok [OF assms(1,2)] by blast
  have "unat ?q < size s1"
    using assms(2) s1(4) by (simp add: unsigned_of_nat take_bit_nat_eq_self)
  then obtain s2 where s2: "save ?q n s1 = Some (Inr (), s2)" "inv s2"
    "look s2 = (look s1)(?q \<mapsto> n)" "size s2 = size s1" "free s2 = free s1 - 1" "rest s2 = rest s1"
    using save_ok [OF s1(2) assms(3)] assms(4) s1(5) by metis
  have "look s2 = (look s)(?q \<mapsto> n)" using s1(3) s2(3) by auto
  with s1 s2 that show ?thesis by simp
qed

text \<open>The writes of a split: allocate, save the new node, save the old one.\<close>

lemma split_writes:
  assumes "inv s" and "size s < 2 ^ 32" and "small n" and "small c" and "2 \<le> free s"
    and "unat p < size s"
  obtains s1 s2 s3 where "alloc s = Some (Inr (of_nat (size s)), s1)"
    and "save (of_nat (size s)) n s1 = Some (Inr (), s2)"
    and "save p c s2 = Some (Inr (), s3)" and "inv s3"
    and "look s3 = (look s)(of_nat (size s) \<mapsto> n, p \<mapsto> c)" and "size s3 = Suc (size s)"
    and "free s3 = free s - 2" and "rest s3 = rest s"
proof -
  have "0 < free s" using assms(5) by simp
  from assms(1-3) this obtain s1 s2 where s2: "alloc s = Some (Inr (of_nat (size s)), s1)"
    "save (of_nat (size s)) n s1 = Some (Inr (), s2)" "inv s2"
    "look s2 = (look s)(of_nat (size s) \<mapsto> n)" "size s2 = Suc (size s)"
    "free s2 = free s - 1" "rest s2 = rest s"
    by (rule alloc_save)
  moreover obtain s3 where "save p c s2 = Some (Inr (), s3)" "inv s3"
    "look s3 = (look s2)(p \<mapsto> c)" "size s3 = size s2" "free s3 = free s2 - 1" "rest s3 = rest s2"
    using save_ok [OF s2(3) assms(4), of p] assms(5,6) s2(5,6) by auto
  ultimately show ?thesis using that by simp
qed

end

lemma length_blank [simp]: "length (replicate PAGE_SIZE (0 :: byte)) = PAGE_SIZE"
  by simp

lemma save_node_eq:
  assumes "binv E s" and "to_bytes E n = Inr b" and "length b = PAGE_SIZE" and "0 < room s"
  shows "save_node E p n s = Some (Inr (), s\<lparr>bt_wal := (bt_wal s)\<lparr>queue := queue (bt_wal s) @ [PageUpdate p b]\<rparr>,
    bt_pager := written (penv E) p b (bt_pager s)\<rparr>)"
  using assms
  by (simp add: save_node_def seq_def zoom_def wal_enqueue_room write_page_posix binv_def room_def)

lemma save_node_too_large:
  assumes "node_codec E" and "\<not> fits n"
  shows "\<exists>e \<in> {Node_too_large, Bincode_error}. save_node E p n s = Some (Inl e, s)"
  using to_bytes_ok(2) [OF assms] by (auto simp: save_node_def)

interpretation ns: node_store "binv E" "node_at E p0" pages room frame_of "load_node E" "save_node E"
    "allocate_page E" fits for E p0
proof
  fix s :: btree and p :: u32 and n :: node
  assume "binv E s" "node_at E p0 s p = Some n"
  then show "load_node E p s = Some (Inr n, s)"
    by (auto dest!: node_at_page simp: load_node_def page_node_def binv_def seq_def zoom_def
        read_page_posix from_bytes_def split: if_splits)
next
  fix s :: btree and n :: node and p :: u32
  assume inv: "binv E s" and "fits n" and "0 < room s" and p: "unat p < pages s"
  then obtain b where b: "to_bytes E n = Inr b" "length b = PAGE_SIZE" "de_node E (drop 4 b) = Some n"
    using to_bytes_ok(1) [of E n] by (auto simp: binv_def)
  let ?s = "s\<lparr>bt_wal := (bt_wal s)\<lparr>queue := queue (bt_wal s) @ [PageUpdate p b]\<rparr>,
    bt_pager := written (penv E) p b (bt_pager s)\<rparr>"
  have "length (queue (bt_wal s)) < QUEUE_CAP" using \<open>0 < room s\<close> by (simp add: room_def)
  then have "save_node E p n s = Some (Inr (), ?s)"
    by (intro save_node_eq [OF inv b(1,2) \<open>0 < room s\<close>])
  moreover have "binv E ?s"
    using inv b(2) p \<open>length (queue (bt_wal s)) < QUEUE_CAP\<close>
    by (auto simp: binv_def whole_pages_def page_count_written less_max_iff_disj)
  moreover have "node_at E p0 ?s = (node_at E p0 s)(p \<mapsto> n)"
    using inv b
    by (auto simp: node_at_def recoverable_def logged_append page_node_def page_of_written binv_def
        Let_def fun_eq_iff)
  moreover have "pages ?s = pages s"
    using inv b(2) p by (simp add: page_count_written binv_def max_def)
  ultimately show "\<exists>s'. save_node E p n s = Some (Inr (), s') \<and> binv E s'
      \<and> node_at E p0 s' = (node_at E p0 s)(p \<mapsto> n) \<and> pages s' = pages s \<and> room s' = room s - 1
      \<and> frame_of s' = frame_of s"
    by (intro exI [of _ ?s]) (simp add: room_def frame_of_def)
next
  fix s :: btree
  assume inv: "binv E s" and lt: "pages s < 2 ^ 32"
  let ?q = "of_nat (pages s) :: u32"
  let ?p = "written (penv E) ?q (replicate PAGE_SIZE 0) (bt_pager s)"
  have "num_pages (bt_pager s) = ?q" using inv by (simp add: num_pages_count binv_def)
  then have "allocate_page E s = Some (Inr ?q, s\<lparr>bt_pager := ?p\<rparr>)"
    using inv by (simp add: allocate_page_def seq_def zoom_def write_page_posix binv_def)
  moreover have "unat ?q = pages s" using lt by (simp add: unsigned_of_nat take_bit_nat_eq_self)
  then have pc: "page_count ?p = Suc (pages s)"
    using inv by (simp add: page_count_written binv_def)
  moreover have "node_at E p0 (s\<lparr>bt_pager := ?p\<rparr>) p = node_at E p0 s p" if "p \<noteq> ?q" for p
    using inv that by (simp add: node_at_def recoverable_def page_of_written binv_def)
  moreover have "binv E (s\<lparr>bt_pager := ?p\<rparr>)"
    using inv pc by (auto simp: binv_def whole_pages_def intro: less_SucI)
  moreover note pc
  ultimately show "\<exists>s'. allocate_page E s = Some (Inr ?q, s') \<and> binv E s'
      \<and> (\<forall>p. p \<noteq> ?q \<longrightarrow> node_at E p0 s' p = node_at E p0 s p) \<and> pages s' = Suc (pages s)
      \<and> room s' = room s \<and> frame_of s' = frame_of s"
    by (intro exI [of _ "s\<lparr>bt_pager := ?p\<rparr>"]) (simp add: room_def frame_of_def)
qed

section \<open>Trees in the store\<close>

text \<open>\<open>holds t f\<close>: every node of \<open>t\<close> is in \<open>f\<close> at its page.\<close>

primrec holds :: "ptree \<Rightarrow> (u32 \<Rightarrow> node option) \<Rightarrow> bool" where
  "holds (PLeaf p ks vs nx) = (\<lambda>f. f p = Some (node_of (PLeaf p ks vs nx)))"
| "holds (PNode p ks ts) = (\<lambda>f. f p = Some (node_of (PNode p ks ts)) \<and> (\<forall>h \<in> set (map holds ts). h f))"

lemma holds_node: "holds (PNode p ks ts) f \<longleftrightarrow>
  f p = Some (node_of (PNode p ks ts)) \<and> (\<forall>t \<in> set ts. holds t f)"
  by simp

declare holds.simps(2) [simp del]

primrec fits_tree :: "ptree \<Rightarrow> bool" where
  "fits_tree (PLeaf p ks vs nx) \<longleftrightarrow> fits (node_of (PLeaf p ks vs nx))"
| "fits_tree (PNode p ks ts) \<longleftrightarrow> fits (node_of (PNode p ks ts)) \<and> (\<forall>b \<in> set (map fits_tree ts). b)"

lemma fits_node: "fits_tree (PNode p ks ts) \<longleftrightarrow>
  fits (node_of (PNode p ks ts)) \<and> (\<forall>t \<in> set ts. fits_tree t)"
  by simp

declare fits_tree.simps(2) [simp del]

lemma holds_root: "holds t f \<Longrightarrow> f (tid t) = Some (node_of t)"
  by (cases t) (auto simp: holds_node)

lemma fits_root: "fits_tree t \<Longrightarrow> fits (node_of t)"
  by (cases t) (auto simp: fits_node)

lemma holds_cong: "holds t f \<Longrightarrow> (\<And>p. p \<in> set (pages_of t) \<Longrightarrow> g p = f p) \<Longrightarrow> holds t g"
  by (induction t) (auto simp: holds_node)

lemma holds_other: "holds t f \<Longrightarrow> q \<notin> set (pages_of t) \<Longrightarrow> holds t (f(q \<mapsto> n))"
  by (erule holds_cong) auto

lemma child_index_slot:
  "okt (PNode p ks ts) lo hi \<Longrightarrow> child_index (node_of (PNode p ks ts)) key = slot ks key"
  using slot_le [of ks key] by (auto simp: child_index_def slot_def [symmetric] new_internal_def)

lemma slot_child: "okt (PNode p ks ts) lo hi \<Longrightarrow> slot ks key < length ts"
  using slot_le [of ks key] by (auto simp: less_Suc_eq_le)

section \<open>Lookup\<close>

lemma get_sim:
  assumes "binv E s" and "okt t lo hi" and "holds t (node_at E p0 s)"
  shows "get_from E key (tid t) s = Some (Inr (map_of (entries t) key), s)"
  using assms(2,3)
proof (induction t arbitrary: lo hi)
  case (PLeaf p ks vs nx)
  have s: "sorted_wrt (<) ks" and len: "length vs = length ks" using PLeaf.prems by auto
  have ld: "load_node E p s = Some (Inr (node_of (PLeaf p ks vs nx)), s)"
    using PLeaf.prems by (intro ns.load_ok [OF assms(1), of p0]) simp
  have "map_of (zip ks vs) key = (if key \<in> set ks then Some (vs ! rank ks key) else None)"
    using len s map_of_zip_nth [of ks vs "rank ks key"] mem_iff_rank [OF s, of key]
    by (auto simp: strict_sorted_iff map_of_zip_is_None)
  with ld len show ?case
    by (subst get_from.simps)
      (auto simp: seq_Inr ld new_leaf_def binary_search_sorted [OF s] mem_iff_rank [OF s] run)
next
  case (PNode p ks ts)
  let ?i = "slot ks key"
  have i: "?i < length ts" by (rule slot_child [OF PNode.prems(1)])
  have ld: "load_node E p s = Some (Inr (node_of (PNode p ks ts)), s)"
    using PNode.prems by (intro ns.load_ok [OF assms(1), of p0]) (simp add: holds_node)
  have "get_from E key (tid (PNode p ks ts)) s = get_from E key (tid (ts ! ?i)) s"
    using i child_index_slot [OF PNode.prems(1), of key]
    by (subst get_from.simps) (simp add: seq_Inr ld, simp add: new_internal_def run)
  also have "\<dots> = Some (Inr (map_of (entries (ts ! ?i)) key), s)"
    using i PNode.prems(2) by (intro PNode.IH [OF nth_mem [OF i] okt_child [OF PNode.prems(1) i]]) (simp add: holds_node)
  finally show ?case by (simp only: lookup_node [OF PNode.prems(1)])
qed

section \<open>Splitting a child\<close>

lemma vecs_size_split: "vecs_size (take k xs) + vecs_size (drop k xs) = vecs_size xs + 8"
proof -
  have "sum_list (map (\<lambda>x. 8 + length x) (take k xs)) + sum_list (map (\<lambda>x. 8 + length x) (drop k xs))
      = sum_list (map (\<lambda>x. 8 + length x) xs)"
    by (metis append_take_drop_id map_append sum_list_append)
  then show ?thesis by (simp add: vecs_size_def)
qed

lemma vecs_size_ge: "8 + 8 * length xs \<le> vecs_size xs"
  by (induction xs) (auto simp: vecs_size_def)

lemma vecs_size_part: "vecs_size (take k xs) \<le> vecs_size xs" "vecs_size (drop k xs) \<le> vecs_size xs"
  using vecs_size_split [of k xs] vecs_size_ge [of "take k xs"] vecs_size_ge [of "drop k xs"] by auto

lemma vecs_size_take: "k < length xs \<Longrightarrow> vecs_size (take k xs) + 8 \<le> vecs_size xs"
  using vecs_size_split [of k xs] vecs_size_ge [of "drop k xs"] by auto

lemma split_fits:
  assumes "fits_tree t" and "splittable t" and "pt_split q t = (l, m, r)"
  shows "fits_tree l \<and> fits_tree r"
proof (cases t)
  case (PLeaf p ks vs nx)
  let ?k = "length ks div 2"
  have "?k < length ks" using assms(2) PLeaf by auto
  with assms PLeaf vecs_size_take [of ?k ks] vecs_size_part [of ?k ks] vecs_size_part [of ?k vs]
  show ?thesis
    by (auto simp: Let_def fits_def node_size_def new_leaf_def split: option.splits)
next
  case (PNode p ks ts)
  let ?k = "length ks div 2"
  have "fits (node_of (PNode p (take a ks) (take b ts)))" "fits (node_of (PNode p (drop a ks) (drop b ts)))"
    for p a b
    using assms(1) PNode vecs_size_part [of a ks] diff_le_self [of "length ts" b]
      min.cobounded1 [of "length ts" b]
    by (auto simp: fits_def fits_node node_size_def new_internal_def simp del: diff_le_self min.cobounded1)
  moreover have "\<forall>t \<in> set (take b ts). fits_tree t" "\<forall>t \<in> set (drop b ts). fits_tree t" for b
    using assms(1) PNode by (auto simp: fits_node dest: in_set_takeD in_set_dropD)
  ultimately show ?thesis using assms(3) PNode by (auto simp: Let_def fits_node)
qed

lemma take_remove: "mid < length ks \<Longrightarrow> take mid (take mid ks @ drop (Suc mid) ks) = take mid ks"
  "mid < length ks \<Longrightarrow> drop mid (take mid ks @ drop (Suc mid) ks) = drop (Suc mid) ks"
  by auto

lemma split_child_sim:
  assumes inv: "binv E s" and c: "node_at E p0 s (tid c) = Some (node_of c)" and ok: "okt c lo hi"
    and spl: "splittable c" and fit: "fits_tree c"
    and sp: "pt_split (of_nat (pages s)) c = (l, m, r)"
    and lt: "pages s < 2 ^ 32" and p: "unat (tid c) < pages s" and rm: "2 \<le> room s"
    and i: "i \<le> length ks" "i < length cs"
  shows "\<exists>s'. split_child E (new_internal\<lparr>keys := ks, children := cs\<rparr>) i (tid c) s
      = Some (Inr (new_internal\<lparr>keys := ins_at i m ks, children := ins_at (Suc i) (of_nat (pages s)) cs\<rparr>), s')
    \<and> binv E s' \<and> node_at E p0 s' = (node_at E p0 s)(of_nat (pages s) \<mapsto> node_of r, tid c \<mapsto> node_of l)
    \<and> pages s' = Suc (pages s) \<and> room s' = room s - 2 \<and> frame_of s' = frame_of s"
proof -
  have f: "fits (node_of r)" "fits (node_of l)"
    using split_fits [OF fit spl sp] fits_root by auto
  obtain s1 s2 s3 where w: "allocate_page E s = Some (Inr (of_nat (pages s)), s1)"
    "save_node E (of_nat (pages s)) (node_of r) s1 = Some (Inr (), s2)"
    "save_node E (tid c) (node_of l) s2 = Some (Inr (), s3)" "binv E s3"
    "node_at E p0 s3 = (node_at E p0 s)(of_nat (pages s) \<mapsto> node_of r, tid c \<mapsto> node_of l)"
    "pages s3 = Suc (pages s)" "room s3 = room s - 2" "frame_of s3 = frame_of s"
    by (rule ns.split_writes [OF inv lt f rm p])
  have ld: "load_node E (tid c) s = Some (Inr (node_of c), s)"
    by (rule ns.load_ok [OF inv c])
  show ?thesis
  proof (cases c)
    case (PLeaf p ks' vs nx)
    let ?k = "length ks' div 2"
    have k: "?k < length ks'" "?k \<le> length vs" using spl ok PLeaf by auto
    have lr: "node_of l = new_leaf\<lparr>keys := take ?k ks', vals := take ?k vs, next_leaf := Some (of_nat (pages s))\<rparr>"
      "node_of r = new_leaf\<lparr>keys := drop ?k ks', vals := drop ?k vs, next_leaf := nx\<rparr>" "m = ks' ! ?k"
      using sp PLeaf by (auto simp: Let_def)
    show ?thesis
      using w ld i k unfolding split_child_def PLeaf
      by (intro exI [of _ s3]) (simp add: seq_Inr new_leaf_def new_internal_def lr Let_def)
  next
    case (PNode p ks' ts)
    let ?k = "length ks' div 2"
    have k: "?k < length ks'" "Suc ?k \<le> length ts" using spl ok PNode by auto
    have lr: "node_of l = new_internal\<lparr>keys := take ?k ks', children := take (Suc ?k) (map tid ts)\<rparr>"
      "node_of r = new_internal\<lparr>keys := drop (Suc ?k) ks', children := drop (Suc ?k) (map tid ts)\<rparr>"
      "m = ks' ! ?k"
      using sp PNode by (auto simp: Let_def take_map drop_map)
    show ?thesis
      using w ld i k unfolding split_child_def PNode
      by (intro exI [of _ s3]) (simp add: seq_Inr new_internal_def lr take_remove Let_def)
  qed
qed

section \<open>Insertion\<close>

text \<open>The trees of a node that is about to be entered.\<close>

definition trees_at :: "btree_env \<Rightarrow> pager \<Rightarrow> btree \<Rightarrow> ptree list \<Rightarrow> bool" where
  "trees_at E p0 s ts \<longleftrightarrow> (\<forall>t \<in> set ts. holds t (node_at E p0 s) \<and> fits_tree t)
     \<and> distinct (concat (map pages_of ts)) \<and> (\<forall>p \<in> set (concat (map pages_of ts)). unat p < pages s)"

text \<open>Pages below \<open>n\<close> and outside \<open>ps\<close> are the same in both states; so is the frame.\<close>

definition same_but :: "btree_env \<Rightarrow> pager \<Rightarrow> nat \<Rightarrow> u32 set \<Rightarrow> btree \<Rightarrow> btree \<Rightarrow> bool" where
  "same_but E p0 n ps s s' \<longleftrightarrow> (\<forall>p. p \<notin> ps \<and> unat p < n \<longrightarrow> node_at E p0 s' p = node_at E p0 s p)
     \<and> frame_of s' = frame_of s"

lemma unat_new_page: "n < 2 ^ 32 \<Longrightarrow> unat (of_nat n :: u32) = n"
  by (simp add: unsigned_of_nat take_bit_nat_eq_self)

lemma set_new_pages: "n' \<le> 2 ^ 32 \<Longrightarrow> p \<in> set (map of_nat [n..<n'] :: u32 list) \<Longrightarrow> n \<le> unat p \<and> unat p < n'"
  using unat_new_page by auto

lemma distinct_new_pages: "n' \<le> 2 ^ 32 \<Longrightarrow> distinct (map of_nat [n..<n'] :: u32 list)"
proof -
  assume n': "n' \<le> 2 ^ 32"
  have "inj_on (of_nat :: nat \<Rightarrow> u32) {n..<n'}"
  proof (rule inj_onI)
    fix x y
    assume "x \<in> {n..<n'}" "y \<in> {n..<n'}" and eq: "(of_nat x :: u32) = of_nat y"
    with n' have lt: "x < 2 ^ 32" "y < 2 ^ 32" by simp_all
    show "x = y" using unat_new_page [OF lt(1)] unat_new_page [OF lt(2)] unfolding eq by (rule box_equals [OF refl])
  qed
  then show ?thesis by (simp add: distinct_map)
qed

lemma pages_more:
  fixes ps :: "u32 list"
  assumes "mset ps' = mset ps + mset (map of_nat [n..<n'])" and "distinct ps"
    and "\<forall>p \<in> set ps. unat p < n" and "n \<le> n'" and "n' \<le> 2 ^ 32"
  shows "distinct ps'" and "\<forall>p \<in> set ps'. unat p < n'"
    and "p \<in> set ps' \<Longrightarrow> unat p < n \<Longrightarrow> p \<in> set ps"
proof -
  have m: "mset ps' = mset (ps @ map of_nat [n..<n'])" using assms(1) by simp
  from mset_eq_setD [OF m] have st: "set ps' = set ps \<union> set (map of_nat [n..<n'])" by simp
  have "distinct (ps @ map of_nat [n..<n'])"
    using assms(2,3) distinct_new_pages [OF assms(5), of n] set_new_pages [OF assms(5), of _ n]
    by (auto simp del: set_map set_upt) (meson leD)
  with m show "distinct ps'" by (metis mset_eq_imp_distinct_iff)
  show "\<forall>p \<in> set ps'. unat p < n'"
    using assms(3,4) set_new_pages [OF assms(5), of _ n] unfolding st by fastforce
  show "p \<in> set ps" if "p \<in> set ps'" "unat p < n"
    using that set_new_pages [OF assms(5), of p n] unfolding st by fastforce
qed

lemma nth_apart:
  "distinct (concat (map f xs)) \<Longrightarrow> i < length xs \<Longrightarrow> j < length xs \<Longrightarrow> i \<noteq> j \<Longrightarrow>
   q \<in> set (f (xs ! i)) \<Longrightarrow> q \<notin> set (f (xs ! j))"
proof (induction xs arbitrary: i j)
  case (Cons x xs)
  have *: "q \<notin> set (f x)" if "k < length xs" "q \<in> set (f (xs ! k))" for k
    using Cons.prems(1) that nth_mem [OF that(1)] by (auto simp: disjoint_iff simp del: nth_mem)
  show ?case
  proof (cases i)
    case 0
    with Cons.prems * [of "j - 1"] show ?thesis by (cases j) auto
  next
    case (Suc k)
    with Cons.prems * [of k] Cons.IH [of k "j - 1"] show ?thesis by (cases j) auto
  qed
qed simp

lemma split_holds:
  assumes "holds c f" and "distinct (pages_of c)" and "q \<notin> set (pages_of c)"
    and "pt_split q c = (l, m, r)"
  shows "holds l (f(q \<mapsto> node_of r, tid c \<mapsto> node_of l)) \<and> holds r (f(q \<mapsto> node_of r, tid c \<mapsto> node_of l))"
proof (cases c)
  case (PNode p ks ts)
  have "\<forall>t \<in> set ts. \<forall>n n'. holds t (f(q \<mapsto> n, p \<mapsto> n'))"
  proof (intro ballI allI holds_other)
    fix t
    assume that: "t \<in> set ts"
    show "holds t f" using assms(1) PNode that by (simp add: holds_node)
    show "q \<notin> set (pages_of t)" using assms(3) PNode that by auto
    show "p \<notin> set (pages_of t)" using assms(2) PNode that by auto
  qed
  then have "\<forall>t \<in> set (take k ts). \<forall>n n'. holds t (f(q \<mapsto> n, p \<mapsto> n'))"
    "\<forall>t \<in> set (drop k ts). \<forall>n n'. holds t (f(q \<mapsto> n, p \<mapsto> n'))" for k
    by (meson in_set_takeD in_set_dropD)+
  then show ?thesis
    using assms(3,4) PNode by (auto simp: Let_def holds_node)
qed (use assms in \<open>auto simp: Let_def\<close>)

lemma step_sim:
  assumes inv: "binv E s" and ok: "okt (PNode p ks ts) lo hi" and ts: "trees_at E p0 s ts"
    and st: "pt_step (is_full E) key (pages s) ks ts = (ks', ts', i, n')"
    and cl: "is_full E (node_of (ts ! slot ks key)) \<Longrightarrow> splittable (ts ! slot ks key)"
    and n': "n' \<le> 2 ^ 32" and rm: "2 \<le> room s"
  shows "\<exists>s'. make_way E key (node_of (PNode p ks ts)) (slot ks key) (tid (ts ! slot ks key))
        (node_of (ts ! slot ks key)) s
      = Some (Inr (node_of (PNode p ks' ts'), tid (ts' ! i), node_of (ts' ! i)), s')
    \<and> binv E s' \<and> trees_at E p0 s' ts' \<and> same_but E p0 (pages s) (set (concat (map pages_of ts))) s s'
    \<and> pages s' = n' \<and> room s - 2 \<le> room s'"
proof (cases "is_full E (node_of (ts ! slot ks key))")
  case False
  with st inv ts show ?thesis
    by (intro exI [of _ s]) (auto simp: make_way_def pt_step_def Let_def same_but_def)
next
  case True
  let ?i = "slot ks key" and ?q = "of_nat (pages s) :: u32"
  let ?c = "ts ! ?i"
  obtain l m r where sp: "pt_split ?q ?c = (l, m, r)" by (metis prod_cases3)
  have i: "?i \<le> length ks" "?i < length ts" using slot_child [OF ok, of key] ok by auto
  have c: "holds ?c (node_at E p0 s)" "fits_tree ?c" "?c \<in> set ts" using ts i by (auto simp: trees_at_def)
  have ks': "ks' = ins_at ?i m ks" and ts': "ts' = take ?i ts @ [l, r] @ drop (Suc ?i) ts"
    and i': "i = (if m < key then Suc ?i else ?i)" and n'': "n' = Suc (pages s)"
    using st True sp by (auto simp: pt_step_def Let_def)
  have lt: "pages s < 2 ^ 32" using n' n'' by simp
  have tid: "tid l = tid ?c" "tid r = ?q" using split_pages [OF sp] by auto
  have "unat (tid ?c) < pages s" using ts c(3) tid_in_pages [of ?c] by (auto simp: trees_at_def)
  from split_child_sim [OF inv holds_root [OF c(1)] okt_child [OF ok i(2)] cl [OF True] c(2) sp lt this rm,
      of ?i ks "map tid ts"] i
  obtain s' where s': "split_child E (node_of (PNode p ks ts)) ?i (tid ?c) s = Some (Inr (new_internal
        \<lparr>keys := ins_at ?i m ks, children := ins_at (Suc ?i) ?q (map tid ts)\<rparr>), s')"
    "binv E s'" "node_at E p0 s' = (node_at E p0 s)(?q \<mapsto> node_of r, tid ?c \<mapsto> node_of l)"
    "pages s' = Suc (pages s)" "room s' = room s - 2" "frame_of s' = frame_of s"
    by auto
  have split_ts: "ts = take ?i ts @ ?c # drop (Suc ?i) ts" by (rule id_take_nth_drop [OF i(2)])
  have d: "distinct (concat (map pages_of ts))" and bd: "\<forall>p \<in> set (concat (map pages_of ts)). unat p < pages s"
    using ts by (auto simp: trees_at_def)
  have q: "?q \<notin> set (concat (map pages_of ts))" using bd unat_new_page [OF lt] by fastforce
  have dc: "distinct (pages_of ?c)" using d c(3) by (auto simp: distinct_concat_iff)
  have "?q \<notin> set (pages_of ?c)" using q c(3) by auto
  from split_holds [OF c(1) dc this sp] s'(3)
  have lr: "holds l (node_at E p0 s')" "holds r (node_at E p0 s')" by auto
  have rest: "holds t (node_at E p0 s')" if "t \<in> set (take ?i ts) \<union> set (drop (Suc ?i) ts)" for t
  proof -
    have "t \<in> set ts" using that by (auto dest: in_set_takeD in_set_dropD)
    have "distinct (concat (map pages_of (take ?i ts @ ?c # drop (Suc ?i) ts)))"
      using d split_ts by simp
    then have "tid ?c \<notin> set (pages_of t)" using that tid_in_pages [of ?c] by auto
    moreover have "?q \<notin> set (pages_of t)" using q \<open>t \<in> set ts\<close> by auto
    ultimately show ?thesis
      using ts \<open>t \<in> set ts\<close> unfolding s'(3) by (intro holds_other) (auto simp: trees_at_def)
  qed
  have "trees_at E p0 s' ts'"
    using lr rest split_fits [OF c(2) cl [OF True] sp] ts s'(4) n''
      pages_more [OF step_pages(1) [OF st i(2)] d bd step_pages(2) [OF st i(2)] n']
    by (auto simp: trees_at_def ts' simp del: concat_append map_append dest: in_set_takeD in_set_dropD)
  moreover have cs: "map tid ts' = ins_at (Suc ?i) ?q (map tid ts)"
  proof -
    have "take (Suc ?i) (map tid ts) = map tid (take ?i ts) @ [tid ?c]"
      using i(2) by (simp add: take_Suc_conv_app_nth take_map)
    then show ?thesis by (simp add: ts' ins_at_def tid drop_map)
  qed
  moreover have "make_way E key (node_of (PNode p ks ts)) ?i (tid ?c) (node_of ?c) s
      = Some (Inr (node_of (PNode p ks' ts'), tid (ts' ! i), node_of (ts' ! i)), s')"
  proof -
    have "i < length ts'" using i(2) i' by (auto simp: ts')
    then have "load_node E (tid (ts' ! i)) s' = Some (Inr (node_of (ts' ! i)), s')"
      using \<open>trees_at E p0 s' ts'\<close> holds_root by (intro ns.load_ok [OF s'(2), of p0]) (auto simp: trees_at_def)
    moreover have "split_child E (node_of (PNode p ks ts)) ?i (tid ?c) s
        = Some (Inr (node_of (PNode p ks' ts')), s')"
      using s'(1) by (simp add: ks' cs)
    moreover have "vec_get (keys (node_of (PNode p ks' ts'))) ?i = Inr m"
      using i by (simp add: new_internal_def ks' nth_ins_at)
    moreover have "vec_get (children (node_of (PNode p ks' ts'))) i = Inr (tid (ts' ! i))"
      using \<open>i < length ts'\<close> by (simp add: new_internal_def)
    ultimately show ?thesis
      using True unfolding make_way_def i' [unfolded Suc_eq_plus1] Let_def
      by (simp add: seq_Inr del: node_of.simps)
  qed
  moreover have "same_but E p0 (pages s) (set (concat (map pages_of ts))) s s'"
  proof -
    have "p \<noteq> ?q" if "unat p < pages s" for p using that unat_new_page [OF lt] by auto
    moreover have "p \<noteq> tid ?c" if "p \<notin> set (concat (map pages_of ts))" for p
      using that tid_in_pages [of ?c] c(3) by auto
    ultimately show ?thesis using s'(3,6) by (auto simp: same_but_def)
  qed
  ultimately show ?thesis using s' n'' by (intro exI [of _ s']) simp
qed

lemma binary_search_cases:
  assumes "sorted_wrt (<) ks"
  obtains "key \<in> set ks" "binary_search ks key = Inr (rank ks key)" "rank ks key < length ks"
  | "key \<notin> set ks" "binary_search ks key = Inl (rank ks key)" "rank ks key \<le> length ks"
  using binary_search_sorted [OF assms, of key] mem_iff_rank [OF assms, of key] rank_le [of ks key]
  by (metis (full_types))

lemma insert_leaf_run:
  assumes "okt (PLeaf p ks vs nx) lo hi" and "pt_ins full key val n (PLeaf p ks vs nx) = (t', n')"
  shows "insert_non_full E key val p (node_of (PLeaf p ks vs nx)) s = save_node E p (node_of t') s"
proof -
  have s: "sorted_wrt (<) ks" and len: "length vs = length ks" using assms(1) by auto
  show ?thesis
    using assms(2) len
    by (cases rule: binary_search_cases [OF s, of key]; subst insert_non_full.simps)
      (auto simp: new_leaf_def)
qed

lemma insert_leaf_sim:
  assumes inv: "binv E s" and ok: "okt (PLeaf p ks vs nx) lo hi" and p: "unat p < pages s"
    and st: "pt_ins full key val n (PLeaf p ks vs nx) = (t', n')" and f: "fits_tree t'"
    and rm: "1 \<le> room s"
  shows "\<exists>s'. insert_non_full E key val p (node_of (PLeaf p ks vs nx)) s = Some (Inr (), s') \<and> binv E s'
    \<and> holds t' (node_at E p0 s') \<and> same_but E p0 n {p} s s' \<and> pages s' = pages s \<and> n' = n
    \<and> room s' = room s - 1"
proof -
  have t': "tid t' = p" "n' = n" "holds t' g \<longleftrightarrow> g p = Some (node_of t')" for g
    using st by (auto split: sum.splits)
  have "0 < room s" using rm by simp
  from ns.save_ok [where ?p0.0 = p0, OF inv fits_root [OF f] this p] obtain s' where
    s': "save_node E p (node_of t') s = Some (Inr (), s')" "binv E s'"
    "node_at E p0 s' = (node_at E p0 s)(p \<mapsto> node_of t')" "pages s' = pages s" "room s' = room s - 1"
    "frame_of s' = frame_of s" by auto
  with insert_leaf_run [OF ok st] t' show ?thesis by (intro exI [of _ s']) (simp add: same_but_def)
qed

text \<open>One level of the descent, from what happens in the child that is entered.\<close>

lemma insert_node_sim:
  assumes ok: "okt (PNode p ks ts) lo hi" and inv: "binv E s" and at: "trees_at E p0 s [PNode p ks ts]"
    and st: "pt_step (is_full E) key (pages s) ks ts = (ks', ts', i, m)"
    and spl: "is_full E (node_of (ts ! slot ks key)) \<Longrightarrow> splittable (ts ! slot ks key)"
    and i: "i < length ts'" and mn: "m \<le> n''" "n'' \<le> 2 ^ 32" and rm: "2 \<le> room s"
    and child: "\<And>s1. binv E s1 \<Longrightarrow> trees_at E p0 s1 [ts' ! i] \<Longrightarrow> pages s1 = m \<Longrightarrow> room s - 2 \<le> room s1 \<Longrightarrow>
      \<exists>s2. insert_non_full E key val (tid (ts' ! i)) (node_of (ts' ! i)) s1 = Some (Inr (), s2)
        \<and> binv E s2 \<and> holds c (node_at E p0 s2) \<and> same_but E p0 m (set (pages_of (ts' ! i))) s1 s2
        \<and> pages s2 = n'' \<and> Suc k \<le> room s2"
    and pc: "mset (pages_of c) = mset (pages_of (ts' ! i)) + mset (map of_nat [m..<n''])" "tid c = tid (ts' ! i)"
    and fit: "fits (node_of (PNode p ks' (ts'[i := c])))"
  shows "\<exists>s'. insert_non_full E key val p (node_of (PNode p ks ts)) s = Some (Inr (), s') \<and> binv E s'
    \<and> holds (PNode p ks' (ts'[i := c])) (node_at E p0 s')
    \<and> same_but E p0 (pages s) (set (pages_of (PNode p ks ts))) s s' \<and> pages s' = n'' \<and> k \<le> room s'"
proof -
  let ?i = "slot ks key" and ?t' = "PNode p ks' (ts'[i := c])"
  have il: "?i < length ts" by (rule slot_child [OF ok])
  have ts: "trees_at E p0 s ts" and hp: "node_at E p0 s p = Some (node_of (PNode p ks ts))"
    and p: "p \<notin> set (concat (map pages_of ts))" "unat p < pages s"
    using at by (auto simp: trees_at_def holds_node fits_node)
  have m: "m \<le> 2 ^ 32" using mn by simp
  from step_sim [OF inv ok ts st spl m rm] obtain s1 where
    s1: "make_way E key (node_of (PNode p ks ts)) ?i (tid (ts ! ?i)) (node_of (ts ! ?i)) s
      = Some (Inr (node_of (PNode p ks' ts'), tid (ts' ! i), node_of (ts' ! i)), s1)"
    "binv E s1" "trees_at E p0 s1 ts'" "same_but E p0 (pages s) (set (concat (map pages_of ts))) s s1"
    "pages s1 = m" "room s - 2 \<le> room s1"
    by auto
  have e: "trees_at E p0 s1 [ts' ! i]"
    using s1(3) i by (auto simp: trees_at_def distinct_concat_iff)
  obtain s2 where s2: "insert_non_full E key val (tid (ts' ! i)) (node_of (ts' ! i)) s1 = Some (Inr (), s2)"
    "binv E s2" "holds c (node_at E p0 s2)" "same_but E p0 m (set (pages_of (ts' ! i))) s1 s2"
    "pages s2 = n''" "Suc k \<le> room s2"
    using child [OF s1(2) e s1(5,6)] by blast
  have bd: "\<forall>q \<in> set (concat (map pages_of ts)). unat q < pages s" "distinct (concat (map pages_of ts))"
    using ts by (auto simp: trees_at_def)
  note more = pages_more [OF step_pages(1) [OF st il] bd(2,1) step_pages(2) [OF st il] m]
  have p': "p \<notin> set (concat (map pages_of ts'))" using more(3) p by blast
  have pm: "unat p < m" using p(2) step_pages(2) [OF st il] by simp
  have pnc: "p \<notin> set (pages_of c)"
  proof
    assume "p \<in> set (pages_of c)"
    then have "p \<in> set (pages_of (ts' ! i))"
      using pages_more(3) [OF pc(1) _ _ mn, of p] e s1(5) pm by (auto simp: trees_at_def)
    with p' i show False by auto
  qed
  have node: "node_of ?t' = node_of (PNode p ks' ts')"
  proof -
    have "map tid (ts'[i := c]) = map tid ts'" using pc(2) i by (metis list_update_id map_update)
    then show ?thesis by simp
  qed
  have "unat p < pages s2" using pm mn(1) s2(5) by simp
  moreover have "0 < room s2" using s2(6) by simp
  ultimately obtain s3 where s3: "save_node E p (node_of ?t') s2 = Some (Inr (), s3)" "binv E s3"
    "node_at E p0 s3 = (node_at E p0 s2)(p \<mapsto> node_of ?t')" "pages s3 = n''" "room s3 = room s2 - 1"
    "frame_of s3 = frame_of s2"
    using ns.save_ok [where ?p0.0 = p0, OF s2(2) fit, of p] s2(5) by auto
  have "load_node E (tid (ts ! ?i)) s = Some (Inr (node_of (ts ! ?i)), s)"
    using ts il holds_root by (intro ns.load_ok [OF inv, of p0]) (auto simp: trees_at_def)
  moreover have "vec_get (children (node_of (PNode p ks ts))) ?i = Inr (tid (ts ! ?i))"
    using il by (simp add: new_internal_def)
  moreover have "node_type (node_of (PNode p ks ts)) \<noteq> Leaf" by (simp add: new_internal_def)
  ultimately have run: "insert_non_full E key val p (node_of (PNode p ks ts)) s = Some (Inr (), s3)"
    using s1(1) s2(1) s3(1)
    by (subst insert_non_full.simps)
      (simp add: child_index_slot [OF ok] seq_Inr node del: node_of.simps)
  have same: "same_but E p0 (pages s) (set (pages_of (PNode p ks ts))) s s3"
  proof -
    have "q \<notin> set (pages_of (ts' ! i))" if "q \<notin> set (concat (map pages_of ts))" "unat q < pages s" for q
      using more(3) [of q] that nth_mem [OF i] by (auto simp del: nth_mem)
    then show ?thesis
      using s1(4) s2(4) s3(3,6) step_pages(2) [OF st il] by (auto simp: same_but_def)
  qed
  have kids: "holds x (node_at E p0 s3)" if x: "x \<in> set (ts'[i := c])" for x
  proof -
    obtain j where j: "j < length ts'" "x = ts'[i := c] ! j" using x by (auto simp: in_set_conv_nth)
    show ?thesis
    proof (cases "j = i")
      case True
      with j i s2(3) pnc show ?thesis by (simp add: s3(3) holds_other)
    next
      case False
      then have xj: "x = ts' ! j" using j by simp
      have "holds x (node_at E p0 s1)" using s1(3) j(1) xj by (simp add: trees_at_def)
      then have "holds x (node_at E p0 s2)"
      proof (rule holds_cong)
        fix q
        assume q: "q \<in> set (pages_of x)"
        then have "q \<notin> set (pages_of (ts' ! i))"
          using nth_apart [OF more(1) j(1) i False, of q] by (simp add: xj)
        moreover have "unat q < m" using more(2) q j(1) xj by auto
        ultimately show "node_at E p0 s2 q = node_at E p0 s1 q" using s2(4) by (simp add: same_but_def)
      qed
      moreover have "p \<notin> set (pages_of x)" using p' j(1) xj by auto
      ultimately show ?thesis by (simp add: s3(3) holds_other)
    qed
  qed
  show ?thesis
    using run same kids s3 s2(6) node by (intro exI [of _ s3]) (auto simp: holds_node)
qed

lemma insert_sim:
  assumes "clean (is_full E) key n t" and "okt t lo hi" and "from_lo lo key" and "below hi key"
    and "binv E s" and "trees_at E p0 s [t]" and "pages s = n"
    and "pt_ins (is_full E) key val n t = (t', n')" and "fits_tree t'" and "n' \<le> 2 ^ 32"
    and "3 * height t + 1 \<le> room s"
  shows "\<exists>s'. insert_non_full E key val (tid t) (node_of t) s = Some (Inr (), s') \<and> binv E s'
    \<and> holds t' (node_at E p0 s') \<and> same_but E p0 n (set (pages_of t)) s s' \<and> pages s' = n'
    \<and> room s - (3 * height t + 1) \<le> room s'"
  using assms
proof (induction "is_full E" key n t arbitrary: lo hi s t' n' rule: clean.induct)
  case (1 key n p ks vs nx)
  have "unat p < pages s" using 1(6) by (simp add: trees_at_def)
  from insert_leaf_sim [where ?p0.0 = p0, OF 1(5,2) this 1(8,9)] 1(11) 1(7) show ?case by auto
next
  case (2 key n p ks ts)
  let ?i = "slot ks key"
  note ok = "2.prems"(2)
  obtain ks' ts' i m where st: "pt_step (is_full E) key n ks ts = (ks', ts', i, m)"
    by (metis prod_cases4)
  have cl: "?i < length ts" "is_full E (node_of (ts ! ?i)) \<Longrightarrow> splittable (ts ! ?i)
      \<and> fst (snd (pt_split (of_nat n) (ts ! ?i))) \<noteq> key"
    "i < length ts'" "clean (is_full E) key m (ts' ! i)"
    using "2.prems"(1) st by (auto simp: clean.simps(2))
  from pt_step_spec [OF ok st cl(2)]
  have ok': "okt (PNode p ks' ts') lo hi" and i: "i = slot ks' key" by auto
  obtain c n'' where c: "pt_ins (is_full E) key val m (ts' ! i) = (c, n'')" by fastforce
  have t': "t' = PNode p ks' (ts'[i := c])" "n' = n''"
    using "2.prems"(8) st cl(1,3) c by (auto simp: pt_ins.simps(2))
  have mn: "m \<le> n''" "n'' \<le> 2 ^ 32" using pt_ins_pages [OF cl(4), of val] c t'(2) "2.prems"(10) by simp_all
  have c3: "fits_tree c" "fits (node_of (PNode p ks' (ts'[i := c])))"
    using "2.prems"(9) t' cl(3) by (auto simp: fits_node set_update_memI)
  have h: "height (ts' ! i) < height (PNode p ks ts)"
    using pt_step_height [OF st cl(1)] cl(3) by simp
  have s': "sorted_wrt (<) ks'" using ok' by simp
  have pc: "mset (pages_of c) = mset (pages_of (ts' ! i)) + mset (map of_nat [m..<n''])" "tid c = tid (ts' ! i)"
    using pt_ins_pages [OF cl(4), of val] c by auto
  let ?k = "room s - (3 * height (PNode p ks ts) + 1)"
  have child: "\<exists>s2. insert_non_full E key val (tid (ts' ! i)) (node_of (ts' ! i)) s1 = Some (Inr (), s2)
      \<and> binv E s2 \<and> holds c (node_at E p0 s2) \<and> same_but E p0 m (set (pages_of (ts' ! i))) s1 s2
      \<and> pages s2 = n'' \<and> Suc ?k \<le> room s2"
    if s1: "binv E s1" "trees_at E p0 s1 [ts' ! i]" "pages s1 = m" "room s - 2 \<le> room s1" for s1
  proof -
    have rm1: "3 * height (ts' ! i) + 1 \<le> room s1" using h s1(4) "2.prems"(11) by linarith
    from "2.hyps" [OF st [symmetric] refl refl cl(1) impI [OF cl(2)] cl(3,4) okt_child [OF ok' cl(3)] _ _ s1(1,2,3) c c3(1) mn(2) rm1]
      slot_in_range [OF s' "2.prems"(3,4)] i
    obtain s2 where s2: "insert_non_full E key val (tid (ts' ! i)) (node_of (ts' ! i)) s1 = Some (Inr (), s2)"
      "binv E s2" "holds c (node_at E p0 s2)" "same_but E p0 m (set (pages_of (ts' ! i))) s1 s2"
      "pages s2 = n''" "room s1 - (3 * height (ts' ! i) + 1) \<le> room s2"
      by auto
    moreover have "Suc ?k \<le> room s2" using s2(6) s1(4) h "2.prems"(11) by linarith
    ultimately show ?thesis by blast
  qed
  have rm: "2 \<le> room s" using "2.prems"(11) by simp
  have spl: "splittable (ts ! ?i)" if "is_full E (node_of (ts ! ?i))" using cl(2) [OF that] by simp
  show ?case
    using insert_node_sim [OF ok "2.prems"(5,6) st [folded "2.prems"(7)] spl cl(3) mn rm child pc c3(2)]
    unfolding t' "2.prems"(7) tid.simps by blast
qed

section \<open>The whole tree\<close>

definition tree_rep :: "btree_env \<Rightarrow> pager \<Rightarrow> btree \<Rightarrow> ptree \<Rightarrow> bool" where
  "tree_rep E p0 s t \<longleftrightarrow> binv E s \<and> trees_at E p0 s [t] \<and> okt t None None \<and> tid t = root_page_id s"

text \<open>The queue entries an insertion may need: the path, a split at each level, a new root.\<close>

definition insert_room :: "ptree \<Rightarrow> nat" where
  "insert_room t = 3 * height t + 8"

lemma vecs_size_mem: "m \<in> set ks \<Longrightarrow> length m + 8 * length ks + 8 \<le> vecs_size ks"
  using vecs_size_ge by (induction ks) (fastforce simp: vecs_size_def)+

lemma grow_fits:
  assumes "okt t lo hi" and "splittable t" and "fits_tree t"
  shows "fits (node_of (pt_grow n t))"
proof (cases t)
  case (PLeaf p ks vs nx)
  let ?k = "length ks div 2"
  have "ks ! ?k \<in> set ks" using assms(2) PLeaf by (intro nth_mem) auto
  with vecs_size_mem [of "ks ! ?k" ks] vecs_size_ge [of vs] assms PLeaf show ?thesis
    by (auto simp: pt_grow_def Let_def fits_def node_size_def new_leaf_def new_internal_def vecs_size_def
        split: option.splits)
next
  case (PNode p ks ts)
  let ?k = "length ks div 2"
  have "ks ! ?k \<in> set ks" "1 \<le> length ks" using assms(2) PNode by (auto simp: Suc_le_eq)
  with vecs_size_mem [of "ks ! ?k" ks] assms PNode show ?thesis
    by (auto simp: pt_grow_def Let_def fits_node fits_def node_size_def new_internal_def vecs_size_def)
qed

lemma pages_root: "pages_of t = tid t # tl (pages_of t)" "pages_of (with_tid q t) = q # tl (pages_of t)"
  by (cases t; simp)+

lemma holds_with_tid:
  "holds t f \<Longrightarrow> q \<notin> set (pages_of t) \<Longrightarrow> holds (with_tid q t) (f(q \<mapsto> node_of t))"
  by (cases t) (auto simp: holds_node holds_other)

lemma fits_with_tid [simp]: "fits_tree (with_tid q t) = fits_tree t"
  by (cases t) (auto simp: fits_node)

lemma grow_root_sim:
  assumes rep: "tree_rep E p0 s t" and spl: "splittable t" and lt: "pages s + 2 \<le> 2 ^ 32"
    and rm: "4 \<le> room s"
  shows "\<exists>s'. grow_root E (tid t) (node_of t) s = Some (Inr (), s') \<and> tree_rep E p0 s' (pt_grow (pages s) t)
    \<and> pages s' = pages s + 2 \<and> room s' = room s - 4 \<and> frame_of s' = frame_of s"
proof -
  let ?n = "pages s" and ?p = "tid t"
  let ?q = "of_nat ?n :: u32" and ?q' = "of_nat (Suc ?n) :: u32"
  let ?c = "with_tid ?q t"
  have inv: "binv E s" and h: "holds t (node_at E p0 s)" and f: "fits_tree t" and ok: "okt t None None"
    and d: "distinct (pages_of t)" and bd: "\<forall>p \<in> set (pages_of t). unat p < ?n"
    and root: "root_page_id s = ?p"
    using rep by (auto simp: tree_rep_def trees_at_def)
  have n: "?n < 2 ^ 32" "Suc ?n < 2 ^ 32" and rm0: "0 < room s" using lt rm by auto
  have q: "unat ?q = ?n" "unat ?q' = Suc ?n" using unat_new_page [OF n(1)] unat_new_page [OF n(2)] by auto
  have new: "?q \<notin> set (pages_of t)" "?q' \<notin> set (pages_of t)" "?q' \<noteq> ?q"
    using bd q by (fastforce, fastforce, metis n_not_Suc_n)
  obtain s1 s2 where s2: "allocate_page E s = Some (Inr ?q, s1)"
    "save_node E ?q (node_of t) s1 = Some (Inr (), s2)" "binv E s2"
    "node_at E p0 s2 = (node_at E p0 s)(?q \<mapsto> node_of t)" "pages s2 = Suc ?n" "room s2 = room s - 1"
    "frame_of s2 = frame_of s"
    by (rule ns.alloc_save [OF inv n(1) fits_root [OF f] rm0])
  obtain l m r where sp: "pt_split ?q' ?c = (l, m, r)" by (metis prod_cases3)
  have hc: "holds ?c (node_at E p0 s2)" unfolding s2(4) by (rule holds_with_tid [OF h new(1)])
  have rm2: "2 \<le> room s2" using s2(6) rm by simp
  have fc: "fits_tree ?c" and okc: "okt ?c None None" and splc: "splittable ?c"
    using f ok spl by simp_all
  have "node_at E p0 s2 (tid ?c) = Some (node_of ?c)" using holds_root [OF hc] by simp
  from split_child_sim [OF s2(3) this okc splc fc sp [folded s2(5)], of 0 "[]" "[?q]"]
    rm2 s2(5) q n(2)
  obtain s3 where s3: "split_child E (new_internal\<lparr>children := [?q]\<rparr>) 0 ?q s2
      = Some (Inr (new_internal\<lparr>keys := [m], children := [?q, ?q']\<rparr>), s3)"
    "binv E s3" "node_at E p0 s3 = (node_at E p0 s2)(?q' \<mapsto> node_of r, ?q \<mapsto> node_of l)"
    "pages s3 = ?n + 2" "room s3 = room s - 3" "frame_of s3 = frame_of s"
    using s2(6,7) by (auto simp: ins_at_def new_internal_def)
  have g: "pt_grow ?n t = PNode ?p [m] [l, r]" by (simp only: pt_grow_def sp prod.case)
  have tids: "tid l = ?q" "tid r = ?q'" using split_pages [OF sp] by simp_all
  have node: "node_of (pt_grow ?n t) = new_internal\<lparr>keys := [m], children := [?q, ?q']\<rparr>"
    by (simp add: g tids)
  have fg: "fits (node_of (pt_grow ?n t))" by (rule grow_fits [OF ok spl f])
  have rm3: "0 < room s3" using s3(5) rm by simp
  have "unat ?p < pages s3" using bd s3(4) tid_in_pages [of t] by fastforce
  from ns.save_ok [where ?p0.0 = p0, OF s3(2) fg rm3 this] obtain s4 where
    s4: "save_node E ?p (node_of (pt_grow ?n t)) s3 = Some (Inr (), s4)" "binv E s4"
    "node_at E p0 s4 = (node_at E p0 s3)(?p \<mapsto> node_of (pt_grow ?n t))" "pages s4 = ?n + 2"
    "room s4 = room s - 4" "frame_of s4 = frame_of s"
    using s3 by auto
  have run: "grow_root E ?p (node_of t) s = Some (Inr (), s4)"
    using s2(1,2) s3(1) s4(1) [unfolded node] by (simp add: grow_root_def seq_Inr)
  obtain ps where ps: "pages_of t = ?p # ps" "pages_of ?c = ?q # ps" using pages_root by metis
  have pg: "mset (pages_of l) + mset (pages_of r) = mset (?q' # ?q # ps)"
    using split_pages(1) [OF sp] by (simp add: ps)
  then have m: "mset (pages_of (pt_grow ?n t)) = mset (?q' # ?q # pages_of t)"
    by (simp add: g ps)
  have "distinct (?q' # ?q # pages_of t)" using new d by simp
  then have dg: "distinct (pages_of (pt_grow ?n t))" using m by (metis mset_eq_imp_distinct_iff)
  have "\<forall>p \<in> set (?q' # ?q # pages_of t). unat p < ?n + 2" using bd q by auto
  then have bg: "\<forall>p \<in> set (pages_of (pt_grow ?n t)). unat p < ?n + 2"
    using mset_eq_setD [OF m] by simp
  have dc: "distinct (pages_of ?c)" "?q' \<notin> set (pages_of ?c)"
    using new d by (auto simp: ps)
  from split_holds [OF hc dc(1,2) sp] have "holds l (node_at E p0 s3)" "holds r (node_at E p0 s3)"
    unfolding s3(3) by simp_all
  moreover have "?p \<notin> set (pages_of l)" "?p \<notin> set (pages_of r)"
    using dg by (auto simp: g)
  ultimately have "holds (pt_grow ?n t) (node_at E p0 s4)"
    unfolding s4(3) by (simp add: g holds_node holds_other tids)
  moreover have "fits_tree (pt_grow ?n t)"
    using fg split_fits [OF fc splc sp] by (simp add: g fits_node)
  ultimately have "tree_rep E p0 s4 (pt_grow ?n t)"
    using s4 dg bg conjunct1 [OF pt_grow_spec [OF ok spl, of ?n]] root
    by (simp add: tree_rep_def trees_at_def frame_of_def) (simp add: g)
  with run s4 show ?thesis by (intro exI [of _ s4]) simp
qed

lemma tree_rep_root:
  "tree_rep E p0 s t \<Longrightarrow> load_node E (root_page_id s) s = Some (Inr (node_of t), s)"
  using holds_root by (intro ns.load_ok [of _ _ p0]) (auto simp: tree_rep_def trees_at_def)

lemma insert_tree_sim:
  assumes rep: "tree_rep E p0 s t" and cl: "clean (is_full E) key (pages s) t"
    and pi: "pt_ins (is_full E) key val (pages s) t = (t', n')" and f: "fits_tree t'"
    and n': "n' \<le> 2 ^ 32" and rm: "3 * height t + 1 \<le> room s"
  shows "\<exists>s'. insert_non_full E key val (tid t) (node_of t) s = Some (Inr (), s') \<and> tree_rep E p0 s' t'
    \<and> pages s' = n' \<and> room s - (3 * height t + 1) \<le> room s' \<and> frame_of s' = frame_of s"
proof -
  have inv: "binv E s" and ok: "okt t None None" and ts: "trees_at E p0 s [t]" and root: "tid t = root_page_id s"
    using rep by (auto simp: tree_rep_def)
  from insert_sim [OF cl ok _ _ inv ts refl pi f n' rm] obtain s' where
    s': "insert_non_full E key val (tid t) (node_of t) s = Some (Inr (), s')" "binv E s'"
    "holds t' (node_at E p0 s')" "same_but E p0 (pages s) (set (pages_of t)) s s'" "pages s' = n'"
    "room s - (3 * height t + 1) \<le> room s'"
    by auto
  have pg: "mset (pages_of t') = mset (pages_of t) + mset (map of_nat [pages s..<n'])"
    "tid t' = tid t" "pages s \<le> n'"
    using pt_ins_pages [OF cl, of val] pi by auto
  have "distinct (pages_of t')" "\<forall>p \<in> set (pages_of t'). unat p < n'"
    using pages_more(1,2) [OF pg(1) _ _ pg(3) n'] ts by (simp_all add: trees_at_def)
  then have "tree_rep E p0 s' t'"
    using s' f pt_ins_spec [OF ok _ _ cl, of val] pi pg(2) root
    by (auto simp: tree_rep_def trees_at_def same_but_def frame_of_def)
  with s' show ?thesis by (intro exI [of _ s']) (simp add: same_but_def)
qed

lemma sync_posix: "binv E s \<Longrightarrow> on_pager (pager_sync (penv E)) s = Some (Inr (), s)"
  by (simp add: zoom_def pager_sync_def serve_sync_def binv_def pager_inv_def posix_def)

lemma insert_full_sim:
  assumes rep: "tree_rep E p0 s t" and cl: "clean_root (is_full E) key (pages s) t"
    and pi: "pt_insert (is_full E) key val (pages s) t = (t', n')" and f: "fits_tree t'"
    and n': "n' \<le> 2 ^ 32" and rm: "insert_room t \<le> room s"
  shows "\<exists>s'. bt_insert E key val s = Some (Inr (), s') \<and> tree_rep E p0 s' t' \<and> pages s' = n'
    \<and> room s - insert_room t \<le> room s' \<and> frame_of s' = frame_of s"
proof -
  have root: "root_page_id s = tid t" using rep by (simp add: tree_rep_def)
  note ld = tree_rep_root [OF rep, unfolded root]
  show ?thesis
  proof (cases "is_full E (node_of t)")
    case False
    then have cl': "clean (is_full E) key (pages s) t"
      and pi': "pt_ins (is_full E) key val (pages s) t = (t', n')"
      using cl pi by (auto simp: clean_root_def pt_insert_def)
    have "3 * height t + 1 \<le> room s" using rm by (simp add: insert_room_def)
    from insert_tree_sim [OF rep cl' pi' f n' this] obtain s' where
      s': "insert_non_full E key val (tid t) (node_of t) s = Some (Inr (), s')" "tree_rep E p0 s' t'"
      "pages s' = n'" "room s - (3 * height t + 1) \<le> room s'" "frame_of s' = frame_of s" by auto
    then show ?thesis
      using False root ld sync_posix [of E s']
      by (intro exI [of _ s']) (auto simp: bt_insert_def seq_Inr tree_rep_def insert_room_def)
  next
    case True
    let ?g = "pt_grow (pages s) t"
    have spl: "splittable t" and cl': "clean (is_full E) key (pages s + 2) ?g"
      and pi': "pt_ins (is_full E) key val (pages s + 2) ?g = (t', n')"
      using True cl pi by (auto simp: clean_root_def pt_insert_def)
    have lt: "pages s + 2 \<le> 2 ^ 32" using pt_ins_pages [OF cl', of val] pi' n' by simp
    have rm4: "4 \<le> room s" using rm by (simp add: insert_room_def)
    from grow_root_sim [OF rep spl lt rm4] obtain s1 where
      s1: "grow_root E (tid t) (node_of t) s = Some (Inr (), s1)" "tree_rep E p0 s1 ?g"
      "pages s1 = pages s + 2" "room s1 = room s - 4" "frame_of s1 = frame_of s" by auto
    have h: "height ?g \<le> Suc (height t)"
      using height_split [of "of_nat (Suc (pages s))" "with_tid (of_nat (pages s)) t"]
      by (auto simp: pt_grow_def split: prod.splits)
    have "3 * height ?g + 1 \<le> room s1" using h s1(4) rm by (simp add: insert_room_def)
    from insert_tree_sim [OF s1(2) cl' [folded s1(3)] pi' [folded s1(3)] f n' this] obtain s' where
      s': "insert_non_full E key val (tid ?g) (node_of ?g) s1 = Some (Inr (), s')" "tree_rep E p0 s' t'"
      "pages s' = n'" "room s1 - (3 * height ?g + 1) \<le> room s'" "frame_of s' = frame_of s1" by auto
    have g: "tid ?g = tid t" by (simp add: pt_grow_def split: prod.splits)
    have "root_page_id s1 = tid t" using s1(2) g by (simp add: tree_rep_def)
    with tree_rep_root [OF s1(2)] have "load_node E (tid t) s1 = Some (Inr (node_of ?g), s1)" by simp
    with True root ld s1 s' g h sync_posix [of E s'] show ?thesis
      by (intro exI [of _ s']) (auto simp: bt_insert_def seq_Inr tree_rep_def insert_room_def)
  qed
qed

end
