(* ===== verification/Btree_Props.thy ===== *)
theory Btree_Props
  imports Btree_Refine
begin

text \<open>
  What the B+tree promises: lookups read the map the tree stands for, insertion updates it
  at one key, the log brings the tree back after a crash, and reopening a database keeps it.
  The last sections show where the code breaks these promises. A bincode of the documented
  layout on nodes is defined for the witnesses.
\<close>

section \<open>A concrete bincode on nodes\<close>

definition put_node :: "node \<Rightarrow> bytes" where
  "put_node n = le_bytes 4 (case node_type n of Internal \<Rightarrow> 0 | Leaf \<Rightarrow> 1)
     @ put_list put_vec (keys n) @ put_list (put_word 4) (children n) @ put_list put_vec (vals n)
     @ put_opt (next_leaf n)"

definition get_node :: "bytes \<Rightarrow> (node \<times> bytes) option" where
  "get_node bs = Option.bind (get_nat 4 bs) (\<lambda>(tag, r).
     if 1 < tag then None else
     Option.bind (get_list get_vec r) (\<lambda>(ks, r). Option.bind (get_list (get_word 4) r) (\<lambda>(cs, r).
     Option.bind (get_list get_vec r) (\<lambda>(vs, r). map_option (\<lambda>(nx, r).
       (\<lparr>node_type = (if tag = 0 then Internal else Leaf), keys = ks, children = cs, vals = vs,
         next_leaf = nx\<rparr>, r)) (get_opt r)))))"

definition node_ok :: "node \<Rightarrow> bool" where
  "node_ok n \<longleftrightarrow> vec_ok (keys n) \<and> (\<forall>k \<in> set (keys n). vec_ok k) \<and> vec_ok (children n)
     \<and> vec_ok (vals n) \<and> (\<forall>v \<in> set (vals n). vec_ok v)"

lemma get_put_node: "node_ok n \<Longrightarrow> get_node (put_node n @ r) = Some (n, r)"
  using nat_codec.get_put [of 0 4] nat_codec.get_put [of 1 4]
  by (cases n; cases "node_type n")
    (simp_all add: node_ok_def put_node_def get_node_def vec_codec.get_list_put
      u32_codec.get_list_put opt_codec.get_put)

lemma length_put_vecs: "length (put_list put_vec xs) = vecs_size xs"
proof -
  have "length (concat (map put_vec xs)) = sum_list (map (\<lambda>x. 8 + length x) xs)"
    by (induction xs) (auto simp: put_vec_def)
  then show ?thesis by (simp add: put_list_def vecs_size_def)
qed

lemma length_put_words: "length (put_list (put_word 4) (ws :: u32 list)) = 8 + 4 * length ws"
proof -
  have "length (concat (map (put_word 4) ws)) = 4 * length ws"
    by (induction ws) (auto simp: put_word_def)
  then show ?thesis by (simp add: put_list_def)
qed

lemma length_put_node: "length (put_node n) = node_size n"
  by (simp add: put_node_def node_size_def length_put_vecs length_put_words put_opt_def put_word_def
      split: option.split)

lemma node_ok_small:
  assumes "node_size n \<le> PAGE_SIZE"
  shows "node_ok n"
proof -
  have *: "length xs < 2 ^ 64 \<and> (\<forall>x \<in> set xs. length x < 2 ^ 64)" if "vecs_size xs \<le> 4096" for xs
    using that vecs_size_ge [of xs] vecs_size_mem [of _ xs] by fastforce
  have "vecs_size (keys n) \<le> 4096" "vecs_size (vals n) \<le> 4096" "length (children n) < 2 ^ 64"
    using assms by (auto simp: node_size_def PAGE_SIZE_def)
  with * show ?thesis by (auto simp: node_ok_def vec_ok_def)
qed

definition sample_tree_env :: btree_env where
  "sample_tree_env = \<lparr>penv = sample_env, wenv = sample_wal_env,
     ser_node = (\<lambda>n. if node_ok n then Some (put_node n) else None),
     de_node = (\<lambda>b. map_option fst (get_node b)),
     size_node = (\<lambda>n. if node_ok n then Some (node_size n) else None)\<rparr>"

lemma node_codec_sample [simp]: "node_codec sample_tree_env"
  using get_put_node node_ok_small
  by (auto simp: node_codec_def sample_tree_env_def length_put_node)

lemma penv_sample [simp]: "penv sample_tree_env = sample_env" "wenv sample_tree_env = sample_wal_env"
  by (simp_all add: sample_tree_env_def)

section \<open>Opening\<close>

text \<open>A tree is stored when every page of it is, whatever the other pages hold.\<close>

lemma holds_page: "holds t f \<Longrightarrow> p \<in> set (pages_of t) \<Longrightarrow> f p \<noteq> None"
  by (induction t) (auto simp: holds_node)

lemma node_at_own:
  assumes "queue (bt_wal s) = []"
  shows "node_at E (bt_pager s) s p = (if unat p < pages s then page_node E (page_of (disk (bt_pager s)) p) else None)"
  using assms by (simp add: node_at_def recoverable_def logged_def page_updates_def Let_def)

lemma tree_rep_own:
  assumes "posix (penv E)" and "node_codec E" and "pager_inv (bt_pager s)" and "queue (bt_wal s) = []"
    and "holds t f" and "fits_tree t" and "okt t None None" and "distinct (pages_of t)"
    and "tid t = root_page_id s"
    and "\<And>p. p \<in> set (pages_of t) \<Longrightarrow> unat p < pages s \<and> page_node E (page_of (disk (bt_pager s)) p) = f p"
  shows "tree_rep E (bt_pager s) s t"
proof -
  have "holds t (node_at E (bt_pager s) s)"
    using assms(10) by (intro holds_cong [OF assms(5)]) (simp add: node_at_own [OF assms(4)])
  with assms show ?thesis
    by (simp add: tree_rep_def trees_at_def binv_def whole_pages_def)
qed

lemma write_page_boot: "write_page E i d p = write_page E i d (pager_boot p)"
  by (simp add: write_page_def serve_write_def seq_def pager_boot_def)

lemma pager_sync_boot: "posix E \<Longrightarrow> pager_sync E p = Some (Inr (), pager_boot p)"
  by (simp add: pager_sync_def serve_sync_def posix_def)

definition whole_file :: "bytes \<Rightarrow> bool" where
  "whole_file f \<longleftrightarrow> PAGE_SIZE dvd length f \<and> length f < PAGE_SIZE * 2 ^ 32"

lemma boot_inv: "whole_file f \<Longrightarrow> pager_inv (pager_boot (pager_open f))"
  by (simp add: whole_file_def pager_inv_def pager_boot_def pager_open_def PAGE_SIZE_def
      unsigned_of_nat take_bit_nat_eq_self)

lemma disk_boot [simp]: "disk (pager_boot (pager_open f)) = f"
  by (simp add: pager_boot_def pager_open_def)

text \<open>The root leaf that \<open>open\<close> writes.\<close>

lemma fits_new_leaf: "fits new_leaf"
  by (simp add: fits_def node_size_def new_leaf_def vecs_size_def PAGE_SIZE_def)

lemma open_empty:
  assumes "posix (penv E)" and "node_codec E" and "whole_file f"
    and "num_pages (if boots then pager_boot (pager_open f) else pager_open f) = 0"
  shows "\<exists>s. bt_open E clock boots f None m = Some (Inr (), s) \<and> memory_tier s = m
    \<and> tree_rep E (bt_pager s) s (PLeaf 0 [] [] None) \<and> queue (bt_wal s) = []
    \<and> pages s = max (length f div PAGE_SIZE) 1"
proof -
  let ?p = "pager_boot (pager_open f)"
  obtain b where b: "to_bytes E new_leaf = Inr b" "length b = PAGE_SIZE" "de_node E (drop 4 b) = Some new_leaf"
    using to_bytes_ok(1) [OF assms(2) fits_new_leaf] by auto
  let ?q = "written (penv E) 0 b ?p"
  let ?w = "snd (wal_read_all (wal_open (wenv E) None))"
  let ?s = "\<lparr>bt_pager = ?q, bt_wal = ?w, root_page_id = 0, memory_tier = m\<rparr>"
  have inv: "pager_inv ?p" by (rule boot_inv [OF assms(3)])
  have w: "write_page (penv E) 0 b ?p = Some (Inr (), ?q)" "write_page (penv E) 0 b (pager_open f) = Some (Inr (), ?q)"
    using write_page_posix [OF assms(1) inv b(2)] write_page_boot [of _ _ _ "pager_open f"] by auto
  have q: "pager_inv ?q" using pager_inv_written [OF inv b(2)] .
  then have "pager_sync (penv E) ?q = Some (Inr (), ?q)"
    by (simp add: pager_sync_boot [OF assms(1)] pager_inv_def)
  with w b(1) assms(4) have run: "bt_open E clock boots f None m = Some (Inr (), ?s)"
    by (cases boots) (simp_all add: bt_open_def wal_open_def wal_read_all_def zoom_def seq_def)
  have pc: "page_of (disk ?q) 0 = stamp (penv E) b" "page_count ?q = max (length f div PAGE_SIZE) 1"
    using page_of_written [OF inv b(2)] page_count_written [OF inv b(2)] by (simp_all add: page_count_def)
  then have "0 < page_count ?q" by simp
  then have "tree_rep E (bt_pager ?s) ?s (PLeaf 0 [] [] None)"
    using assms(1,2) q fits_new_leaf b(3) pc(1)
    by (intro tree_rep_own [where f = "\<lambda>_. Some new_leaf"])
      (auto simp: wal_open_def wal_read_all_def page_node_def new_leaf_def)
  with run pc(2) show ?thesis by (intro exI [of _ ?s]) (simp add: wal_open_def wal_read_all_def)
qed

section \<open>Replay of the log\<close>

lemma logged_Cons: "logged (e # es) j = (case logged es j of Some d \<Rightarrow> Some d
    | None \<Rightarrow> (case e of PageUpdate p d \<Rightarrow> if j = p then Some d else None | _ \<Rightarrow> None))"
  by (cases e) (auto simp: logged_def page_updates_def map_add_def split: option.split)

lemma logged_mem: "logged es j = Some d \<Longrightarrow> PageUpdate j d \<in> set es"
proof (induction es)
  case (Cons e es)
  then show ?case by (cases e) (auto simp: logged_Cons split: option.splits if_splits)
qed (simp add: logged_def page_updates_def)

lemma replay_page:
  assumes "posix (penv E)" and "pager_inv (pager_boot (bt_pager s))" and "length d = PAGE_SIZE"
  shows "replay E now (PageUpdate p d) s =
    Some (Inr (), s\<lparr>bt_pager := written (penv E) p d (pager_boot (bt_pager s))\<rparr>)"
  using write_page_posix [OF assms, of p] write_page_boot [of "penv E" p d "bt_pager s"] assms(3)
  by (simp add: replay_def zoom_def)

lemma replay_other:
  "(\<And>p d. e \<noteq> PageUpdate p d) \<Longrightarrow> \<exists>m. replay E now e s = Some (Inr (), s\<lparr>memory_tier := m\<rparr>)"
  by (cases e) (auto simp: replay_def intro: exI [of _ "memory_tier s"])

lemma replays:
  assumes "posix (penv E)" and "pager_inv (pager_boot (bt_pager s))" and "whole_pages N es"
    and "page_count (bt_pager s) \<le> N"
  shows "\<exists>s'. for_each (enumerate i es) (\<lambda>(i, e). replay E (clock i) e) s = Some (Inr (), s')
    \<and> pager_inv (pager_boot (bt_pager s')) \<and> bt_wal s' = bt_wal s \<and> root_page_id s' = root_page_id s
    \<and> page_count (bt_pager s) \<le> page_count (bt_pager s') \<and> page_count (bt_pager s') \<le> N
    \<and> (\<forall>j. page_of (disk (bt_pager s')) j = (case logged es j of
          Some d \<Rightarrow> stamp (penv E) d | None \<Rightarrow> page_of (disk (bt_pager s)) j))
    \<and> (\<forall>j. logged es j \<noteq> None \<longrightarrow> unat j < page_count (bt_pager s'))"
  using assms(2-)
proof (induction es arbitrary: s i)
  case Nil
  then show ?case by (simp add: logged_def page_updates_def)
next
  case (Cons e es)
  have es: "whole_pages N es" using Cons.prems(2) by (auto simp: whole_pages_def)
  show ?case
  proof (cases "\<exists>p d. e = PageUpdate p d")
    case True
    then obtain p d where e: "e = PageUpdate p d" by blast
    then have d: "length d = PAGE_SIZE" "unat p < N" using Cons.prems(2) by (auto simp: whole_pages_def)
    let ?p = "written (penv E) p d (pager_boot (bt_pager s))"
    let ?s = "s\<lparr>bt_pager := ?p\<rparr>"
    have dk: "disk (pager_boot (bt_pager s)) = disk (bt_pager s)" by (simp add: pager_boot_def)
    have inv: "pager_inv ?p" using Cons.prems(1) d(1) by (rule pager_inv_written)
    then have boot: "pager_inv (pager_boot (bt_pager ?s))" by (simp add: pager_inv_def)
    have pc: "page_count ?p = max (page_count (bt_pager s)) (Suc (unat p))"
      using page_count_written [OF Cons.prems(1) d(1)] by (simp add: page_count_def dk)
    then have le: "page_count (bt_pager ?s) \<le> N" using Cons.prems(3) d(2) by simp
    from Cons.IH [OF boot es le, of "Suc i"] obtain s' where
      s': "for_each (enumerate (Suc i) es) (\<lambda>(i, e). replay E (clock i) e) ?s = Some (Inr (), s')"
      "pager_inv (pager_boot (bt_pager s'))" "bt_wal s' = bt_wal s" "root_page_id s' = root_page_id s"
      "page_count ?p \<le> page_count (bt_pager s')" "page_count (bt_pager s') \<le> N"
      "\<And>j. page_of (disk (bt_pager s')) j = (case logged es j of
          Some d \<Rightarrow> stamp (penv E) d | None \<Rightarrow> page_of (disk (bt_pager ?s)) j)"
      "\<And>j. logged es j \<noteq> None \<Longrightarrow> unat j < page_count (bt_pager s')"
      by auto
    have "for_each (enumerate i (e # es)) (\<lambda>(i, e). replay E (clock i) e) s = Some (Inr (), s')"
      using replay_page [OF assms(1) Cons.prems(1) d(1), of "clock i" p] s'(1) by (simp add: e seq_Inr)
    moreover have "page_of (disk ?p) j = (if j = p then stamp (penv E) d else page_of (disk (bt_pager s)) j)" for j
      using page_of_written [OF Cons.prems(1) d(1)] dk by simp
    ultimately show ?thesis
      using s' pc by (intro exI [of _ s']) (auto simp: e logged_Cons split: option.split)
  next
    case False
    then obtain m where m: "replay E (clock i) e s = Some (Inr (), s\<lparr>memory_tier := m\<rparr>)"
      using replay_other by metis
    let ?s = "s\<lparr>memory_tier := m\<rparr>"
    have "pager_inv (pager_boot (bt_pager ?s))" "page_count (bt_pager ?s) \<le> N" using Cons.prems by simp_all
    note IH = Cons.IH [OF this(1) es this(2), of "Suc i"]
    have "logged (e # es) = logged es"
      using False by (cases e) (auto simp: logged_Cons fun_eq_iff split: option.split)
    moreover have "bt_pager ?s = bt_pager s" by simp
    note IH [unfolded this]
    ultimately show ?thesis using m by (simp add: seq_Inr)
  qed
qed

lemma open_replay:
  assumes "posix (penv E)" and "whole_file f" and "f \<noteq> []" and "recovered_entries (wal_open (wenv E) wal_content) = es"
    and "whole_pages N es" and "length f div PAGE_SIZE \<le> N" and "N < 2 ^ 32" and "es = [] \<Longrightarrow> boots"
  shows "\<exists>s. bt_open E clock boots f wal_content m = Some (Inr (), s) \<and> root_page_id s = 0
    \<and> pager_inv (bt_pager s) \<and> queue (bt_wal s) = []
    \<and> length f div PAGE_SIZE \<le> pages s
    \<and> (\<forall>j. page_of (disk (bt_pager s)) j = (case logged es j of
          Some d \<Rightarrow> stamp (penv E) d | None \<Rightarrow> page_of f j))
    \<and> (\<forall>j. logged es j \<noteq> None \<longrightarrow> unat j < pages s)"
proof -
  let ?w = "(wal_open (wenv E) wal_content)\<lparr>recovered_entries := []\<rparr>"
  let ?init = "\<lparr>bt_pager = pager_open f, bt_wal = ?w, root_page_id = 0, memory_tier = m\<rparr>"
  have f: "0 < length f div PAGE_SIZE"
    using assms(2,3) by (auto simp: whole_file_def PAGE_SIZE_def div_greater_zero_iff dest: dvd_imp_le)
  have pc0: "page_count (bt_pager ?init) = length f div PAGE_SIZE"
    by (simp add: page_count_def pager_open_def)
  have inv0: "pager_inv (pager_boot (bt_pager ?init))" using boot_inv [OF assms(2)] by simp
  from replays [OF assms(1) inv0 assms(5), of 0 clock] assms(6) obtain s where
    s: "for_each (enumerate 0 es) (\<lambda>(i, e). replay E (clock i) e) ?init = Some (Inr (), s)"
    "pager_inv (pager_boot (bt_pager s))" "bt_wal s = ?w" "root_page_id s = 0"
    "length f div PAGE_SIZE \<le> page_count (bt_pager s)" "page_count (bt_pager s) \<le> N"
    "\<And>j. page_of (disk (bt_pager s)) j = (case logged es j of
        Some d \<Rightarrow> stamp (penv E) d | None \<Rightarrow> page_of (disk (bt_pager ?init)) j)"
    "\<And>j. logged es j \<noteq> None \<Longrightarrow> unat j < page_count (bt_pager s)"
    unfolding pc0 by auto
  have dk0: "disk (bt_pager ?init) = f" by (simp add: pager_open_def)
  let ?s = "s\<lparr>bt_pager := pager_boot (bt_pager s)\<rparr>"
  have dk: "disk (pager_boot (bt_pager s)) = disk (bt_pager s)" by (simp add: pager_boot_def)
  then have pc: "page_count (pager_boot (bt_pager s)) = page_count (bt_pager s)" by (simp add: page_count_def)
  have "unat (num_pages (pager_boot (bt_pager s))) = page_count (bt_pager s)"
    using unat_new_page [of "page_count (bt_pager s)"] s(6) assms(7) by (simp add: num_pages_count [OF s(2)] pc)
  then have np: "num_pages (pager_boot (bt_pager s)) \<noteq> 0" using f s(5) by auto
  have boot2: "pager_boot (pager_boot p) = pager_boot p" for p by (simp add: pager_boot_def)
  have rd: "wal_read_all (wal_open (wenv E) wal_content) = (es, ?w)"
    by (simp add: wal_read_all_def assms(4))
  have "bt_open E clock boots f wal_content m = Some (Inr (), ?s)"
  proof (cases "es = []")
    case True
    with assms(8) have boots by simp
    have "s = ?init" using s(1) True by simp
    have eq: "bt_pager s = pager_open f" "?s = ?init\<lparr>bt_pager := pager_boot (pager_open f)\<rparr>"
      unfolding \<open>s = ?init\<close> by simp_all
    show ?thesis
      unfolding eq(2) bt_open_def rd using True \<open>boots\<close> np [unfolded eq(1)] by simp
  next
    case False
    have sy: "on_pager (pager_sync (penv E)) s = Some (Inr (), ?s)"
      by (simp add: zoom_def pager_sync_boot [OF assms(1)])
    have run: "for_each (enumerate 0 es) (\<lambda>(i, e). replay E (clock i) e) ?init = Some (Inr (), s)" by (rule s(1))
    have boot': "(if boots then ?s\<lparr>bt_pager := pager_boot (bt_pager ?s)\<rparr> else ?s) = ?s"
      by (simp add: boot2)
    have "bt_open E clock boots f wal_content m = seq (seq
        (for_each (enumerate 0 es) (\<lambda>(i, e). replay E (clock i) e)) (\<lambda>_. on_pager (pager_sync (penv E))))
        (\<lambda>_. seq (modify_st (\<lambda>s. if boots then s\<lparr>bt_pager := pager_boot (bt_pager s)\<rparr> else s)) (\<lambda>_.
        seq (read_st (\<lambda>s. num_pages (bt_pager s))) (\<lambda>n. if n = 0 then
          seq (of_result (to_bytes E new_leaf)) (\<lambda>bs. seq (on_pager (write_page (penv E) 0 bs))
            (\<lambda>_. on_pager (pager_sync (penv E)))) else ret ()))) ?init"
      using False unfolding bt_open_def rd by simp
    also have "\<dots> = Some (Inr (), ?s)"
      using np run sy boot' by (simp add: seq_Inr)
    finally show ?thesis .
  qed
  with s(2-6,8) s(7) [unfolded dk0] dk pc show ?thesis
    by (intro exI [of _ ?s]) (simp add: wal_read_all_def wal_open_def)
qed

section \<open>Lookup and insertion\<close>

lemma get_full_sim:
  assumes "tree_rep E p0 s t"
  shows "\<exists>s'. bt_get E key s = Some (Inr (case mt_lookup (memory_tier s) key of
        Some v \<Rightarrow> Some v | None \<Rightarrow> map_of (entries t) key), s') \<and> tree_rep E p0 s' t
    \<and> memory_tier s' = snd (mt_get key (memory_tier s))"
proof -
  obtain c m where m: "mt_get key (memory_tier s) = (c, m)" by (cases "mt_get key (memory_tier s)")
  then have c: "mt_lookup (memory_tier s) key = c" by (metis fst_conv mt_get_fst)
  let ?s = "s\<lparr>memory_tier := m\<rparr>"
  have "node_at E p0 ?s = node_at E p0 s" by (simp add: fun_eq_iff node_at_def recoverable_def)
  then have rep: "tree_rep E p0 ?s t"
    using assms by (simp add: tree_rep_def trees_at_def binv_def)
  then have "get_from E key (tid t) ?s = Some (Inr (map_of (entries t) key), ?s)"
    by (intro get_sim) (auto simp: tree_rep_def trees_at_def)
  then have "get_from E key (root_page_id s) ?s = Some (Inr (map_of (entries t) key), ?s)"
    using assms by (simp add: tree_rep_def)
  with rep show ?thesis
    by (intro exI [of _ ?s]) (simp add: bt_get_def m c split: option.split)
qed

lemma bt_get_total:
  "tree_rep E p0 s t \<Longrightarrow> map_option fst (bt_get E key s) =
     Some (Inr (case mt_lookup (memory_tier s) key of Some v \<Rightarrow> Some v | None \<Rightarrow> map_of (entries t) key))"
  using get_full_sim [of E p0 s t key] by auto

text \<open>
  C26 (B+tree, lookup): in a tree stored in the file, \<open>get\<close> returns; its result is the value
  the memory tier holds for the key, if any, and otherwise the tree's value for the key. The
  tree is unchanged.
\<close>

theorem bt_get_spec:
  assumes "tree_rep E p0 s t"
  shows "\<exists>s'. bt_get E key s = Some (Inr (case mt_lookup (memory_tier s) key of
        Some v \<Rightarrow> Some v | None \<Rightarrow> map_of (entries t) key), s') \<and> tree_rep E p0 s' t
    \<and> memory_tier s' = snd (mt_get key (memory_tier s))"
  using get_full_sim [OF assms] .

text \<open>
  C3 (B+tree, insertion): when no split on the way takes the inserted key itself as the
  separator (C37 shows that such an insertion can be lost), every node of the resulting tree
  fits a page, the page numbers stay below \<open>2 ^ 32\<close> and the log queue has room, \<open>insert\<close> returns
  without error; the file then stores exactly the tree that insertion on trees gives, and this
  tree is a search tree whose map is the old one updated at the key.
\<close>

theorem bt_insert_spec:
  assumes "tree_rep E p0 s t" and "clean_root (is_full E) key (pages s) t"
    and "pt_insert (is_full E) key val (pages s) t = (t', n')" and "fits_tree t'"
    and "n' \<le> 2 ^ 32" and "insert_room t \<le> room s"
  shows "\<exists>s'. bt_insert E key val s = Some (Inr (), s') \<and> tree_rep E p0 s' t'
    \<and> map_of (entries t') = (map_of (entries t))(key \<mapsto> val)
    \<and> memory_tier s' = memory_tier s \<and> pages s' = n'"
proof -
  from insert_full_sim [OF assms] obtain s' where
    "bt_insert E key val s = Some (Inr (), s')" "tree_rep E p0 s' t'" "pages s' = n'"
    "frame_of s' = frame_of s" by auto
  moreover have "map_of (entries t') = (map_of (entries t))(key \<mapsto> val)"
    using pt_insert_spec [of t "is_full E" key "pages s" val] assms(1-3) by (auto simp: tree_rep_def)
  ultimately show ?thesis by (auto simp: frame_of_def)
qed

text \<open>A run of insertions that each meet the conditions of \<open>bt_insert_spec\<close>.\<close>

fun inserts_ok :: "btree_env \<Rightarrow> nat \<Rightarrow> nat \<Rightarrow> ptree \<Rightarrow> (bytes \<times> bytes) list \<Rightarrow> bool" where
  "inserts_ok E n r t [] \<longleftrightarrow> True"
| "inserts_ok E n r t ((key, val) # kvs) \<longleftrightarrow> clean_root (is_full E) key n t \<and> insert_room t \<le> r
     \<and> (case pt_insert (is_full E) key val n t of (t', n') \<Rightarrow>
          fits_tree t' \<and> n' \<le> 2 ^ 32 \<and> inserts_ok E n' (r - insert_room t) t' kvs)"

fun pt_inserts :: "btree_env \<Rightarrow> nat \<Rightarrow> ptree \<Rightarrow> (bytes \<times> bytes) list \<Rightarrow> ptree" where
  "pt_inserts E n t [] = t"
| "pt_inserts E n t ((key, val) # kvs) =
     (case pt_insert (is_full E) key val n t of (t', n') \<Rightarrow> pt_inserts E n' t' kvs)"

lemma inserts_sim:
  assumes "tree_rep E p0 s t" and "inserts_ok E (pages s) r t kvs" and "r \<le> room s"
  shows "\<exists>s'. for_each kvs (\<lambda>(k, v). bt_insert E k v) s = Some (Inr (), s')
    \<and> tree_rep E p0 s' (pt_inserts E (pages s) t kvs) \<and> frame_of s' = frame_of s
    \<and> map_of (entries (pt_inserts E (pages s) t kvs)) = map_of (entries t) ++ map_of (rev kvs)"
  using assms
proof (induction kvs arbitrary: s t r)
  case (Cons kv kvs)
  obtain k v where kv: "kv = (k, v)" by (cases kv)
  obtain t' n' where pi: "pt_insert (is_full E) k v (pages s) t = (t', n')" by fastforce
  have ok: "clean_root (is_full E) k (pages s) t" "insert_room t \<le> room s" "fits_tree t'" "n' \<le> 2 ^ 32"
    "inserts_ok E n' (r - insert_room t) t' kvs"
    using Cons.prems kv pi by auto
  from insert_full_sim [OF Cons.prems(1) ok(1) pi ok(3,4,2)] obtain s1 where
    s1: "bt_insert E k v s = Some (Inr (), s1)" "tree_rep E p0 s1 t'" "pages s1 = n'"
    "room s - insert_room t \<le> room s1" "frame_of s1 = frame_of s" by auto
  have "r - insert_room t \<le> room s1" using s1(4) Cons.prems(3) by simp
  from Cons.IH [OF s1(2) ok(5) [folded s1(3)] this] obtain s' where
    s': "for_each kvs (\<lambda>(k, v). bt_insert E k v) s1 = Some (Inr (), s')"
    "tree_rep E p0 s' (pt_inserts E n' t' kvs)" "frame_of s' = frame_of s1"
    "map_of (entries (pt_inserts E n' t' kvs)) = map_of (entries t') ++ map_of (rev kvs)"
    by (auto simp: s1(3))
  have "map_of (entries t') = (map_of (entries t))(k \<mapsto> v)"
    using pt_insert_spec [of t "is_full E" k "pages s" v] Cons.prems(1) ok(1) pi by (auto simp: tree_rep_def)
  with s1 s' pi show ?case
    by (intro exI [of _ s']) (simp add: kv seq_Inr map_add_def fun_eq_iff split: option.split)
qed simp

text \<open>
  C18 (B+tree, reads after writes): after a run of insertions each of which meets the conditions
  of C3 in its turn (no split on its way takes its key as the separator, the nodes fit their
  pages, page numbers and queue have room: \<open>inserts_ok\<close>), all insertions have succeeded, and
  every key reads as the last value inserted for it, a key that was not inserted as before the
  run (the memory tier, which insertion does not touch, answers first). C37 is a run outside
  these conditions in which a key reads as an older value.
\<close>

theorem bt_inserts_read:
  assumes "tree_rep E p0 s t" and "inserts_ok E (pages s) (room s) t kvs"
  shows "\<exists>s'. for_each kvs (\<lambda>(k, v). bt_insert E k v) s = Some (Inr (), s')
    \<and> (\<forall>k. map_option fst (bt_get E k s') = Some (Inr (case mt_lookup (memory_tier s) k of
          Some v \<Rightarrow> Some v
        | None \<Rightarrow> (case map_of (rev kvs) k of Some v \<Rightarrow> Some v | None \<Rightarrow> map_of (entries t) k))))"
proof -
  from inserts_sim [OF assms le_refl] obtain s' where
    s': "for_each kvs (\<lambda>(k, v). bt_insert E k v) s = Some (Inr (), s')"
    "tree_rep E p0 s' (pt_inserts E (pages s) t kvs)" "frame_of s' = frame_of s"
    "map_of (entries (pt_inserts E (pages s) t kvs)) = map_of (entries t) ++ map_of (rev kvs)" by auto
  have "map_option fst (bt_get E k s') = Some (Inr (case mt_lookup (memory_tier s) k of
      Some v \<Rightarrow> Some v
    | None \<Rightarrow> (case map_of (rev kvs) k of Some v \<Rightarrow> Some v | None \<Rightarrow> map_of (entries t) k)))" for k
    using bt_get_total [OF s'(2), of k] s'(3) unfolding s'(4) map_add_def by (simp add: frame_of_def)
  with s'(1) show ?thesis by blast
qed

section \<open>New keys\<close>

primrec node_keys :: "ptree \<Rightarrow> bytes list" where
  "node_keys (PLeaf p ks vs nx) = ks"
| "node_keys (PNode p ks ts) = ks @ concat (map node_keys ts)"

primrec node_vals :: "ptree \<Rightarrow> bytes list" where
  "node_vals (PLeaf p ks vs nx) = vs"
| "node_vals (PNode p ks ts) = concat (map node_vals ts)"

definition small_entries :: "ptree \<Rightarrow> bool" where
  "small_entries t \<longleftrightarrow> (\<forall>x \<in> set (node_keys t) \<union> set (node_vals t). length x \<le> 1000)"

lemma full_size: "node_codec E \<Longrightarrow> is_full E n \<Longrightarrow> 3072 < node_size n"
  by (cases "ser_node E n") (auto simp: is_full_def node_codec_def PAGE_SIZE_def)

lemma full_splittable:
  assumes "node_codec E" and "small_entries t" and "okt t lo hi" and "is_full E (node_of t)"
  shows "splittable t"
proof (cases t)
  case (PLeaf p ks vs nx)
  have "length ks \<noteq> 0" "length ks \<noteq> 1"
    using full_size [OF assms(1,4)] assms(2,3) PLeaf
    by (auto simp: small_entries_def node_size_def new_leaf_def vecs_size_def length_Suc_conv split: option.splits)
  with PLeaf show ?thesis by (cases ks rule: remdups_adj.cases) auto
next
  case (PNode p ks ts)
  have "ks \<noteq> []"
    using full_size [OF assms(1,4)] assms(3) PNode
    by (auto simp: node_size_def new_internal_def vecs_size_def)
  with PNode show ?thesis by simp
qed

lemma split_keys:
  assumes "pt_split q t = (l, m, r)"
  shows "set (node_keys l) \<union> set (node_keys r) \<subseteq> set (node_keys t)"
    and "set (node_vals l) \<union> set (node_vals r) \<subseteq> set (node_vals t)"
    and "splittable t \<Longrightarrow> m \<in> set (node_keys t)"
proof -
  have *: "(\<Union>x \<in> set (take k ts). f x) \<subseteq> (\<Union>x \<in> set ts. f x)" "(\<Union>x \<in> set (drop k ts). f x) \<subseteq> (\<Union>x \<in> set ts. f x)"
    for k and f :: "ptree \<Rightarrow> bytes set" and ts
    by (auto dest: in_set_takeD in_set_dropD)
  show "set (node_keys l) \<union> set (node_keys r) \<subseteq> set (node_keys t)"
    "set (node_vals l) \<union> set (node_vals r) \<subseteq> set (node_vals t)"
    using assms * by (cases t; auto simp: Let_def dest: in_set_takeD in_set_dropD)+
  show "m \<in> set (node_keys t)" if "splittable t"
    using assms that by (cases t) (auto simp: Let_def intro!: nth_mem)
qed

lemma small_split: "pt_split q t = (l, m, r) \<Longrightarrow> small_entries t \<Longrightarrow> small_entries l \<and> small_entries r"
  using split_keys [of q t l m r] unfolding small_entries_def by blast

lemma small_child: "small_entries (PNode p ks ts) \<Longrightarrow> t \<in> set ts \<Longrightarrow> small_entries t"
  by (auto simp: small_entries_def)

lemma keys_child: "k \<notin> set (node_keys (PNode p ks ts)) \<Longrightarrow> t \<in> set ts \<Longrightarrow> k \<notin> set (node_keys t)"
  by auto

text \<open>An insertion of a key that is in no node takes that key as no separator.\<close>

lemma fresh_clean:
  assumes "node_codec E" and "okt t lo hi" and "small_entries t" and "key \<notin> set (node_keys t)"
    and "from_lo lo key" and "below hi key"
  shows "clean (is_full E) key n t"
  using assms(2-)
proof (induction "is_full E" key n t arbitrary: lo hi rule: clean.induct)
  case (2 key n p ks ts)
  let ?i = "slot ks key"
  let ?c = "ts ! ?i"
  obtain ks' ts' i m where st: "pt_step (is_full E) key n ks ts = (ks', ts', i, m)" by (metis prod_cases4)
  have i: "?i < length ts" by (rule slot_child [OF "2.prems"(1)])
  have c: "small_entries ?c" "key \<notin> set (node_keys ?c)" "okt ?c (lo_of lo ks ?i) (hi_of ks hi ?i)"
    using small_child [OF "2.prems"(2)] keys_child [OF "2.prems"(3)] okt_child [OF "2.prems"(1) i] i by auto
  have cl: "splittable ?c \<and> fst (snd (pt_split (of_nat n) ?c)) \<noteq> key" if "is_full E (node_of ?c)"
  proof -
    have "splittable ?c" by (rule full_splittable [OF assms(1) c(1,3) that])
    moreover obtain l m r where sp: "pt_split (of_nat n) ?c = (l, m, r)" by (metis prod_cases3)
    ultimately have "m \<in> set (node_keys ?c)" by (intro split_keys(3) [OF sp])
    with c(2) sp \<open>splittable ?c\<close> show ?thesis by auto
  qed
  from pt_step_spec [OF "2.prems"(1) st cl]
  have ok': "okt (PNode p ks' ts') lo hi" and i': "i = slot ks' key" "i < length ts'" by auto
  have s': "sorted_wrt (<) ks'" using ok' by simp
  have "\<forall>t \<in> set ts'. small_entries t \<and> key \<notin> set (node_keys t)"
  proof (cases "is_full E (node_of ?c)")
    case True
    obtain l x r where sp: "pt_split (of_nat n) ?c = (l, x, r)" by (metis prod_cases3)
    have "ts' = take ?i ts @ [l, r] @ drop (Suc ?i) ts" using st True sp by (auto simp: pt_step_def Let_def)
    with small_split [OF sp c(1)] split_keys(1) [OF sp] c(2) small_child [OF "2.prems"(2)]
      keys_child [OF "2.prems"(3)]
    show ?thesis by (auto dest: in_set_takeD in_set_dropD)
  next
    case False
    then have "ts' = ts" using st by (auto simp: pt_step_def Let_def)
    with small_child [OF "2.prems"(2)] keys_child [OF "2.prems"(3)] show ?thesis by auto
  qed
  then have e: "small_entries (ts' ! i)" "key \<notin> set (node_keys (ts' ! i))" using i'(2) by simp_all
  from slot_in_range [OF s' "2.prems"(4,5)]
  have "clean (is_full E) key m (ts' ! i)"
    by (intro "2.hyps" [OF st [symmetric] refl refl i impI [OF cl] i'(2) okt_child [OF ok' i'(2)] e])
      (simp_all add: i'(1))
  with st i cl i'(2) show ?case by (simp add: clean.simps(2))
qed simp

lemma fresh_clean_root:
  assumes "node_codec E" and "okt t None None" and "small_entries t" and "key \<notin> set (node_keys t)"
  shows "clean_root (is_full E) key n t"
proof (cases "is_full E (node_of t)")
  case True
  have spl: "splittable t" by (rule full_splittable [OF assms(1,3,2) True])
  obtain l m r where sp: "pt_split (of_nat (Suc n)) (with_tid (of_nat n) t) = (l, m, r)" by (metis prod_cases3)
  have same: "node_keys (with_tid q t) = node_keys t" "node_vals (with_tid q t) = node_vals t" for q
    by (cases t; simp)+
  have g: "pt_grow n t = PNode (tid t) [m] [l, r]" by (simp only: pt_grow_def sp prod.case)
  have "m \<in> set (node_keys t)" using split_keys(3) [OF sp] spl by (simp add: same)
  then have "small_entries (pt_grow n t) \<and> key \<notin> set (node_keys (pt_grow n t))"
    using split_keys(1,2) [OF sp] assms(3,4) by (auto simp: g small_entries_def same)
  with fresh_clean [OF assms(1) conjunct1 [OF pt_grow_spec [OF assms(2) spl]], of n key] spl True show ?thesis
    by (simp add: clean_root_def)
next
  case False
  with fresh_clean [OF assms] show ?thesis by (simp add: clean_root_def)
qed

text \<open>
  New keys: in a tree whose keys and values are at most 1000 bytes long,
  inserting a key that is in no node succeeds whenever the resulting nodes fit their pages
  (and page numbers and the log queue suffice); afterwards \<open>get\<close> finds the new value and
  every other key reads as before.
\<close>

theorem bt_insert_new_key:
  assumes "tree_rep E p0 s t" and "small_entries t" and "key \<notin> set (node_keys t)"
    and "fits_tree (fst (pt_insert (is_full E) key val (pages s) t))"
    and "snd (pt_insert (is_full E) key val (pages s) t) \<le> 2 ^ 32" and "insert_room t \<le> room s"
    and "mt_lookup (memory_tier s) = (\<lambda>_. None)"
  shows "\<exists>s'. bt_insert E key val s = Some (Inr (), s')
    \<and> map_option fst (bt_get E key s') = Some (Inr (Some val))
    \<and> (\<forall>k. k \<noteq> key \<longrightarrow> map_option fst (bt_get E k s') = map_option fst (bt_get E k s))"
proof -
  have codec: "node_codec E" and ok: "okt t None None" using assms(1) by (auto simp: tree_rep_def binv_def)
  note cl = fresh_clean_root [OF codec ok assms(2,3)]
  from insert_full_sim [OF assms(1) cl prod.collapse [symmetric] assms(4-6)] obtain s' where
    s': "bt_insert E key val s = Some (Inr (), s')"
    "tree_rep E p0 s' (fst (pt_insert (is_full E) key val (pages s) t))" "frame_of s' = frame_of s" by auto
  have "map_option fst (bt_get E k s') = Some (Inr (((map_of (entries t))(key \<mapsto> val)) k))" for k
    using bt_get_total [OF s'(2), of k] pt_insert_spec [OF ok cl, of val] s'(3) assms(7)
    by (simp add: frame_of_def)
  moreover have "map_option fst (bt_get E k s) = Some (Inr (map_of (entries t) k))" for k
    using bt_get_total [OF assms(1), of k] assms(7) by simp
  ultimately show ?thesis using s'(1) by (intro exI [of _ s']) (simp del: map_option_eq_Some)
qed

section \<open>Crash recovery\<close>

lemma tree_rep_recovered:
  assumes rep: "tree_rep E p0 s t" and s': "pager_inv (bt_pager s')" "queue (bt_wal s') = []"
    "root_page_id s' = root_page_id s"
    and pg: "\<And>j. logged (queue (bt_wal s)) j = None \<Longrightarrow> unat j < page_count p0 \<Longrightarrow>
      unat j < pages s' \<and> page_of (disk (bt_pager s')) j = page_of (disk p0) j"
    "\<And>j d. logged (queue (bt_wal s)) j = Some d \<Longrightarrow>
      unat j < pages s' \<and> page_of (disk (bt_pager s')) j = stamp (penv E) d"
  shows "tree_rep E (bt_pager s') s' t"
proof (rule tree_rep_own)
  show "unat p < pages s' \<and> page_node E (page_of (disk (bt_pager s')) p) = node_at E p0 s p"
    if "p \<in> set (pages_of t)" for p
  proof -
    have "holds t (node_at E p0 s)" using rep by (simp add: tree_rep_def trees_at_def)
    from holds_page [OF this that] obtain n where n: "node_at E p0 s p = Some n" by auto
    with node_at_page have "recoverable E p0 s p = Some n" by blast
    with n pg [of p] show ?thesis
      by (auto simp: recoverable_def split: option.splits if_splits)
  qed
qed (use rep s' in \<open>auto simp: tree_rep_def trees_at_def binv_def\<close>)

lemma crash_ok:
  assumes "tree_rep E p0 s t" and "root_page_id s = 0" and "pages s < 2 ^ 32"
    and "wal_codec (wenv E)" and "concat bs = queue (bt_wal s)"
    and "\<forall>es \<in> set bs. \<forall>e \<in> set es. loggable (wenv E) e"
    and "\<forall>es \<in> set bs. gap_ok (batch_bytes (wenv E) es)"
    and "whole_file f" and "f \<noteq> []" and "page_count p0 * PAGE_SIZE \<le> length f"
    and "length f \<le> pages s * PAGE_SIZE"
    and "\<forall>j. unat j < page_count p0 \<longrightarrow> logged (queue (bt_wal s)) j = None \<longrightarrow>
      page_of f j = page_of (disk p0) j"
    and "queue (bt_wal s) = [] \<longrightarrow> boots"
  shows "\<exists>s'. bt_open E clock boots f (Some (log_of (wenv E) bs)) m = Some (Inr (), s')
    \<and> tree_rep E (bt_pager s') s' t"
proof -
  have px: "posix (penv E)" and wp: "whole_pages (pages s) (queue (bt_wal s))"
    using assms(1) by (auto simp: tree_rep_def binv_def)
  have rec: "recovered_entries (wal_open (wenv E) (Some (log_of (wenv E) bs))) = queue (bt_wal s)"
    using wal_recover_batches [OF assms(4,6,7)] assms(5) by (simp add: wal_open_def)
  have le: "length f div PAGE_SIZE \<le> pages s" "page_count p0 \<le> length f div PAGE_SIZE"
    using assms(10,11) div_le_mono [OF assms(11), of PAGE_SIZE] div_le_mono [OF assms(10), of PAGE_SIZE]
    by (simp_all add: PAGE_SIZE_def)
  from open_replay [OF px assms(8,9) rec wp le(1) assms(3), of boots clock m] assms(13) obtain s' where
    s': "bt_open E clock boots f (Some (log_of (wenv E) bs)) m = Some (Inr (), s')" "root_page_id s' = 0"
    "pager_inv (bt_pager s')" "queue (bt_wal s') = []" "length f div PAGE_SIZE \<le> pages s'"
    "\<And>j. page_of (disk (bt_pager s')) j = (case logged (queue (bt_wal s)) j of
        Some d \<Rightarrow> stamp (penv E) d | None \<Rightarrow> page_of f j)"
    "\<And>j. logged (queue (bt_wal s)) j \<noteq> None \<Longrightarrow> unat j < pages s'"
    by blast
  have "tree_rep E (bt_pager s') s' t"
    using s' le(2) assms(2,12) by (intro tree_rep_recovered [OF assms(1)]) auto
  with s'(1) show ?thesis by blast
qed

text \<open>
  C4 (B+tree, crash recovery): let a tree be stored over the file \<open>p0\<close> with its page updates
  on the log's queue, and let the queue reach the log file as batches that leave room for
  the end marker. If a crash leaves any file of whole pages in which the pages without an
  update are those of \<open>p0\<close> (pages with one may be old, new or garbage), opening the
  database with that file and that log succeeds and the opened tree is the stored tree.
\<close>

theorem bt_crash_recovery:
  assumes "tree_rep E p0 s t" and "root_page_id s = 0" and "pages s < 2 ^ 32"
    and "wal_codec (wenv E)" and "concat bs = queue (bt_wal s)"
    and "\<forall>es \<in> set bs. \<forall>e \<in> set es. loggable (wenv E) e"
    and "\<forall>es \<in> set bs. gap_ok (batch_bytes (wenv E) es)"
    and "whole_file f" and "f \<noteq> []" and "page_count p0 * PAGE_SIZE \<le> length f"
    and "length f \<le> pages s * PAGE_SIZE"
    and "\<forall>j. unat j < page_count p0 \<longrightarrow> logged (queue (bt_wal s)) j = None \<longrightarrow>
      page_of f j = page_of (disk p0) j"
    and "queue (bt_wal s) = [] \<longrightarrow> boots"
  shows "\<exists>s'. bt_open E clock boots f (Some (log_of (wenv E) bs)) m = Some (Inr (), s')
    \<and> tree_rep E (bt_pager s') s' t"
  by (rule crash_ok [OF assms])

lemma root_page_exists: "tree_rep E p0 s t \<Longrightarrow> 0 < pages s"
  using tid_in_pages [of t] by (fastforce simp: tree_rep_def trees_at_def)

lemma disk_whole: "pager_inv p \<Longrightarrow> page_count p < 2 ^ 32 \<Longrightarrow> whole_file (disk p)"
  by (auto simp: pager_inv_def whole_file_def page_count_def PAGE_SIZE_def elim!: dvdE)

text \<open>
  Reopening: closing a database whose file holds a tree and opening the file
  again, with no log and after the pager's thread has started, gives back the same tree.
\<close>

lemma bt_reopen:
  assumes "tree_rep E p0 s t" and "root_page_id s = 0" and "pages s < 2 ^ 32"
  shows "\<exists>s'. bt_open E clock True (disk (bt_pager s)) None m = Some (Inr (), s')
    \<and> tree_rep E (bt_pager s') s' t"
proof -
  have px: "posix (penv E)" and inv: "pager_inv (bt_pager s)" and codec: "node_codec E"
    using assms(1) by (auto simp: tree_rep_def binv_def)
  have wf: "whole_file (disk (bt_pager s))" by (rule disk_whole [OF inv assms(3)])
  have ne: "disk (bt_pager s) \<noteq> []" using root_page_exists [OF assms(1)] by (auto simp: page_count_def)
  from open_replay [OF px wf ne, of None "[]" "pages s" True clock m] assms(3) obtain s' where
    s': "bt_open E clock True (disk (bt_pager s)) None m = Some (Inr (), s')" "root_page_id s' = 0"
    "pager_inv (bt_pager s')" "queue (bt_wal s') = []" "pages s \<le> pages s'"
    "\<And>j. page_of (disk (bt_pager s')) j = page_of (disk (bt_pager s)) j"
    by (auto simp: wal_open_def whole_pages_def page_count_def logged_def page_updates_def)
  have "tree_rep E (bt_pager s') s' t"
  proof (rule tree_rep_own [OF px codec s'(3,4)])
    show "holds t (node_at E p0 s)" "fits_tree t" "okt t None None" "distinct (pages_of t)" "tid t = root_page_id s'"
      using assms(1,2) s'(2) by (auto simp: tree_rep_def trees_at_def)
    show "unat p < pages s' \<and> page_node E (page_of (disk (bt_pager s')) p) = node_at E p0 s p"
      if "p \<in> set (pages_of t)" for p
      using that holds_page [OF \<open>holds t (node_at E p0 s)\<close> that] assms(1) s'(5,6)
      by (auto simp: tree_rep_def trees_at_def dest: node_at_page)
  qed
  with s'(1) show ?thesis by blast
qed

text \<open>
  C39 (B+tree, race when opening): \<open>open\<close> asks for the number of pages without waiting for the
  pager's thread. When the thread has not read the file length yet, the answer is 0
  whatever the file holds, and \<open>open\<close> writes an empty root over page 0: it succeeds, and no
  key that is not cached is found any more.
\<close>

theorem bt_open_race:
  assumes "posix (penv E)" and "node_codec E" and "whole_file f"
  shows "\<exists>s. bt_open E clock False f None m = Some (Inr (), s)
    \<and> (\<forall>key. mt_lookup m key = None \<longrightarrow> map_option fst (bt_get E key s) = Some (Inr None))"
proof -
  have "num_pages (pager_open f) = 0" by (simp add: num_pages_def pager_open_def)
  with open_empty [OF assms, of False clock m] obtain s where
    "bt_open E clock False f None m = Some (Inr (), s)" "memory_tier s = m"
    "tree_rep E (bt_pager s) s (PLeaf 0 [] [] None)" by auto
  with bt_get_total show ?thesis by fastforce
qed

section \<open>Witnesses on the concrete environment\<close>

lemma is_full_sample: "is_full sample_tree_env n \<longleftrightarrow> node_ok n \<and> 3072 < node_size n"
  by (simp add: is_full_def sample_tree_env_def PAGE_SIZE_def)

text \<open>The database just created: an empty root leaf in page 0.\<close>

abbreviation empty_tree :: ptree where
  "empty_tree \<equiv> PLeaf 0 [] [] None"

lemma sample_open:
  obtains s where "bt_open sample_tree_env clock False [] None (mt_new 64) = Some (Inr (), s)"
    and "memory_tier s = mt_new 64" and "tree_rep sample_tree_env (bt_pager s) s empty_tree"
    and "pages s = 1" and "room s = QUEUE_CAP" and "queue (bt_wal s) = []" and "root_page_id s = 0"
proof -
  have "whole_file []" by (simp add: whole_file_def PAGE_SIZE_def)
  moreover have "num_pages (if False then pager_boot (pager_open []) else pager_open []) = 0"
    by (simp add: num_pages_def pager_open_def)
  ultimately obtain s where
    "bt_open sample_tree_env clock False [] None (mt_new 64) = Some (Inr (), s)"
    "memory_tier s = mt_new 64" "tree_rep sample_tree_env (bt_pager s) s empty_tree"
    "queue (bt_wal s) = []" "pages s = max (length ([] :: bytes) div PAGE_SIZE) 1"
    using open_empty [of sample_tree_env "[]" False clock "mt_new 64"] by auto
  with that show ?thesis by (simp add: room_def tree_rep_def)
qed

lemma not_full_small: "node_size n \<le> 3072 \<Longrightarrow> \<not> is_full sample_tree_env n"
  by (simp add: is_full_sample)

lemma leaf_size: "node_size (node_of (PLeaf p ks vs nx)) =
    4 + vecs_size ks + 8 + vecs_size vs + (case nx of None \<Rightarrow> 1 | Some _ \<Rightarrow> 5)"
  by (simp add: node_size_def new_leaf_def)

lemma inner_size: "node_size (node_of (PNode p ks ts)) = 4 + vecs_size ks + 8 + 4 * length ts + 8 + 1"
  by (simp add: node_size_def new_internal_def vecs_size_def)

lemma vecs_size_simps [simp]: "vecs_size [] = 8" "vecs_size (x # xs) = 8 + length x + vecs_size xs"
  by (simp_all add: vecs_size_def)

lemma bsearch_empty [simp]: "binary_search [] k = Inl 0"
  by (simp add: binary_search_def bsearch_from.simps)

lemma sample_insert_one:
  "clean_root (is_full sample_tree_env) key 1 empty_tree"
  "length val \<le> 1000 \<Longrightarrow> length key \<le> 1000 \<Longrightarrow>
   pt_insert (is_full sample_tree_env) key val 1 empty_tree = (PLeaf 0 [key] [val] None, 1)
   \<and> fits_tree (PLeaf 0 [key] [val] None)"
  using not_full_small [of "node_of empty_tree"]
  by (simp_all add: clean_root_def pt_insert_def leaf_size fits_def PAGE_SIZE_def ins_at_def
      del: node_of.simps)

theorem bt_get_spec_witness:
  "\<exists>s. bt_open sample_tree_env (\<lambda>_. 0) False [] None (mt_new 64) = Some (Inr (), s)
    \<and> map_option fst (bt_get sample_tree_env [1] s) = Some (Inr None)"
proof -
  obtain s where s: "bt_open sample_tree_env (\<lambda>_. 0) False [] None (mt_new 64) = Some (Inr (), s)"
    "memory_tier s = mt_new 64" "tree_rep sample_tree_env (bt_pager s) s empty_tree"
    by (rule sample_open)
  with bt_get_spec [OF s(3), of "[1]"] show ?thesis by auto
qed

theorem bt_insert_spec_witness:
  "\<exists>s s'. bt_open sample_tree_env (\<lambda>_. 0) False [] None (mt_new 64) = Some (Inr (), s)
    \<and> bt_insert sample_tree_env [1] [2] s = Some (Inr (), s')
    \<and> tree_rep sample_tree_env (bt_pager s) s' (PLeaf 0 [[1]] [[2]] None)"
proof -
  obtain s where s: "bt_open sample_tree_env (\<lambda>_. 0) False [] None (mt_new 64) = Some (Inr (), s)"
    "tree_rep sample_tree_env (bt_pager s) s empty_tree" "pages s = 1" "room s = QUEUE_CAP"
    by (rule sample_open)
  have "insert_room empty_tree \<le> room s" using s(4) by (simp add: insert_room_def QUEUE_CAP_def)
  with bt_insert_spec [OF s(2), of "[1]" "[2]" "PLeaf 0 [[1]] [[2]] None" 1] sample_insert_one s
  show ?thesis by fastforce
qed

theorem bt_insert_new_key_witness:
  "\<exists>s s'. bt_open sample_tree_env (\<lambda>_. 0) False [] None (mt_new 64) = Some (Inr (), s)
    \<and> bt_insert sample_tree_env [1] [2] s = Some (Inr (), s')
    \<and> map_option fst (bt_get sample_tree_env [1] s') = Some (Inr (Some [2]))"
proof -
  obtain s where s: "bt_open sample_tree_env (\<lambda>_. 0) False [] None (mt_new 64) = Some (Inr (), s)"
    "memory_tier s = mt_new 64" "tree_rep sample_tree_env (bt_pager s) s empty_tree" "pages s = 1"
    "room s = QUEUE_CAP"
    by (rule sample_open)
  have "insert_room empty_tree \<le> room s" using s(5) by (simp add: insert_room_def QUEUE_CAP_def)
  moreover have "mt_lookup (memory_tier s) = (\<lambda>_. None)" by (simp add: s(2) fun_eq_iff)
  moreover have "fits_tree (fst (pt_insert (is_full sample_tree_env) [1] [2] (pages s) empty_tree))"
    "snd (pt_insert (is_full sample_tree_env) [1] [2] (pages s) empty_tree) \<le> 2 ^ 32"
    using sample_insert_one(2) [of "[2]" "[1]"] by (simp_all add: s(4) del: fits_tree.simps)
  ultimately show ?thesis
    using bt_insert_new_key [OF s(3), where key = "[1]" and val = "[2]"] s(1)
    by (auto simp: small_entries_def simp del: map_option_eq_Some)
qed

theorem bt_inserts_read_witness:
  "\<exists>s s'. bt_open sample_tree_env (\<lambda>_. 0) False [] None (mt_new 64) = Some (Inr (), s)
    \<and> for_each [([1], [2]), ([3], [4]), ([1], [5])] (\<lambda>(k, v). bt_insert sample_tree_env k v) s
        = Some (Inr (), s')
    \<and> map_option fst (bt_get sample_tree_env [1] s') = Some (Inr (Some [5]))
    \<and> map_option fst (bt_get sample_tree_env [2] s') = Some (Inr None)"
proof -
  obtain s where s: "bt_open sample_tree_env (\<lambda>_. 0) False [] None (mt_new 64) = Some (Inr (), s)"
    "memory_tier s = mt_new 64" "tree_rep sample_tree_env (bt_pager s) s empty_tree" "pages s = 1"
    "room s = QUEUE_CAP"
    by (rule sample_open)
  let ?kvs = "[([1], [2]), ([3], [4]), ([1], [5])] :: (bytes \<times> bytes) list"
  have full: "\<not> is_full sample_tree_env (node_of (PLeaf 0 ks vs None))"
    if "vecs_size ks \<le> 100" "vecs_size vs \<le> 100" for ks vs
    using that by (intro not_full_small) (simp add: leaf_size del: node_of.simps)
  have bs: "binary_search [[1]] [3::byte] = Inl 1" "binary_search [[1], [3::byte]] [1] = Inr 0"
    by (simp_all add: binary_search_def bsearch_from.simps)
  have "inserts_ok sample_tree_env (pages s) (room s) empty_tree ?kvs"
    using full
    by (simp add: s(4,5) clean_root_def pt_insert_def insert_room_def QUEUE_CAP_def bs ins_at_def
        fits_def leaf_size PAGE_SIZE_def del: node_of.simps)
  from bt_inserts_read [OF s(3) this] obtain s' where
    s': "for_each ?kvs (\<lambda>(k, v). bt_insert sample_tree_env k v) s = Some (Inr (), s')"
    "\<And>k. map_option fst (bt_get sample_tree_env k s') = Some (Inr (case mt_lookup (memory_tier s) k of
        Some v \<Rightarrow> Some v
      | None \<Rightarrow> (case map_of (rev ?kvs) k of Some v \<Rightarrow> Some v | None \<Rightarrow> map_of (entries empty_tree) k)))"
    by blast
  have "map_option fst (bt_get sample_tree_env [1] s') = Some (Inr (Some [5]))"
    "map_option fst (bt_get sample_tree_env [2] s') = Some (Inr None)"
    using s'(2) [of "[1]"] s'(2) [of "[2]"] s(2) by simp_all
  with s(1) s'(1) show ?thesis by blast
qed

lemma sample_insert:
  obtains s s' where "bt_open sample_tree_env (\<lambda>_. 0) False [] None (mt_new 64) = Some (Inr (), s)"
    and "bt_insert sample_tree_env [1] [2] s = Some (Inr (), s')" and "pages s = 1" and "pages s' = 1"
    and "queue (bt_wal s) = []" and "root_page_id s = 0" and "root_page_id s' = 0"
    and "tree_rep sample_tree_env (bt_pager s) s empty_tree"
    and "tree_rep sample_tree_env (bt_pager s) s' (PLeaf 0 [[1]] [[2]] None)"
proof -
  obtain s where s: "bt_open sample_tree_env (\<lambda>_. 0) False [] None (mt_new 64) = Some (Inr (), s)"
    "tree_rep sample_tree_env (bt_pager s) s empty_tree" "pages s = 1" "room s = QUEUE_CAP"
    "queue (bt_wal s) = []" "root_page_id s = 0"
    by (rule sample_open)
  have "insert_room empty_tree \<le> room s" using s(4) by (simp add: insert_room_def QUEUE_CAP_def)
  with insert_full_sim [OF s(2), of "[1]" "[2]" "PLeaf 0 [[1]] [[2]] None" 1] sample_insert_one s
  obtain s' where "bt_insert sample_tree_env [1] [2] s = Some (Inr (), s')"
    "tree_rep sample_tree_env (bt_pager s) s' (PLeaf 0 [[1]] [[2]] None)" "pages s' = 1" by fastforce
  with that s show ?thesis by (simp add: tree_rep_def)
qed

theorem bt_open_race_witness:
  "\<exists>s s' s''. bt_open sample_tree_env (\<lambda>_. 0) False [] None (mt_new 64) = Some (Inr (), s)
    \<and> bt_insert sample_tree_env [1] [2] s = Some (Inr (), s')
    \<and> bt_open sample_tree_env (\<lambda>_. 0) False (disk (bt_pager s')) None (mt_new 64) = Some (Inr (), s'')
    \<and> map_option fst (bt_get sample_tree_env [1] s'') = Some (Inr None)"
proof -
  obtain s s' where s: "bt_open sample_tree_env (\<lambda>_. 0) False [] None (mt_new 64) = Some (Inr (), s)"
    "bt_insert sample_tree_env [1] [2] s = Some (Inr (), s')" "pages s' = 1"
    "tree_rep sample_tree_env (bt_pager s) s' (PLeaf 0 [[1]] [[2]] None)"
    by (rule sample_insert)
  have "whole_file (disk (bt_pager s'))"
    using s(3,4) by (intro disk_whole) (auto simp: tree_rep_def binv_def)
  from bt_open_race [OF _ node_codec_sample this, of "\<lambda>_. 0" "mt_new 64"] s(1,2) show ?thesis
    by (auto simp del: map_option_eq_Some)
qed

lemma sample_insert_queue:
  assumes "tree_rep sample_tree_env p0 s empty_tree" and "queue (bt_wal s) = []" and "root_page_id s = 0"
    and "bt_insert sample_tree_env [1] [2] s = Some (Inr (), s')"
  obtains b where "queue (bt_wal s') = [PageUpdate 0 b]" and "length b = PAGE_SIZE"
proof -
  let ?t = "PLeaf 0 [[1]] [[2]] None"
  have inv: "binv sample_tree_env s" using assms(1) by (simp add: tree_rep_def)
  have f: "fits (node_of ?t)" using sample_insert_one(2) [of "[2]" "[1]"] by simp
  then obtain b where b: "to_bytes sample_tree_env (node_of ?t) = Inr b" "length b = PAGE_SIZE"
    using to_bytes_ok(1) [OF node_codec_sample f] by auto
  have rm: "0 < room s" by (simp add: room_def assms(2) QUEUE_CAP_def)
  have pi: "pt_ins (is_full sample_tree_env) [1] [2] 1 empty_tree = (?t, 1)" by (simp add: ins_at_def)
  have "load_node sample_tree_env 0 s = Some (Inr (node_of empty_tree), s)"
    using tree_rep_root [OF assms(1)] assms(3) by simp
  moreover have "\<not> is_full sample_tree_env (node_of empty_tree)"
    by (intro not_full_small) (simp add: leaf_size del: node_of.simps)
  moreover have "insert_non_full sample_tree_env [1] [2] 0 (node_of empty_tree) s =
      save_node sample_tree_env 0 (node_of ?t) s"
    by (rule insert_leaf_run [where lo = None and hi = None, OF _ pi]) simp
  ultimately have "queue (bt_wal s') = [PageUpdate 0 b]"
    using assms(2-4) save_node_eq [OF inv b rm, of 0]
    by (simp add: bt_insert_def seq_Inr zoom_def pager_sync_boot del: node_of.simps) auto
  with b(2) that show ?thesis by blast
qed

text \<open>The crash of the witness loses the page written by the insertion; the log has it.\<close>

theorem bt_crash_recovery_witness:
  "\<exists>s s' b s''. bt_open sample_tree_env (\<lambda>_. 0) False [] None (mt_new 64) = Some (Inr (), s)
    \<and> bt_insert sample_tree_env [1] [2] s = Some (Inr (), s')
    \<and> bt_open sample_tree_env (\<lambda>_. 0) False (disk (bt_pager s))
        (Some (log_of sample_wal_env [[PageUpdate 0 b]])) (mt_new 64) = Some (Inr (), s'')
    \<and> tree_rep sample_tree_env (bt_pager s'') s'' (PLeaf 0 [[1]] [[2]] None)"
proof -
  obtain s s' where s: "bt_open sample_tree_env (\<lambda>_. 0) False [] None (mt_new 64) = Some (Inr (), s)"
    "bt_insert sample_tree_env [1] [2] s = Some (Inr (), s')" "pages s = 1" "pages s' = 1"
    "queue (bt_wal s) = []" "root_page_id s = 0" "root_page_id s' = 0"
    "tree_rep sample_tree_env (bt_pager s) s empty_tree"
    "tree_rep sample_tree_env (bt_pager s) s' (PLeaf 0 [[1]] [[2]] None)"
    by (rule sample_insert)
  obtain b where b: "queue (bt_wal s') = [PageUpdate 0 b]" "length b = PAGE_SIZE"
    by (rule sample_insert_queue [OF s(8,5,6,2)])
  have inv: "pager_inv (bt_pager s)" using s(8) by (simp add: tree_rep_def binv_def)
  have wf: "whole_file (disk (bt_pager s))" using s(3) by (intro disk_whole [OF inv]) simp
  obtain k where "length (disk (bt_pager s)) = 4096 * k"
    using inv by (auto simp: pager_inv_def PAGE_SIZE_def elim: dvdE)
  with s(3) have len: "length (disk (bt_pager s)) = 4096" by (simp add: page_count_def PAGE_SIZE_def)
  have ser: "ser_entry sample_wal_env (PageUpdate 0 b) = Some (put_entry (PageUpdate 0 b))"
    using b(2) by (simp add: sample_wal_env_def entry_ok_def vec_ok_def PAGE_SIZE_def)
  have l: "length (put_entry (PageUpdate 0 b)) = 4112"
    using b(2) by (simp add: put_entry_def put_vec_def put_word_def PAGE_SIZE_def)
  have lg: "loggable sample_wal_env (PageUpdate 0 b)" "gap_ok (batch_bytes sample_wal_env [PageUpdate 0 b])"
    by (simp_all add: loggable_def gap_ok_def batch_bytes_def frame_def ser l)
  have "disk (bt_pager s) \<noteq> []" using len by auto
  from bt_crash_recovery [OF s(9,7), of "[[PageUpdate 0 b]]", OF _ _ _ _ _ wf this, of False "\<lambda>_. 0" "mt_new 64"]
    s(1-4) b(1) lg len
  show ?thesis by (auto simp: PAGE_SIZE_def)
qed

end
