(* ===== verification/Engine.thy ===== *)
theory Engine
  imports Sql Btree_Props
begin

text \<open>
  The SQL engine of \<open>src/src/parser/engine.rs\<close>: schemas and indices, transactions with
  snapshot versions and optimistic conflict checks, the scan that merges the memory tier
  with the leaves of the B+tree, the statement handlers, \<open>execute\<close>, the drain thread, undo
  and redo.

  Every handler is one step on the engine state; the tasks of different connections
  interleave between steps. Hash maps are association lists. The crates the engine calls
  (bincode, sqlparser, wasmi), floating point, the clock and the random numbers are the
  record \<open>engine_env\<close>; the state counts the readings of clock and generator (\<open>ticks\<close>).
\<close>

section \<open>State\<close>

record table_schema =
  schema_name :: str
  columns :: "str list"
  auto_increment_col :: "str option"
  next_id :: u64

record index_schema =
  index_name :: str
  index_table :: str
  index_column :: str

record transaction =
  tx_id :: u64
  snapshot_version :: u64
  updates :: "(bytes \<times> bytes) list"

text \<open>The stored form of a row, \<open>Record\<close> of \<open>btree.rs\<close>.\<close>

record db_record =
  rec_value :: bytes
  version :: u64
  is_deleted :: bool
  timestamp :: int

record engine =
  tree :: btree
  schemas :: "(str \<times> table_schema) list"
  indices :: "(str \<times> index_schema) list"
  current_version :: u64
  active_transactions :: "(u32 \<times> transaction) list"
  ticks :: nat

type_synonym f64 = "64 word"

record engine_env = sql_print +
  benv :: btree_env
  ser_record :: "db_record \<Rightarrow> bytes option"
  de_record :: "bytes \<Rightarrow> db_record option"
  ser_row :: "row \<Rightarrow> bytes option"
  de_row :: "bytes \<Rightarrow> row option"
  ser_schemas :: "(str \<times> table_schema) list \<Rightarrow> bytes option"
  de_schemas :: "bytes \<Rightarrow> (str \<times> table_schema) list option"
  de_version :: "bytes \<Rightarrow> u64 option"
  parse_sql :: "str \<Rightarrow> err + statement list"
  other_upper :: "str \<Rightarrow> str"
  read_module :: "str \<Rightarrow> bytes option"
  wasm_main :: "bytes \<Rightarrow> err + int"
  error_text :: "err \<Rightarrow> str"
  clock_micros :: "nat \<Rightarrow> int"
  clock_nanos :: "nat \<Rightarrow> int"
  clock_seconds :: "nat \<Rightarrow> int"
  random_id :: "nat \<Rightarrow> u64"
  parse_f64 :: "str \<Rightarrow> f64 option"
  f64_of_nat :: "nat \<Rightarrow> f64"
  f64_sum :: "f64 list \<Rightarrow> f64"
  f64_div :: "f64 \<Rightarrow> f64 \<Rightarrow> f64"
  f64_min :: "f64 \<Rightarrow> f64 \<Rightarrow> f64"
  f64_max :: "f64 \<Rightarrow> f64 \<Rightarrow> f64"
  f64_infinity :: f64
  f64_neg_infinity :: f64
  f64_zero :: f64
  show_f64 :: "f64 \<Rightarrow> str"

abbreviation to_upper :: "engine_env \<Rightarrow> str \<Rightarrow> str" where
  "to_upper E \<equiv> to_uppercase (other_upper E)"

abbreviation sqlp :: "engine_env \<Rightarrow> sql_print" where
  "sqlp E \<equiv> sql_print.truncate E"

abbreviation on_tree :: "(btree, 'a) act \<Rightarrow> (engine, 'a) act" where
  "on_tree \<equiv> zoom tree (\<lambda>t. tree_update (\<lambda>_. t))"

abbreviation tier :: "engine \<Rightarrow> mem_tier" where
  "tier s \<equiv> memory_tier (tree s)"

text \<open>A bincode call, whose error is passed on.\<close>

definition bincode :: "'a option \<Rightarrow> ('s, 'a) act" where
  "bincode x = of_result (case x of Some y \<Rightarrow> Inr y | None \<Rightarrow> Inl Bincode_error)"

lemma bincode_simps [simp]:
  "bincode (Some x) s = Some (Inr x, s)" "bincode None s = Some (Inl Bincode_error, s)"
  by (simp_all add: bincode_def)

lemma seq_bincode [simp]:
  "seq (bincode (Some x)) f s = f x s" "seq (bincode None) f s = Some (Inl Bincode_error, s)"
  by (simp_all add: seq_def)

section \<open>Access to stored data\<close>

definition tick :: "(engine, nat) act" where
  "tick = seq (read_st ticks) (\<lambda>n. seq (modify_st (ticks_update Suc)) (\<lambda>_. ret n))"

definition tier_get :: "bytes \<Rightarrow> (engine, bytes option) act" where
  "tier_get key s = (case mt_get key (tier s) of
     (v, m) \<Rightarrow> Some (Inr v, s\<lparr>tree := (tree s)\<lparr>memory_tier := m\<rparr>\<rparr>))"

definition tier_insert :: "engine_env \<Rightarrow> bytes \<Rightarrow> bytes \<Rightarrow> (engine, unit) act" where
  "tier_insert E key val = seq tick (\<lambda>n. modify_st (\<lambda>s. s\<lparr>tree :=
     (tree s)\<lparr>memory_tier := mt_insert (clock_nanos E n) key val (tier s)\<rparr>\<rparr>))"

definition enqueue :: "engine_env \<Rightarrow> bytes \<Rightarrow> bytes \<Rightarrow> (engine, unit) act" where
  "enqueue E key data = on_tree (on_wal (wal_enqueue (wenv (benv E)) (RecordUpdate key data)))"

definition flush :: "engine_env \<Rightarrow> (engine, unit) act" where
  "flush E = on_tree (on_wal (flush_pipeline (wenv (benv E))))"

text \<open>
  \<open>memory_tier.get(&key).or(btree.get(&key).await?)\<close>: the argument of \<open>or\<close> is evaluated,
  and its error returned, even when the tier has the key.
\<close>

definition cached_or_stored :: "engine_env \<Rightarrow> bytes \<Rightarrow> (engine, bytes option) act" where
  "cached_or_stored E key = seq (tier_get key) (\<lambda>c. seq (on_tree (bt_get (benv E) key)) (\<lambda>t.
     ret (case c of Some v \<Rightarrow> Some v | None \<Rightarrow> t)))"

text \<open>The lookup of COMMIT, which reads the tree only for a key the tier lacks.\<close>

definition cached_else_stored :: "engine_env \<Rightarrow> bytes \<Rightarrow> (engine, bytes option) act" where
  "cached_else_stored E key = seq (tier_get key) (\<lambda>c.
     case c of Some v \<Rightarrow> ret (Some v) | None \<Rightarrow> on_tree (bt_get (benv E) key))"

section \<open>Scanning a table\<close>

definition visible :: "u64 \<Rightarrow> db_record \<Rightarrow> bool" where
  "visible ver r \<longleftrightarrow> version r \<le> ver \<and> \<not> is_deleted r"

definition make_row :: "str \<Rightarrow> str \<Rightarrow> row \<Rightarrow> row" where
  "make_row table_name key_str base_data = foldl (\<lambda>row (k, v).
     AList.update (table_name @ ''.'' @ k) v (AList.update k v row)) [(''__key__'', key_str)] base_data"

text \<open>The row of one stored entry, if it is visible; \<open>key\<close> becomes its \<open>__key__\<close> column.\<close>

definition visible_row :: "engine_env \<Rightarrow> str \<Rightarrow> u64 \<Rightarrow> bytes \<Rightarrow> bytes \<Rightarrow> err + row option" where
  "visible_row E table_name ver key data = (case de_record E data of
      None \<Rightarrow> Inl Bincode_error
    | Some r \<Rightarrow>
        if visible ver r then
          (case de_row E (rec_value r) of
             None \<Rightarrow> Inl Bincode_error
           | Some base \<Rightarrow> Inr (Some (make_row table_name (from_utf8_lossy key) base)))
        else Inr None)"

definition in_table :: "str \<Rightarrow> bytes \<Rightarrow> bool" where
  "in_table table_name key \<longleftrightarrow> prefix (table_name @ '':'') (from_utf8_lossy key)"

text \<open>The loop over the memory tier: the rows and the keys processed.\<close>

fun scan_cache :: "engine_env \<Rightarrow> str \<Rightarrow> u64 \<Rightarrow> (bytes \<times> bytes) list \<Rightarrow> row list \<times> bytes list
    \<Rightarrow> err + row list \<times> bytes list" where
  "scan_cache E table_name ver [] acc = Inr acc"
| "scan_cache E table_name ver ((key, data) # es) (rows, processed) =
     (if in_table table_name key then
        (case visible_row E table_name ver key data of
           Inl e \<Rightarrow> Inl e
         | Inr None \<Rightarrow> scan_cache E table_name ver es (rows, processed)
         | Inr (Some row) \<Rightarrow> scan_cache E table_name ver es (rows @ [row], key # processed))
      else scan_cache E table_name ver es (rows, processed))"

text \<open>The loop over the keys of a leaf; \<open>i\<close> is the index of the next key.\<close>

fun scan_leaf :: "engine_env \<Rightarrow> str \<Rightarrow> u64 \<Rightarrow> bytes list \<Rightarrow> nat \<Rightarrow> bytes list \<Rightarrow> row list \<times> bytes list
    \<Rightarrow> err + row list \<times> bytes list" where
  "scan_leaf E table_name ver payload i [] acc = Inr acc"
| "scan_leaf E table_name ver payload i (key # ks) (rows, processed) =
     (if key \<in> set processed then scan_leaf E table_name ver payload (Suc i) ks (rows, processed)
      else if in_table table_name key then
        (case vec_get payload i of
           Inl e \<Rightarrow> Inl e
         | Inr data \<Rightarrow>
             (case visible_row E table_name ver key data of
                Inl e \<Rightarrow> Inl e
              | Inr None \<Rightarrow> scan_leaf E table_name ver payload (Suc i) ks (rows, processed)
              | Inr (Some row) \<Rightarrow>
                  scan_leaf E table_name ver payload (Suc i) ks (rows @ [row], key # processed)))
      else scan_leaf E table_name ver payload (Suc i) ks (rows, processed))"

partial_function (option) leftmost_leaf ::
    "btree_env \<Rightarrow> u32 \<Rightarrow> btree \<Rightarrow> ((err + u32) \<times> btree) option" where
  "leftmost_leaf B current_page_id s = seq (load_node B current_page_id) (\<lambda>node.
     (case node_type node of
        Leaf \<Rightarrow> ret current_page_id
      | Internal \<Rightarrow> (case vec_get (children node) 0 of
          Inl _ \<Rightarrow> ret current_page_id
        | Inr child \<Rightarrow> leftmost_leaf B child))) s"

text \<open>The chain of leaves ends at a leaf without successor or that is its own successor.\<close>

definition next_page :: "u32 \<Rightarrow> node \<Rightarrow> u32 option" where
  "next_page current_page_id node = (case next_leaf node of
      Some nx \<Rightarrow> if nx = current_page_id then None else Some nx | None \<Rightarrow> None)"

partial_function (option) scan_leaves ::
    "engine_env \<Rightarrow> str \<Rightarrow> u64 \<Rightarrow> u32 \<Rightarrow> row list \<times> bytes list \<Rightarrow> btree
      \<Rightarrow> ((err + row list \<times> bytes list) \<times> btree) option" where
  "scan_leaves E table_name ver current_page_id acc s =
     seq (load_node (benv E) current_page_id) (\<lambda>node.
     seq (of_result (scan_leaf E table_name ver (vals node) 0 (keys node) acc)) (\<lambda>acc.
     (case next_page current_page_id node of
        Some nx \<Rightarrow> scan_leaves E table_name ver nx acc
      | None \<Rightarrow> ret acc))) s"

text \<open>The index lookup of an equality: the column and the value, then the row it leads to.\<close>

definition get_id :: "expr \<Rightarrow> str option" where
  "get_id e = (case e of Identifier i \<Rightarrow> Some i | CompoundIdentifier p ps \<Rightarrow> Some (last (p # ps)) | _ \<Rightarrow> None)"

definition get_val :: "engine_env \<Rightarrow> expr \<Rightarrow> str option" where
  "get_val E e = (case e of Value v \<Rightarrow> Some (unquote (show_value E v)) | _ \<Rightarrow> None)"

definition or_else :: "'a option \<Rightarrow> 'a option \<Rightarrow> 'a option" where
  "or_else x y = (case x of Some v \<Rightarrow> Some v | None \<Rightarrow> y)"

definition index_key :: "str \<Rightarrow> str \<Rightarrow> str \<Rightarrow> bytes" where
  "index_key table_name col val = to_bytes_of (''idx:'' @ table_name @ '':'' @ col @ '':'' @ val)"

definition index_probe :: "engine_env \<Rightarrow> expr option \<Rightarrow> (str \<times> str) option" where
  "index_probe E cond = (case cond of
      Some (BinaryOp left op right) \<Rightarrow>
        if op = Eq then
          (case (or_else (get_id left) (get_id right), or_else (get_val E left) (get_val E right)) of
             (Some col, Some val) \<Rightarrow> Some (col, val)
           | _ \<Rightarrow> None)
        else None
    | _ \<Rightarrow> None)"

definition index_row :: "engine_env \<Rightarrow> str \<Rightarrow> u64 \<Rightarrow> bytes \<Rightarrow> (engine, row option) act" where
  "index_row E table_name ver target_key =
     (let final_key = (case de_record E target_key of Some r \<Rightarrow> rec_value r | None \<Rightarrow> target_key) in
      seq (cached_or_stored E final_key) (\<lambda>d. case d of
        None \<Rightarrow> ret None
      | Some record_data \<Rightarrow> of_result (visible_row E table_name ver target_key record_data)))"

definition index_lookup :: "engine_env \<Rightarrow> str \<Rightarrow> u64 \<Rightarrow> expr option \<Rightarrow> (engine, row option) act" where
  "index_lookup E table_name ver cond = (case index_probe E cond of
      None \<Rightarrow> ret None
    | Some (col, val) \<Rightarrow> seq (cached_or_stored E (index_key table_name col val)) (\<lambda>t. case t of
        None \<Rightarrow> ret None
      | Some target_key \<Rightarrow> index_row E table_name ver target_key))"

definition scan_table_with_filter :: "engine_env \<Rightarrow> str \<Rightarrow> u64 \<Rightarrow> expr option \<Rightarrow> (engine, row list) act" where
  "scan_table_with_filter E table_name ver cond =
     seq (index_lookup E table_name ver cond) (\<lambda>r. case r of
       Some row \<Rightarrow> ret [row]
     | None \<Rightarrow>
         seq (read_st (\<lambda>s. cache (tier s))) (\<lambda>es.
         seq (of_result (scan_cache E table_name ver es ([], []))) (\<lambda>acc.
         seq (read_st (\<lambda>s. root_page_id (tree s))) (\<lambda>root.
         seq (on_tree (leftmost_leaf (benv E) root)) (\<lambda>leaf.
         seq (on_tree (scan_leaves E table_name ver leaf acc)) (\<lambda>(rows, processed).
         ret rows))))))"

definition scan_table :: "engine_env \<Rightarrow> str \<Rightarrow> u64 \<Rightarrow> (engine, row list) act" where
  "scan_table E table_name ver = scan_table_with_filter E table_name ver None"

section \<open>Writing rows\<close>

text \<open>The version a statement reads at: the snapshot of its transaction or the current version.\<close>

definition tx_of :: "u32 \<Rightarrow> engine \<Rightarrow> transaction option" where
  "tx_of conn_id s = map_of (active_transactions s) conn_id"

definition read_version :: "u32 \<Rightarrow> engine \<Rightarrow> u64" where
  "read_version conn_id s =
     (case tx_of conn_id s of Some tx \<Rightarrow> snapshot_version tx | None \<Rightarrow> current_version s)"

definition stage :: "u32 \<Rightarrow> transaction \<Rightarrow> bytes \<Rightarrow> bytes \<Rightarrow> (engine, unit) act" where
  "stage conn_id tx key val = modify_st (\<lambda>s. s\<lparr>active_transactions :=
     AList.update conn_id (tx\<lparr>updates := AList.update key val (updates tx)\<rparr>) (active_transactions s)\<rparr>)"

text \<open>\<open>fetch_add(1) + 1\<close> on the current version.\<close>

definition bump_version :: "(engine, u64) act" where
  "bump_version = seq (modify_st (\<lambda>s. s\<lparr>current_version := current_version s + 1\<rparr>))
     (\<lambda>_. read_st current_version)"

text \<open>
  The end of an update or delete of one row: the changed record goes to the transaction of
  the connection or, outside a transaction, gets a new version and is installed.
\<close>

definition put_record :: "engine_env \<Rightarrow> u32 \<Rightarrow> bytes \<Rightarrow> db_record \<Rightarrow> (engine, unit) act" where
  "put_record E conn_id key r = seq (bincode (ser_record E r)) (\<lambda>val.
     seq (read_st (tx_of conn_id)) (\<lambda>t. case t of
       Some tx \<Rightarrow> stage conn_id tx key val
     | None \<Rightarrow>
         seq bump_version (\<lambda>v.
         seq (bincode (de_record E val)) (\<lambda>record_mut.
         seq (bincode (ser_record E (record_mut\<lparr>version := v\<rparr>))) (\<lambda>val_final.
         seq (tier_insert E key val_final) (\<lambda>_.
         enqueue E key val_final))))))"

text \<open>The keys of the rows that an update or delete applies to.\<close>

definition selected_keys :: "engine_env \<Rightarrow> expr option \<Rightarrow> row list \<Rightarrow> bytes list" where
  "selected_keys E cond rows = concat (map (\<lambda>row.
     if (case cond of Some e \<Rightarrow> evaluate_where (sqlp E) e row | None \<Rightarrow> True)
     then (case map_of row ''__key__'' of Some key \<Rightarrow> [to_bytes_of key] | None \<Rightarrow> [])
     else []) rows)"

definition load_record :: "engine_env \<Rightarrow> str \<Rightarrow> bytes \<Rightarrow> (engine, db_record) act" where
  "load_record E what key = seq (cached_or_stored E key) (\<lambda>d. case d of
      Some data \<Rightarrow> bincode (de_record E data)
    | None \<Rightarrow> throw (Msg (''Record not found during '' @ what)))"

definition assign :: "engine_env \<Rightarrow> (str \<times> expr) list \<Rightarrow> row \<Rightarrow> row" where
  "assign E assignments row_data =
     foldl (\<lambda>row (col, e). AList.update col (unquote (show_expr E e)) row) row_data assignments"

definition update_row :: "engine_env \<Rightarrow> u32 \<Rightarrow> u64 \<Rightarrow> (str \<times> expr) list \<Rightarrow> bytes \<Rightarrow> (engine, unit) act" where
  "update_row E conn_id ver assignments key = seq (load_record E ''update'' key) (\<lambda>r.
     seq (bincode (de_row E (rec_value r))) (\<lambda>row_data.
     seq (bincode (ser_row E (assign E assignments row_data))) (\<lambda>val.
     put_record E conn_id key (r\<lparr>rec_value := val, version := ver + 1\<rparr>))))"

definition delete_row :: "engine_env \<Rightarrow> u32 \<Rightarrow> u64 \<Rightarrow> bytes \<Rightarrow> (engine, unit) act" where
  "delete_row E conn_id ver key = seq (load_record E ''delete'' key) (\<lambda>r.
     put_record E conn_id key (r\<lparr>is_deleted := True, version := ver + 1\<rparr>))"

text \<open>Outside a transaction an update or delete ends with a flush of the log.\<close>

definition flush_outside_tx :: "engine_env \<Rightarrow> u32 \<Rightarrow> (engine, unit) act" where
  "flush_outside_tx E conn_id = seq (read_st (tx_of conn_id)) (\<lambda>t.
     if t = None then flush E else ret ())"

definition handle_update :: "engine_env \<Rightarrow> str \<Rightarrow> (str \<times> expr) list \<Rightarrow> expr option \<Rightarrow> u32
    \<Rightarrow> (engine, str) act" where
  "handle_update E table_name assignments cond conn_id =
     seq (read_st (read_version conn_id)) (\<lambda>ver.
     seq (scan_table_with_filter E table_name ver cond) (\<lambda>rows.
     let keys_to_update = selected_keys E cond rows in
     seq (for_each keys_to_update (update_row E conn_id ver assignments)) (\<lambda>_.
     seq (flush_outside_tx E conn_id) (\<lambda>_.
     ret (''Updated '' @ show_nat (length keys_to_update) @ '' rows'')))))"

definition handle_delete :: "engine_env \<Rightarrow> str \<Rightarrow> expr option \<Rightarrow> u32 \<Rightarrow> (engine, str) act" where
  "handle_delete E table_name cond conn_id =
     seq (read_st (read_version conn_id)) (\<lambda>ver.
     seq (scan_table_with_filter E table_name ver cond) (\<lambda>rows.
     let keys_to_delete = selected_keys E cond rows in
     seq (for_each keys_to_delete (delete_row E conn_id ver)) (\<lambda>_.
     seq (flush_outside_tx E conn_id) (\<lambda>_.
     ret (''Deleted '' @ show_nat (length keys_to_delete) @ '' rows'')))))"

section \<open>INSERT, CREATE TABLE and CREATE INDEX\<close>

definition insert_value :: "expr \<Rightarrow> str" where
  "insert_value e = (case e of
      Value (Number n) \<Rightarrow> n | Value (SingleQuotedString t) \<Rightarrow> t | _ \<Rightarrow> ''NULL'')"

text \<open>The row an INSERT builds from its expressions; the auto-increment column comes first.\<close>

definition insert_row_data :: "table_schema \<Rightarrow> u64 \<Rightarrow> expr list \<Rightarrow> row" where
  "insert_row_data schema nid exprs =
     (let (start, off) = (case auto_increment_col schema of
            Some ai_col \<Rightarrow> ([(ai_col, show_nat (unat nid))], 1) | None \<Rightarrow> ([], 0))
      in foldl (\<lambda>row (i, e). let col_idx = i + off in
           if col_idx < length (columns schema)
           then AList.update (columns schema ! col_idx) (insert_value e) row else row)
         start (enumerate 0 exprs))"

definition row_key :: "str \<Rightarrow> u64 \<Rightarrow> bytes" where
  "row_key table_name i = to_bytes_of (table_name @ '':'' @ hex16 i)"

definition index_entries :: "str \<Rightarrow> bytes \<Rightarrow> row \<Rightarrow> (str \<times> index_schema) list \<Rightarrow> (bytes \<times> bytes) list" where
  "index_entries table_name key row_data idxs = concat (map (\<lambda>(n, ix).
     if index_table ix = table_name then
       (case map_of row_data (index_column ix) of
          Some col_val \<Rightarrow> [(index_key table_name (index_column ix) col_val, key)]
        | None \<Rightarrow> [])
     else []) idxs)"

text \<open>The loop over the rows: the next id and the log entries to be queued after it.\<close>

fun insert_rows :: "engine_env \<Rightarrow> u32 \<Rightarrow> str \<Rightarrow> table_schema \<Rightarrow> expr list list \<Rightarrow> u64
    \<Rightarrow> (engine, u64 \<times> (bytes \<times> bytes) list) act" where
  "insert_rows E conn_id table_name schema [] nid = ret (nid, [])"
| "insert_rows E conn_id table_name schema (exprs # rows) nid =
     (let row_data = insert_row_data schema nid exprs;
          nid' = (if auto_increment_col schema = None then nid else nid + 1) in
      seq tick (\<lambda>n.
      let key = row_key table_name (random_id E n) in
      seq (read_st current_version) (\<lambda>ver.
      seq (bincode (ser_row E row_data)) (\<lambda>value_bytes.
      seq tick (\<lambda>n.
      seq (bincode (ser_record E \<lparr>rec_value = value_bytes, version = ver, is_deleted = False,
          timestamp = clock_seconds E n\<rparr>)) (\<lambda>val.
      seq (read_st (tx_of conn_id)) (\<lambda>t.
      seq (case t of
             Some tx \<Rightarrow> seq (stage conn_id tx key val) (\<lambda>_. ret [])
           | None \<Rightarrow> seq (tier_insert E key val) (\<lambda>_. seq (read_st indices) (\<lambda>idxs.
               ret ((key, val) # index_entries table_name key row_data idxs)))) (\<lambda>entries.
      seq (insert_rows E conn_id table_name schema rows nid') (\<lambda>(nid'', rest).
      ret (nid'', entries @ rest))))))))))"

definition schemas_key :: bytes where
  "schemas_key = to_bytes_of ''__schemas__''"

text \<open>The record that holds all schemas.\<close>

definition schemas_record :: "engine_env \<Rightarrow> (engine, bytes) act" where
  "schemas_record E = seq (read_st schemas) (\<lambda>m.
     seq (bincode (ser_schemas E m)) (\<lambda>value_bytes.
     seq (read_st current_version) (\<lambda>ver.
     seq tick (\<lambda>n.
     bincode (ser_record E \<lparr>rec_value = value_bytes, version = ver, is_deleted = False,
       timestamp = clock_seconds E n\<rparr>)))))"

definition handle_insert :: "engine_env \<Rightarrow> str \<Rightarrow> sql_query \<Rightarrow> u32 \<Rightarrow> (engine, str) act" where
  "handle_insert E table_name source conn_id = seq (read_st schemas) (\<lambda>m.
     case map_of m table_name of
       None \<Rightarrow> throw (Msg ''Table not found'')
     | Some schema \<Rightarrow>
         (case query_body source of
            Values rows \<Rightarrow>
              seq (insert_rows E conn_id table_name schema rows (next_id schema)) (\<lambda>(nid, wal_entries).
              seq (for_each wal_entries (\<lambda>(k, d). enqueue E k d)) (\<lambda>_.
              seq (if nid \<noteq> next_id schema then
                     seq (modify_st (\<lambda>s. s\<lparr>schemas :=
                       AList.update table_name (schema\<lparr>next_id := nid\<rparr>) (schemas s)\<rparr>)) (\<lambda>_.
                     seq (schemas_record E) (\<lambda>data. enqueue E schemas_key data))
                   else ret ()) (\<lambda>_.
              seq (flush E) (\<lambda>_.
              ret (''Inserted '' @ show_nat (length rows) @ '' rows'')))))
          | _ \<Rightarrow> throw (Msg ''Unsupported source'')))"

definition is_auto_increment :: "engine_env \<Rightarrow> str \<Rightarrow> bool" where
  "is_auto_increment E opt \<longleftrightarrow>
     contains (to_upper E opt) ''AUTO_INCREMENT'' \<or> contains (to_upper E opt) ''SERIAL''"

definition create_table :: "engine_env \<Rightarrow> str \<Rightarrow> (str \<times> str list) list \<Rightarrow> (engine, str) act" where
  "create_table E name cols =
     (let schema = \<lparr>schema_name = name, columns = map fst cols,
        auto_increment_col = map_option fst (find (\<lambda>c. \<exists>opt \<in> set (snd c). is_auto_increment E opt) cols),
        next_id = 1\<rparr> in
      seq (modify_st (\<lambda>s. s\<lparr>schemas := AList.update name schema (schemas s)\<rparr>)) (\<lambda>_.
      seq (schemas_record E) (\<lambda>data.
      seq (on_tree (bt_insert (benv E) schemas_key data)) (\<lambda>_.
      ret ''Table created''))))"

definition index_existing :: "engine_env \<Rightarrow> index_schema \<Rightarrow> row \<Rightarrow> (engine, unit) act" where
  "index_existing E ix row = (case (map_of row (index_column ix), map_of row ''__key__'') of
      (Some val, Some key) \<Rightarrow>
        seq (tier_insert E (index_key (index_table ix) (index_column ix) val) (to_bytes_of key)) (\<lambda>_.
        enqueue E (index_key (index_table ix) (index_column ix) val) (to_bytes_of key))
    | _ \<Rightarrow> ret ())"

definition create_index :: "engine_env \<Rightarrow> str option \<Rightarrow> str \<Rightarrow> expr list \<Rightarrow> (engine, str) act" where
  "create_index E name table_name cols = seq (of_result (vec_get cols 0)) (\<lambda>c.
     let idx_name = (case name of Some n \<Rightarrow> n | None \<Rightarrow> ''unnamed_idx'');
         ix = \<lparr>index_name = idx_name, index_table = table_name, index_column = show_expr E c\<rparr> in
     seq (modify_st (\<lambda>s. s\<lparr>indices := AList.update idx_name ix (indices s)\<rparr>)) (\<lambda>_.
     seq (read_st current_version) (\<lambda>ver.
     seq (scan_table E table_name ver) (\<lambda>rows.
     seq (for_each rows (index_existing E ix)) (\<lambda>_.
     ret ''Index created'')))))"

section \<open>Queries\<close>

definition with_prefix :: "str \<Rightarrow> table_schema \<Rightarrow> str list" where
  "with_prefix table_name schema = map (\<lambda>c. table_name @ ''.'' @ c) (columns schema)"

definition factor_table :: "str \<Rightarrow> table_factor \<Rightarrow> err + str" where
  "factor_table message tf = (case tf of Table name \<Rightarrow> Inr name | Other_factor _ \<Rightarrow> Inl (Msg message))"

definition get_schema :: "str \<Rightarrow> (engine, table_schema) act" where
  "get_schema name = seq (read_st schemas) (\<lambda>m. case map_of m name of
      Some sc \<Rightarrow> ret sc | None \<Rightarrow> throw (Msg (''Table '' @ name @ '' not found'')))"

text \<open>Rows of the left table with each row of the right table that the condition accepts.\<close>

definition combine :: "row \<Rightarrow> row \<Rightarrow> row" where
  "combine l r = foldl (\<lambda>row (k, v). AList.update k v row) [] (l @ r)"

definition join_rows :: "engine_env \<Rightarrow> join_operator \<Rightarrow> row list \<Rightarrow> row list \<Rightarrow> row list" where
  "join_rows E jo left_rows right_rows = filter
     (\<lambda>row. case jo of Inner_On e \<Rightarrow> evaluate_where (sqlp E) e row | Other_join \<Rightarrow> True)
     (concat (map (\<lambda>l. map (combine l) right_rows) left_rows))"

definition where_rows :: "engine_env \<Rightarrow> expr option \<Rightarrow> row list \<Rightarrow> row list" where
  "where_rows E cond rows = (case cond of
      None \<Rightarrow> rows
    | Some e \<Rightarrow> if contains (show_expr E e) ''VECTOR_SEARCH'' then rows
                else filter (evaluate_where (sqlp E) e) rows)"

definition limit_rows :: "expr option \<Rightarrow> row list \<Rightarrow> row list" where
  "limit_rows lim rows = (case lim of
      Some (Value (Number n)) \<Rightarrow> (case parse_usize n of Some k \<Rightarrow> take k rows | None \<Rightarrow> rows)
    | _ \<Rightarrow> rows)"

definition aggregate_names :: "str list" where
  "aggregate_names = [''COUNT'', ''SUM'', ''AVG'', ''MIN'', ''MAX'']"

definition is_aggregate :: "engine_env \<Rightarrow> select_item list \<Rightarrow> bool" where
  "is_aggregate E items \<longleftrightarrow> (\<exists>i \<in> set items. case i of
      UnnamedExpr (Function name args) \<Rightarrow> to_upper E name \<in> set aggregate_names | _ \<Rightarrow> False)"

definition column_values :: "engine_env \<Rightarrow> str \<Rightarrow> row list \<Rightarrow> f64 list" where
  "column_values E col rows = concat (map (\<lambda>r.
     (case or_else (map_of r col)
        (case find (\<lambda>k. suffix (''.'' @ col) k) (map fst r) of Some k \<Rightarrow> map_of r k | None \<Rightarrow> None) of
       Some v \<Rightarrow> (case parse_f64 E v of Some x \<Rightarrow> [x] | None \<Rightarrow> [])
     | None \<Rightarrow> [])) rows)"

definition aggregate :: "engine_env \<Rightarrow> str \<Rightarrow> f64 list \<Rightarrow> nat \<Rightarrow> f64" where
  "aggregate E name xs row_count =
     (if name = ''COUNT'' then f64_of_nat E row_count
      else if name = ''SUM'' then f64_sum E xs
      else if name = ''AVG'' then
        (if xs = [] then f64_zero E else f64_div E (f64_sum E xs) (f64_of_nat E (length xs)))
      else if name = ''MIN'' then foldl (f64_min E) (f64_infinity E) xs
      else if name = ''MAX'' then foldl (f64_max E) (f64_neg_infinity E) xs
      else f64_zero E)"

definition aggregate_item :: "engine_env \<Rightarrow> row list \<Rightarrow> select_item \<Rightarrow> str \<times> str" where
  "aggregate_item E rows item = (case item of
      UnnamedExpr (Function fname args) \<Rightarrow>
        (let name = to_upper E fname;
             col = (case args of Some (Identifier i) # _ \<Rightarrow> i | _ \<Rightarrow> ''*'')
         in (name, show_f64 E (aggregate E name (column_values E col rows) (length rows))))
    | _ \<Rightarrow> (''?'', ''NULL''))"

definition header_lines :: "str list \<Rightarrow> str" where
  "header_lines cols = (let first = join '' | '' cols @ [CHR 0x0A]
     in first @ replicate (length first) CHR ''-'' @ [CHR 0x0A])"

definition cell :: "row \<Rightarrow> str \<Rightarrow> str" where
  "cell row c = (case or_else (map_of row c)
       (case split_on CHR ''.'' c of [a, b] \<Rightarrow> map_of row b | _ \<Rightarrow> None) of
      Some v \<Rightarrow> v | None \<Rightarrow> ''NULL'')"

definition render_rows :: "str list \<Rightarrow> row list \<Rightarrow> str" where
  "render_rows cols rows = header_lines cols
     @ concat (map (\<lambda>row. join '' | '' (map (cell row) cols) @ [CHR 0x0A]) rows)"

definition render_aggregates :: "engine_env \<Rightarrow> select_item list \<Rightarrow> row list \<Rightarrow> str" where
  "render_aggregates E items rows = (let results = map (aggregate_item E rows) items
     in header_lines (map fst results) @ join '' | '' (map snd results) @ [CHR 0x0A])"

definition join_step :: "engine_env \<Rightarrow> u64 \<Rightarrow> table_with_joins \<Rightarrow> row list \<Rightarrow> str list
    \<Rightarrow> (engine, row list \<times> str list) act" where
  "join_step E ver tw left_rows display_cols = (case joins tw of
      [] \<Rightarrow> ret (left_rows, display_cols)
    | (tf, jo) # _ \<Rightarrow>
        seq (of_result (factor_table ''Unsupported join table'' tf)) (\<lambda>right_table.
        seq (get_schema right_table) (\<lambda>right_schema.
        seq (scan_table E right_table ver) (\<lambda>right_rows.
        ret (join_rows E jo left_rows right_rows, display_cols @ with_prefix right_table right_schema)))))"

definition handle_query :: "engine_env \<Rightarrow> sql_query \<Rightarrow> u32 \<Rightarrow> (engine, str) act" where
  "handle_query E query conn_id = seq (read_st (read_version conn_id)) (\<lambda>ver.
     case query_body query of
       Select sel \<Rightarrow>
         seq (of_result (vec_get (from_tables sel) 0)) (\<lambda>tw.
         seq (of_result (factor_table ''Unsupported table'' (relation tw))) (\<lambda>table_name.
         seq (get_schema table_name) (\<lambda>schema.
         seq (scan_table_with_filter E table_name ver (selection sel)) (\<lambda>left_rows.
         seq (join_step E ver tw left_rows (with_prefix table_name schema)) (\<lambda>(rows, display_cols).
         let rows = limit_rows (query_limit query) (where_rows E (selection sel) rows) in
         ret (if is_aggregate E (projection sel) then render_aggregates E (projection sel) rows
              else render_rows display_cols rows))))))
     | _ \<Rightarrow> throw (Msg ''Unsupported query type''))"

section \<open>Statements\<close>

definition call_module :: "engine_env \<Rightarrow> str \<Rightarrow> (engine, str) act" where
  "call_module E path = (case read_module E (unquote path) of
      None \<Rightarrow> throw Open_failed
    | Some binary \<Rightarrow> seq (of_result (wasm_main E binary)) (\<lambda>result.
        ret (''WASM Result: '' @ show_int result)))"

definition explain_text :: "str \<Rightarrow> str" where
  "explain_text st = ''Execution Plan (Titan-Prime):'' @ [CHR 0x0A] @ ''- io_uring I/O'' @ [CHR 0x0A]
     @ ''- O_DIRECT DMA'' @ [CHR 0x0A] @ ''- Lock-Free ArrayQueue'' @ [CHR 0x0A]
     @ ''- Ping-Pong Double Buffering'' @ [CHR 0x0A] @ ''- Statement: '' @ st"

definition dispatch :: "engine_env \<Rightarrow> statement \<Rightarrow> u32 \<Rightarrow> (engine, str) act" where
  "dispatch E stmt conn_id = (case stmt of
      CreateIndex name table_name cols \<Rightarrow> create_index E name table_name cols
    | CreateTable name cols \<Rightarrow> create_table E name cols
    | Explain st \<Rightarrow> ret (explain_text st)
    | Insert table_name source \<Rightarrow>
        (case source of
           None \<Rightarrow> throw (Msg ''Source missing'')
         | Some q \<Rightarrow> handle_insert E table_name q conn_id)
    | Query q \<Rightarrow> handle_query E q conn_id
    | Update tf assignments cond \<Rightarrow>
        seq (of_result (factor_table ''Unsupported update target'' tf)) (\<lambda>table_name.
        handle_update E table_name assignments cond conn_id)
    | Delete tfs cond \<Rightarrow>
        seq (of_result (vec_get tfs 0)) (\<lambda>tf.
        seq (of_result (factor_table ''Unsupported delete target'' tf)) (\<lambda>table_name.
        handle_delete E table_name cond conn_id))
    | Other_statement _ \<Rightarrow> throw (Msg ''Unsupported statement''))"

definition execute_statement :: "engine_env \<Rightarrow> statement \<Rightarrow> u32 \<Rightarrow> (engine, str) act" where
  "execute_statement E stmt conn_id =
     (let sql = show_statement E stmt; parts = split_words sql in
      if prefix ''CALL'' sql \<and> 1 < length parts then call_module E (parts ! 1)
      else dispatch E stmt conn_id)"

definition message :: "engine_env \<Rightarrow> err \<Rightarrow> str" where
  "message E e = (case e of Msg m \<Rightarrow> m | _ \<Rightarrow> error_text E e)"

text \<open>A statement is tried again after an error that mentions a conflict, five times at most.\<close>

function run_statement :: "engine_env \<Rightarrow> statement \<Rightarrow> u32 \<Rightarrow> nat \<Rightarrow> (engine, str) act" where
  "run_statement E stmt conn_id retries s = (case execute_statement E stmt conn_id s of
      Some (Inl e, s') \<Rightarrow>
        if e \<noteq> Panicked \<and> contains (message E e) ''conflict'' \<and> retries < 5
        then run_statement E stmt conn_id (Suc retries) s' else Some (Inl e, s')
    | r \<Rightarrow> r)"
  by pat_completeness auto
termination
  by (relation "measure (\<lambda>(E, stmt, conn_id, retries, s). 5 - retries)") auto

declare run_statement.simps [simp del]

fun run_statements :: "engine_env \<Rightarrow> statement list \<Rightarrow> u32 \<Rightarrow> (engine, str list) act" where
  "run_statements E [] conn_id = ret []"
| "run_statements E (stmt # stmts) conn_id = seq (run_statement E stmt conn_id 0) (\<lambda>r.
     seq (run_statements E stmts conn_id) (\<lambda>rs. ret (r # rs)))"

section \<open>Transactions\<close>

definition begin_tx :: "engine_env \<Rightarrow> u32 \<Rightarrow> (engine, str) act" where
  "begin_tx E conn_id = seq tick (\<lambda>n. seq (modify_st (\<lambda>s. s\<lparr>active_transactions :=
     AList.update conn_id \<lparr>tx_id = of_int (clock_micros E n), snapshot_version = current_version s,
       updates = []\<rparr> (active_transactions s)\<rparr>)) (\<lambda>_. ret ''Transaction started''))"

definition drop_tx :: "u32 \<Rightarrow> (engine, unit) act" where
  "drop_tx conn_id = modify_st (\<lambda>s. s\<lparr>active_transactions :=
     AList.delete conn_id (active_transactions s)\<rparr>)"

text \<open>The optimistic check of one key: its current record is not newer than the snapshot.\<close>

definition occ_check :: "engine_env \<Rightarrow> u64 \<Rightarrow> bytes \<Rightarrow> (engine, unit) act" where
  "occ_check E snapshot key = seq (cached_else_stored E key) (\<lambda>d. case d of
      None \<Rightarrow> ret ()
    | Some data \<Rightarrow> seq (bincode (de_record E data)) (\<lambda>r.
        if snapshot < version r then throw (Msg ''Transaction conflict detected (OCC)'') else ret ()))"

definition install :: "engine_env \<Rightarrow> u64 \<Rightarrow> bytes \<times> bytes \<Rightarrow> (engine, unit) act" where
  "install E ver kv = seq (bincode (de_record E (snd kv))) (\<lambda>r.
     seq (bincode (ser_record E (r\<lparr>version := ver\<rparr>))) (\<lambda>v_new.
     seq (tier_insert E (fst kv) v_new) (\<lambda>_.
     enqueue E (fst kv) v_new)))"

definition commit_tx :: "engine_env \<Rightarrow> u32 \<Rightarrow> (engine, str) act" where
  "commit_tx E conn_id = seq (read_st (tx_of conn_id)) (\<lambda>t. case t of
      None \<Rightarrow> throw (Msg ''No active transaction'')
    | Some tx \<Rightarrow>
        seq (drop_tx conn_id) (\<lambda>_.
        seq (for_each (map fst (updates tx)) (occ_check E (snapshot_version tx))) (\<lambda>_.
        seq bump_version (\<lambda>ver.
        seq (for_each (updates tx) (install E ver)) (\<lambda>_.
        seq (flush E) (\<lambda>_.
        ret ''Transaction committed''))))))"

definition rollback_tx :: "u32 \<Rightarrow> (engine, str) act" where
  "rollback_tx conn_id = seq (drop_tx conn_id) (\<lambda>_. ret ''Transaction rolled back'')"

text \<open>FLUSH: one flush, then the queue is emptied.\<close>

definition flush_command :: "engine_env \<Rightarrow> (engine, str) act" where
  "flush_command E = seq (flush E) (\<lambda>_.
     seq (modify_st (\<lambda>s. s\<lparr>tree := (tree s)\<lparr>bt_wal := (bt_wal (tree s))\<lparr>queue := []\<rparr>\<rparr>\<rparr>)) (\<lambda>_.
     ret ''Flushed''))"

section \<open>Search\<close>

fun search_leaf :: "engine_env \<Rightarrow> str \<Rightarrow> bytes list \<Rightarrow> nat \<Rightarrow> bytes list \<Rightarrow> str list \<Rightarrow> err + str list" where
  "search_leaf E query payload i [] results = Inr results"
| "search_leaf E query payload i (key # ks) results =
     (let key_str = from_utf8_lossy key in
      if prefix ''__'' key_str then search_leaf E query payload (Suc i) ks results
      else case vec_get payload i of
             Inl e \<Rightarrow> Inl e
           | Inr data \<Rightarrow>
               (case de_record E data of
                  None \<Rightarrow> Inl Bincode_error
                | Some r \<Rightarrow>
                    let row_str = from_utf8_lossy (rec_value r) in
                    search_leaf E query payload (Suc i) ks
                      (if \<not> is_deleted r \<and> contains row_str query
                       then results @ [''Match in Key '' @ key_str @ '': '' @ row_str] else results)))"

text \<open>A read that fails ends the search without an error, a page that cannot be decoded with one.\<close>

definition read_or_stop :: "btree_env \<Rightarrow> u32 \<Rightarrow> (btree, node option) act" where
  "read_or_stop B page_id s = (case on_pager (read_page (penv B) page_id) s of
      None \<Rightarrow> None
    | Some (Inl e, s') \<Rightarrow> Some (Inr None, s')
    | Some (Inr page, s') \<Rightarrow> Some (map_sum id Some (from_bytes B page), s'))"

text \<open>The next page of the search: the first child, or the next leaf.\<close>

definition search_next :: "node \<Rightarrow> u32 option" where
  "search_next node = (case node_type node of
      Leaf \<Rightarrow> next_leaf node
    | Internal \<Rightarrow> (case children node of [] \<Rightarrow> None | c # _ \<Rightarrow> Some c))"

partial_function (option) search_pages ::
    "engine_env \<Rightarrow> str \<Rightarrow> u32 \<Rightarrow> str list \<Rightarrow> btree \<Rightarrow> ((err + str list) \<times> btree) option" where
  "search_pages E query page_id results s = seq (read_or_stop (benv E) page_id) (\<lambda>n. (case n of
      None \<Rightarrow> ret results
    | Some node \<Rightarrow>
        seq (of_result (if node_type node = Leaf
               then search_leaf E query (vals node) 0 (keys node) results else Inr results)) (\<lambda>results.
        (case search_next node of
           None \<Rightarrow> ret results
         | Some nx \<Rightarrow> search_pages E query nx results)))) s"

definition universal_search :: "engine_env \<Rightarrow> str \<Rightarrow> (engine, str) act" where
  "universal_search E query = seq (read_st (\<lambda>s. root_page_id (tree s))) (\<lambda>root.
     seq (on_tree (search_pages E query root
       [''Universal Search Results for: '' @ [CHR 0x27] @ query @ [CHR 0x27], replicate 40 CHR ''-''])) (\<lambda>results.
     ret (join [CHR 0x0A] results)))"

section \<open>The entry point\<close>

definition execute :: "engine_env \<Rightarrow> str \<Rightarrow> u32 \<Rightarrow> (engine, str) act" where
  "execute E sql conn_id =
     (let sql_upper = to_upper E (trim sql) in
      if sql_upper = ''FLUSH'' then flush_command E
      else if prefix ''SEARCH'' sql_upper
      then universal_search E (unquote (trim (strip_prefixes ''SEARCH'' sql)))
      else if sql_upper = ''BEGIN'' \<or> sql_upper = ''BEGIN TRANSACTION'' then begin_tx E conn_id
      else if sql_upper = ''COMMIT'' then commit_tx E conn_id
      else if sql_upper = ''ROLLBACK'' then rollback_tx conn_id
      else seq (of_result (parse_sql E sql)) (\<lambda>ast.
           seq (run_statements E ast conn_id) (\<lambda>results.
           ret (join [CHR 0x0A] results))))"

section \<open>Start, drain thread, undo and redo\<close>

text \<open>Errors of a drained insertion are dropped, a panic is not.\<close>

definition ignore_error :: "('s, unit) act \<Rightarrow> ('s, unit) act" where
  "ignore_error m s = (case m s of
      Some (Inl e, s') \<Rightarrow> if e = Panicked then Some (Inl e, s') else Some (Inr (), s')
    | r \<Rightarrow> r)"

definition drain_entry :: "engine_env \<Rightarrow> wal_entry \<Rightarrow> (engine, unit) act" where
  "drain_entry E entry = (case entry of
      RecordUpdate key data \<Rightarrow> ignore_error (on_tree (bt_insert (benv E) key data))
    | _ \<Rightarrow> ret ())"

text \<open>One round of the drain thread: at most 1000 entries leave the queue and go to the tree.\<close>

definition drain_round :: "engine_env \<Rightarrow> (engine, unit) act" where
  "drain_round E = seq (read_st (\<lambda>s. take 1000 (queue (bt_wal (tree s))))) (\<lambda>entries.
     seq (modify_st (\<lambda>s. s\<lparr>tree := (tree s)\<lparr>bt_wal :=
       (bt_wal (tree s))\<lparr>queue := drop 1000 (queue (bt_wal (tree s)))\<rparr>\<rparr>\<rparr>)) (\<lambda>_.
     for_each entries (drain_entry E)))"

definition version_key :: bytes where
  "version_key = to_bytes_of ''__version__''"

text \<open>\<open>Engine::new\<close> on the tree that \<open>BPlusTree::open\<close> returned.\<close>

definition load_meta :: "engine_env \<Rightarrow> bytes \<Rightarrow> (engine, db_record option) act" where
  "load_meta E key = seq (on_tree (bt_get (benv E) key)) (\<lambda>d. case d of
      None \<Rightarrow> ret None
    | Some data \<Rightarrow> seq (bincode (de_record E data)) (\<lambda>r. ret (Some r)))"

definition engine_new :: "engine_env \<Rightarrow> (engine, unit) act" where
  "engine_new E =
     seq (load_meta E schemas_key) (\<lambda>r.
     seq (case r of
            None \<Rightarrow> ret ()
          | Some r \<Rightarrow> seq (bincode (de_schemas E (rec_value r))) (\<lambda>m.
              modify_st (\<lambda>s. s\<lparr>schemas := foldl (\<lambda>l (k, v). AList.update k v l) [] m\<rparr>))) (\<lambda>_.
     seq (load_meta E version_key) (\<lambda>r.
     case r of
       None \<Rightarrow> ret ()
     | Some r \<Rightarrow> seq (bincode (de_version E (rec_value r))) (\<lambda>v.
         modify_st (\<lambda>s. s\<lparr>current_version := v\<rparr>)))))"

definition fresh_engine :: "btree \<Rightarrow> engine" where
  "fresh_engine t = \<lparr>tree = t, schemas = [], indices = [], current_version = 0,
     active_transactions = [], ticks = 0\<rparr>"

definition engine_open :: "engine_env \<Rightarrow> (nat \<Rightarrow> int) \<Rightarrow> bool \<Rightarrow> bytes \<Rightarrow> bytes option
    \<Rightarrow> ((err + unit) \<times> engine) option" where
  "engine_open E clock boots db wal_content =
     (case bt_open (benv E) clock boots db wal_content (mt_new 1024) of
        None \<Rightarrow> None
      | Some (Inl e, t) \<Rightarrow> Some (Inl e, fresh_engine t)
      | Some (Inr _, t) \<Rightarrow> engine_new E (fresh_engine t))"

definition undo :: "(engine, unit) act" where
  "undo = modify_st (\<lambda>s. if 0 < current_version s
     then s\<lparr>current_version := current_version s - 1\<rparr> else s)"

definition redo :: "(engine, unit) act" where
  "redo = modify_st (\<lambda>s. s\<lparr>current_version := current_version s + 1\<rparr>)"

end
