(* ===== verification/Engine_Frame.thy ===== *)
theory Engine_Frame
  imports Engine
begin

text \<open>
  What the engine's operations leave alone. \<open>keeps R m\<close> says that the states before and after
  \<open>m\<close> are related by \<open>R\<close> whatever \<open>m\<close> returns; the locale \<open>frame_rel\<close> proves once, for every
  reflexive and transitive \<open>R\<close>, that sequencing and loops keep it. It is interpreted on the
  stored data of the tree (\<open>same_store\<close>), on the data of the engine (\<open>same_db\<close>) and on the
  engine without its storage (\<open>same_meta\<close>). Lookups and scans keep all data.
\<close>

section \<open>Frames\<close>

definition keeps :: "('s \<Rightarrow> 's \<Rightarrow> bool) \<Rightarrow> ('s, 'a) act \<Rightarrow> bool" where
  "keeps R m \<longleftrightarrow> (\<forall>s r s'. m s = Some (r, s') \<longrightarrow> R s s')"

named_theorems keeps

lemma keepsI: "(\<And>s r s'. m s = Some (r, s') \<Longrightarrow> R s s') \<Longrightarrow> keeps R m"
  by (simp add: keeps_def)

lemma keepsD: "keeps R m \<Longrightarrow> m s = Some (r, s') \<Longrightarrow> R s s'"
  by (simp add: keeps_def)

locale frame_rel =
  fixes R :: "'s \<Rightarrow> 's \<Rightarrow> bool"
  assumes refl: "R s s"
    and trans: "R s t \<Longrightarrow> R t u \<Longrightarrow> R s u"
begin

lemma keeps_ret: "keeps R (ret x)"
  by (simp add: keeps_def refl)

lemma keeps_pure: "keeps R (\<lambda>s. Some (r, s))"
  by (simp add: keeps_def refl)

lemma keeps_throw: "keeps R (throw e)"
  by (simp add: keeps_def refl)

lemma keeps_of_result: "keeps R (of_result r)"
  by (simp add: keeps_def refl)

lemma keeps_read: "keeps R (read_st f)"
  by (simp add: keeps_def refl)

lemma keeps_modify: "(\<And>s. R s (f s)) \<Longrightarrow> keeps R (modify_st f)"
  by (simp add: keeps_def)

lemma keeps_bincode: "keeps R (bincode x)"
  by (simp add: bincode_def keeps_of_result)

lemma keeps_seq:
  assumes "keeps R m" and "\<And>x. keeps R (f x)"
  shows "keeps R (seq m f)"
proof (rule keepsI)
  fix s r s'
  assume "seq m f s = Some (r, s')"
  then obtain r1 s1 where m: "m s = Some (r1, s1)"
    and c: "(case r1 of Inl e \<Rightarrow> Some (Inl e, s1) | Inr x \<Rightarrow> f x s1) = Some (r, s')"
    by (auto simp: seq_def bind_eq_Some_conv)
  show "R s s'"
  proof (cases r1)
    case (Inl e)
    with c m show ?thesis using keepsD [OF assms(1)] by auto
  next
    case (Inr x)
    with c have "R s1 s'" using keepsD [OF assms(2)] by simp
    with keepsD [OF assms(1) m] show ?thesis by (rule trans)
  qed
qed

lemma keeps_for_each: "(\<And>x. x \<in> set xs \<Longrightarrow> keeps R (f x)) \<Longrightarrow> keeps R (for_each xs f)"
  by (induction xs) (auto intro: keeps_ret keeps_seq)

lemma keeps_ignore_error: "keeps R m \<Longrightarrow> keeps R (ignore_error m)"
  by (auto simp: keeps_def ignore_error_def split: option.splits prod.splits sum.splits if_splits)

lemmas keeps_intros = keeps_pure keeps_ret keeps_throw keeps_of_result keeps_read keeps_bincode keeps_seq
  keeps_for_each

end

section \<open>Reading the tree\<close>

definition same_store :: "btree \<Rightarrow> btree \<Rightarrow> bool" where
  "same_store t t' \<longleftrightarrow> disk (bt_pager t') = disk (bt_pager t) \<and> bt_wal t' = bt_wal t
     \<and> root_page_id t' = root_page_id t \<and> cache (memory_tier t') = cache (memory_tier t)
     \<and> lru (memory_tier t') = lru (memory_tier t) \<and> max_ram_mb (memory_tier t') = max_ram_mb (memory_tier t)
     \<and> turbo_mode (memory_tier t') = turbo_mode (memory_tier t)"

interpretation st: frame_rel same_store
  by unfold_locales (auto simp: same_store_def)

lemma keeps_read_page: "keeps same_store (on_pager (read_page P i))"
proof (rule keepsI)
  fix t r t'
  assume "on_pager (read_page P i) t = Some (r, t')"
  then show "same_store t t'"
    by (auto simp: zoom_def read_page_def serve_read_def seq_def same_store_def pager_boot_def
        split: option.splits if_splits sum.splits)
qed

lemma keeps_load_node [keeps]: "keeps same_store (load_node B i)"
  unfolding load_node_def by (intro st.keeps_seq keeps_read_page st.keeps_of_result)

text \<open>The loops: a run that returns is a run of the body with keeping recursive calls.\<close>

lemma keepsD': "keeps R m \<Longrightarrow> m s = Some y \<Longrightarrow> R s (snd y)"
  by (cases y) (simp add: keepsD)

lemma keepsI': "(\<And>s y. m s = Some y \<Longrightarrow> R s (snd y)) \<Longrightarrow> keeps R m"
  by (force simp: keeps_def)

lemma keeps_get_from [keeps]: "keeps same_store (get_from B key p)"
proof (rule keepsI')
  fix s y
  assume "get_from B key p s = Some y"
  then show "same_store s (snd y)"
  proof (rule get_from.raw_induct [rotated])
    fix rec E key p s y
    assume IH: "\<And>E key p s y. rec E key p s = Some y \<Longrightarrow> same_store s (snd y)"
      and body: "seq (load_node E p) (\<lambda>node. case node_type node of
          Internal \<Rightarrow> seq (of_result (vec_get (children node) (child_index node key))) (rec E key)
        | Leaf \<Rightarrow> case binary_search (keys node) key of Inl x \<Rightarrow> ret None
            | Inr idx \<Rightarrow> seq (of_result (vec_get (vals node) idx)) (\<lambda>v. ret (Some v))) s = Some y" (is "?m s = _")
    have r: "keeps same_store (rec E key p)" for E key p
      by (rule keepsI') (rule IH)
    have "keeps same_store ?m"
      by (auto intro!: st.keeps_intros keeps_load_node r split: node_type.split sum.split)
    then show "same_store s (snd y)" using body by (rule keepsD')
  qed
qed

lemma keeps_leftmost_leaf [keeps]: "keeps same_store (leftmost_leaf B p)"
proof (rule keepsI')
  fix s y
  assume "leftmost_leaf B p s = Some y"
  then show "same_store s (snd y)"
  proof (rule leftmost_leaf.raw_induct [rotated])
    fix rec B p s y
    assume IH: "\<And>B p s y. rec B p s = Some y \<Longrightarrow> same_store s (snd y)"
      and body: "seq (load_node B p) (\<lambda>node. case node_type node of
          Internal \<Rightarrow> (case vec_get (children node) 0 of Inl x \<Rightarrow> ret p | Inr c \<Rightarrow> rec B c)
        | Leaf \<Rightarrow> ret p) s = Some y" (is "?m s = _")
    have r: "keeps same_store (rec B p)" for B p
      by (rule keepsI') (rule IH)
    have "keeps same_store ?m"
      by (auto intro!: st.keeps_intros keeps_load_node r split: node_type.split sum.split)
    then show "same_store s (snd y)" using body by (rule keepsD')
  qed
qed

lemma keeps_scan_leaves [keeps]: "keeps same_store (scan_leaves E tbl ver p acc)"
proof (rule keepsI')
  fix s y
  assume "scan_leaves E tbl ver p acc s = Some y"
  then show "same_store s (snd y)"
  proof (rule scan_leaves.raw_induct [rotated])
    fix rec E tbl ver p acc s y
    assume IH: "\<And>E tbl ver p acc s y. rec E tbl ver p acc s = Some y \<Longrightarrow> same_store s (snd y)"
      and body: "seq (load_node (benv E) p) (\<lambda>node.
          seq (of_result (scan_leaf E tbl ver (vals node) 0 (keys node) acc)) (\<lambda>acc.
          case next_page p node of None \<Rightarrow> ret acc | Some nx \<Rightarrow> rec E tbl ver nx acc)) s = Some y" (is "?m s = _")
    have r: "keeps same_store (rec E tbl ver p acc)" for E tbl ver p acc
      by (rule keepsI') (rule IH)
    have "keeps same_store ?m"
      by (auto intro!: st.keeps_intros keeps_load_node r split: option.split)
    then show "same_store s (snd y)" using body by (rule keepsD')
  qed
qed

lemma same_store_get: "same_store t (t\<lparr>memory_tier := snd (mt_get k (memory_tier t))\<rparr>)"
  by (simp add: same_store_def)

lemma keeps_bt_get [keeps]: "keeps same_store (bt_get B key)"
proof (rule keepsI)
  fix t r t'
  assume run: "bt_get B key t = Some (r, t')"
  obtain c m where m: "mt_get key (memory_tier t) = (c, m)" by (cases "mt_get key (memory_tier t)")
  have st: "same_store t (t\<lparr>memory_tier := m\<rparr>)" using same_store_get [of t key] by (simp add: m)
  show "same_store t t'"
  proof (cases c)
    case None
    with run m have "get_from B key (root_page_id t) (t\<lparr>memory_tier := m\<rparr>) = Some (r, t')"
      by (simp add: bt_get_def)
    with st keepsD [OF keeps_get_from] show ?thesis by (blast intro: st.trans)
  qed (use run m st in \<open>auto simp: bt_get_def\<close>)
qed

section \<open>Reading through the engine\<close>

text \<open>Same data: only counters, the cached file length and the clock may differ.\<close>

definition same_db :: "engine \<Rightarrow> engine \<Rightarrow> bool" where
  "same_db s s' \<longleftrightarrow> same_store (tree s) (tree s') \<and> schemas s' = schemas s \<and> indices s' = indices s
     \<and> current_version s' = current_version s"

text \<open>Same transactions as well, and no reading of clock or random numbers.\<close>

definition same_all :: "engine \<Rightarrow> engine \<Rightarrow> bool" where
  "same_all s s' \<longleftrightarrow> same_db s s' \<and> active_transactions s' = active_transactions s \<and> ticks s' = ticks s"

interpretation db: frame_rel same_db
  by unfold_locales (auto simp: same_db_def st.refl intro: st.trans)

interpretation al: frame_rel same_all
  by unfold_locales (auto simp: same_all_def db.refl intro: db.trans)

lemma keeps_mono: "keeps R m \<Longrightarrow> (\<And>s t. R s t \<Longrightarrow> Q s t) \<Longrightarrow> keeps Q m"
  by (auto simp: keeps_def)

lemma keeps_all_db: "keeps same_all m \<Longrightarrow> keeps same_db m"
  by (erule keeps_mono) (simp add: same_all_def)

lemma keeps_on_tree: "keeps same_store m \<Longrightarrow> keeps same_all (on_tree m)"
  by (auto simp: keeps_def zoom_def same_all_def same_db_def)

lemma keeps_tick [keeps]: "keeps same_db tick"
  by (auto simp: keeps_def tick_def same_db_def st.refl)

lemma keeps_tier_get [keeps]: "keeps same_all (tier_get key)"
proof (rule keepsI)
  fix s r s'
  assume "tier_get key s = Some (r, s')"
  then have "s' = s\<lparr>tree := (tree s)\<lparr>memory_tier := snd (mt_get key (tier s))\<rparr>\<rparr>"
    by (simp add: tier_get_def split: prod.splits)
  with same_store_get [of "tree s" key] show "same_all s s'" by (simp add: same_all_def same_db_def)
qed

lemmas all_intros = al.keeps_intros keeps_on_tree keeps_tier_get keeps_bt_get
  keeps_leftmost_leaf keeps_scan_leaves

lemma keeps_cached_or_stored [keeps]: "keeps same_all (cached_or_stored E key)"
  unfolding cached_or_stored_def by (intro all_intros)

lemma keeps_cached_else_stored [keeps]: "keeps same_all (cached_else_stored E key)"
  unfolding cached_else_stored_def by (auto intro!: all_intros split: option.split)

lemma keeps_index_lookup [keeps]: "keeps same_all (index_lookup E tbl ver cond)"
  unfolding index_lookup_def index_row_def Let_def
  by (auto intro!: all_intros keeps_cached_or_stored split: option.split prod.split)

lemma keeps_scan [keeps]: "keeps same_all (scan_table_with_filter E tbl ver cond)"
  unfolding scan_table_with_filter_def
  by (auto intro!: all_intros keeps_index_lookup split: option.split)

lemma keeps_load_record [keeps]: "keeps same_all (load_record E what key)"
  unfolding load_record_def
  by (auto intro!: all_intros keeps_cached_or_stored split: option.split)

lemma keeps_occ_check [keeps]: "keeps same_all (occ_check E snap key)"
  unfolding occ_check_def
  by (auto intro!: all_intros al.keeps_throw keeps_cached_else_stored split: option.split)

lemma keeps_handle_query [keeps]: "keeps same_all (handle_query E q conn_id)"
  unfolding handle_query_def join_step_def get_schema_def scan_table_def Let_def
  by (auto intro!: all_intros al.keeps_throw keeps_scan split: option.split set_expr.split list.split prod.split)

section \<open>The retry loop and the search\<close>

lemma keeps_retry:
  assumes "frame_rel R" and "keeps R (execute_statement E st c)"
  shows "keeps R (run_statement E st c n)"
proof (rule keepsI)
  fix s r s'
  assume "run_statement E st c n s = Some (r, s')"
  with assms(2) show "R s s'"
  proof (induction E st c n s rule: run_statement.induct)
    case (1 E st c n s)
    obtain r1 s1 where ex: "execute_statement E st c s = Some (r1, s1)"
      using 1(3) by (subst (asm) run_statement.simps) (auto split: option.splits)
    have step: "R s s1" using keepsD [OF 1(2) ex] .
    show ?case
    proof (cases "\<exists>e. r1 = Inl e \<and> e \<noteq> Panicked \<and> contains (message E e) ''conflict'' \<and> n < 5")
      case True
      then obtain e where e: "r1 = Inl e" "e \<noteq> Panicked \<and> contains (message E e) ''conflict'' \<and> n < 5"
        by blast
      with 1(3) ex have "run_statement E st c (Suc n) s1 = Some (r, s')"
        by (subst (asm) run_statement.simps) simp
      with 1(1) [OF ex refl e 1(2)] step frame_rel.trans [OF assms(1)] show ?thesis by blast
    next
      case False
      with 1(3) ex have "s' = s1"
        by (subst (asm) run_statement.simps) (auto split: sum.splits if_splits)
      with step show ?thesis by simp
    qed
  qed
qed

lemma keeps_statements:
  assumes "frame_rel R" and "\<And>st. st \<in> set sts \<Longrightarrow> keeps R (execute_statement E st c)"
  shows "keeps R (run_statements E sts c)"
  using assms(2)
proof (induction sts)
  case Nil
  then show ?case by (simp add: frame_rel.keeps_pure [OF assms(1)])
next
  case (Cons st sts)
  then show ?case
    using keeps_retry [OF assms(1)]
    by (auto intro!: frame_rel.keeps_seq [OF assms(1)] frame_rel.keeps_ret [OF assms(1)])
qed

lemma keeps_read_or_stop: "keeps same_store (read_or_stop B p)"
proof (rule keepsI)
  fix t r t'
  assume run: "read_or_stop B p t = Some (r, t')"
  then obtain r1 where "on_pager (read_page (penv B) p) t = Some (r1, t')"
    by (auto simp: read_or_stop_def split: option.splits sum.splits prod.splits)
  then show "same_store t t'" by (rule keepsD [OF keeps_read_page])
qed

lemma keeps_search [keeps]: "keeps same_store (search_pages E q p results)"
proof (rule keepsI')
  fix s y
  assume "search_pages E q p results s = Some y"
  then show "same_store s (snd y)"
  proof (rule search_pages.raw_induct [rotated])
    fix rec E q p results s y
    assume IH: "\<And>E q p results s y. rec E q p results s = Some y \<Longrightarrow> same_store s (snd y)"
      and body: "seq (read_or_stop (benv E) p) (\<lambda>n. case n of
          None \<Rightarrow> ret results
        | Some node \<Rightarrow> seq (of_result (if node_type node = Leaf
              then search_leaf E q (vals node) 0 (keys node) results else Inr results)) (\<lambda>results.
            case search_next node of None \<Rightarrow> ret results | Some nx \<Rightarrow> rec E q nx results)) s = Some y" (is "?m s = _")
    have r: "keeps same_store (rec E q p results)" for E q p results
      by (rule keepsI') (rule IH)
    have "keeps same_store ?m"
      by (auto intro!: st.keeps_intros keeps_read_or_stop r split: option.split)
    then show "same_store s (snd y)" using body by (rule keepsD')
  qed
qed

lemma keeps_universal_search: "keeps same_all (universal_search E q)"
  unfolding universal_search_def by (intro all_intros keeps_search)

end
