(* ===== verification/Engine_Tx.thy ===== *)
theory Engine_Tx
  imports Engine_Frame
begin

text \<open>
  Transactions: statements inside a transaction change nothing but its own staged updates,
  ROLLBACK forgets them, COMMIT refuses stale updates and otherwise installs all of them
  under one new version, and of two transactions that update the same row at most one
  commits.
\<close>

lemma seq_assoc: "seq (seq m f) g = seq m (\<lambda>x. seq (f x) g)"
  by (auto simp: seq_def fun_eq_iff split: sum.split prod.split Option.bind_split)

lemma seq_tick [simp]: "seq tick f s = f (ticks s) (ticks_update Suc s)"
  by (simp add: tick_def seq_assoc)

section \<open>Statements inside a transaction\<close>

text \<open>
  While connection \<open>c\<close> has a transaction, the data and the other transactions stay as they are
  and its snapshot is kept.
\<close>

definition same_in_tx :: "u32 \<Rightarrow> engine \<Rightarrow> engine \<Rightarrow> bool" where
  "same_in_tx c s s' \<longleftrightarrow> (\<forall>t. tx_of c s = Some t \<longrightarrow>
     same_db s s' \<and> (\<forall>d. d \<noteq> c \<longrightarrow> tx_of d s' = tx_of d s)
     \<and> (\<exists>t'. tx_of c s' = Some t' \<and> snapshot_version t' = snapshot_version t))"

interpretation tx: frame_rel "same_in_tx c" for c
proof
  show "same_in_tx c s s" for s by (simp add: same_in_tx_def db.refl)
  show "same_in_tx c s u" if "same_in_tx c s t" "same_in_tx c t u" for s t u
    using that unfolding same_in_tx_def by (metis (no_types, lifting) db.trans)
qed

lemma keeps_all_tx: "keeps same_all m \<Longrightarrow> keeps (same_in_tx c) m"
  by (erule keeps_mono) (auto simp: same_all_def same_in_tx_def tx_of_def)

lemma keeps_put_record: "keeps (same_in_tx c) (put_record E c key r)"
proof (rule keepsI)
  fix s res s'
  assume run: "put_record E c key r s = Some (res, s')"
  show "same_in_tx c s s'"
    unfolding same_in_tx_def
  proof (intro allI impI)
    fix t
    assume t: "tx_of c s = Some t"
    have "s' = s \<or> (\<exists>val. s' = s\<lparr>active_transactions :=
        AList.update c (t\<lparr>updates := AList.update key val (updates t)\<rparr>) (active_transactions s)\<rparr>)"
      using run t by (cases "ser_record E r") (auto simp: put_record_def stage_def)
    with t show "same_db s s' \<and> (\<forall>d. d \<noteq> c \<longrightarrow> tx_of d s' = tx_of d s)
        \<and> (\<exists>t'. tx_of c s' = Some t' \<and> snapshot_version t' = snapshot_version t)"
      by (auto simp: same_db_def st.refl tx_of_def AList.update_conv')
  qed
qed

lemma keeps_flush_outside: "keeps (same_in_tx c) (flush_outside_tx E c)"
  by (auto simp: keeps_def flush_outside_tx_def same_in_tx_def db.refl split: if_splits)

lemma keeps_row_ops:
  "keeps (same_in_tx c) (update_row E c ver asg key)" "keeps (same_in_tx c) (delete_row E c ver key)"
  unfolding update_row_def delete_row_def
  by (intro tx.keeps_seq tx.keeps_bincode keeps_put_record keeps_all_tx [OF keeps_load_record])+

lemma keeps_handle_update: "keeps (same_in_tx c) (handle_update E tbl asg cond c)"
  unfolding handle_update_def Let_def
  by (intro tx.keeps_intros keeps_all_tx [OF keeps_scan] keeps_row_ops keeps_flush_outside)

lemma keeps_handle_delete: "keeps (same_in_tx c) (handle_delete E tbl cond c)"
  unfolding handle_delete_def Let_def
  by (intro tx.keeps_intros keeps_all_tx [OF keeps_scan] keeps_row_ops keeps_flush_outside)

text \<open>The statements considered: queries, updates, deletes and EXPLAIN.\<close>

definition row_statement :: "statement \<Rightarrow> bool" where
  "row_statement st = (case st of
      Query _ \<Rightarrow> True | Update _ _ _ \<Rightarrow> True | Delete _ _ \<Rightarrow> True | Explain _ \<Rightarrow> True | _ \<Rightarrow> False)"

lemma keeps_call_module: "keeps (same_in_tx c) (call_module E path)"
  unfolding call_module_def by (auto intro!: tx.keeps_intros tx.keeps_throw split: option.split)

lemma keeps_execute_statement:
  "row_statement st \<Longrightarrow> keeps (same_in_tx c) (execute_statement E st c)"
  unfolding execute_statement_def Let_def dispatch_def row_statement_def
  by (auto intro!: keeps_call_module tx.keeps_intros keeps_handle_update keeps_handle_delete
      keeps_all_tx [OF keeps_handle_query] split: statement.splits)

lemma keeps_run_statements:
  "\<forall>st \<in> set sts. row_statement st \<Longrightarrow> keeps (same_in_tx c) (run_statements E sts c)"
  by (intro keeps_statements tx.frame_rel_axioms keeps_execute_statement) simp

text \<open>
  C24 (engine, private writes): queries, updates and deletes that a connection runs inside its
  transaction, in any number and whether they succeed or fail, change neither the stored
  data, nor the log, nor schemas, versions or any other connection's transaction.
\<close>

theorem tx_writes_private:
  assumes "tx_of c s = Some t" and "\<forall>st \<in> set sts. row_statement st"
    and "run_statements E sts c s = Some (r, s')"
  shows "same_db s s' \<and> (\<forall>d. d \<noteq> c \<longrightarrow> tx_of d s' = tx_of d s)
    \<and> (\<exists>t'. tx_of c s' = Some t' \<and> snapshot_version t' = snapshot_version t)"
  using keepsD [OF keeps_run_statements [OF assms(2)] assms(3)] assms(1) by (simp add: same_in_tx_def)

text \<open>
  C25 (engine, rollback): BEGIN, any such statements and ROLLBACK leave the data, the log and
  the other transactions as they were before BEGIN, and the connection without a
  transaction.
\<close>

theorem rollback_discards:
  assumes "begin_tx E c s = Some (Inr m, s1)" and "\<forall>st \<in> set sts. row_statement st"
    and "run_statements E sts c s1 = Some (r, s2)" and "rollback_tx c s2 = Some (r', s')"
  shows "same_db s s' \<and> tx_of c s' = None \<and> (\<forall>d. d \<noteq> c \<longrightarrow> tx_of d s' = tx_of d s)"
proof -
  have b: "same_db s s1" "\<And>d. d \<noteq> c \<Longrightarrow> tx_of d s1 = tx_of d s" "tx_of c s1 \<noteq> None"
    using assms(1)
    by (auto simp: begin_tx_def same_db_def st.refl tx_of_def AList.update_conv')
  then obtain t where t: "tx_of c s1 = Some t" by auto
  have "same_db s1 s2" "\<And>d. d \<noteq> c \<Longrightarrow> tx_of d s2 = tx_of d s1"
    using keepsD [OF keeps_run_statements [OF assms(2)] assms(3)] t by (auto simp: same_in_tx_def)
  moreover have "same_db s2 s'" "tx_of c s' = None" "\<And>d. d \<noteq> c \<Longrightarrow> tx_of d s' = tx_of d s2"
    using assms(4)
    by (auto simp: rollback_tx_def drop_tx_def same_db_def st.refl tx_of_def AList.delete_conv')
  ultimately show ?thesis using b db.trans by metis
qed

section \<open>Commit\<close>

text \<open>Bincode on records: what was encoded decodes to itself.\<close>

definition record_codec :: "engine_env \<Rightarrow> bool" where
  "record_codec E \<longleftrightarrow> (\<forall>r b. ser_record E r = Some b \<longrightarrow> de_record E b = Some r)"

text \<open>The memory tier takes \<open>n\<close> more entries without evicting any.\<close>

definition room_for :: "nat \<Rightarrow> mem_tier \<Rightarrow> bool" where
  "room_for n m \<longleftrightarrow> (length (cache m) + n) * 256 \<le> unat (mt_max_bytes m)"

lemma no_evict:
  assumes "room_for (Suc n) m"
  shows "mt_lookup (mt_insert now k v m) = (mt_lookup m)(k \<mapsto> v)" and "room_for n (mt_insert now k v m)"
proof -
  have "length (cache m) * 256 \<le> unat (mt_max_bytes m)" using assms by (simp add: room_for_def)
  moreover have "unat (mt_max_bytes m) < 2 ^ 64" using unsigned_less [of "mt_max_bytes m"] by simp
  ultimately have "\<not> mt_max_bytes m < of_nat (length (cache m)) * 256"
    by (simp add: word_less_nat_alt unat_word_ariths unsigned_of_nat take_bit_nat_eq_self)
  then have r: "mt_make_room m = m" by (simp add: mt_make_room_def)
  then show "mt_lookup (mt_insert now k v m) = (mt_lookup m)(k \<mapsto> v)"
    by (auto simp: mt_lookup_insert fun_eq_iff)
  show "room_for n (mt_insert now k v m)"
    using assms r by (auto simp: room_for_def mt_insert_eq Let_def length_update mt_max_bytes_def)
qed

lemma room_mono: "room_for n m \<Longrightarrow> k \<le> n \<Longrightarrow> room_for k m"
  by (auto simp: room_for_def elim: le_trans [rotated])

text \<open>The queue operations of the log do not touch the rest of the engine.\<close>

definition same_but_log :: "engine \<Rightarrow> engine \<Rightarrow> bool" where
  "same_but_log s s' \<longleftrightarrow> (\<exists>w. s' = s\<lparr>tree := (tree s)\<lparr>bt_wal := w\<rparr>\<rparr>)"

lemma keeps_on_wal: "keeps same_but_log (on_tree (on_wal m))"
  by (auto simp: keeps_def zoom_def same_but_log_def)

lemma keeps_enqueue: "keeps same_but_log (enqueue E k d)"
  and keeps_flush: "keeps same_but_log (flush E)"
  by (simp_all add: enqueue_def flush_def keeps_on_wal)

lemma seq_Inr_cases:
  assumes "seq m f s = Some (Inr y, s')"
  obtains x t where "m s = Some (Inr x, t)" and "f x t = Some (Inr y, s')"
  using assms by (rule seq_InrE)

text \<open>What one installed update does.\<close>

lemma install_effect:
  assumes "install E ver kv s = Some (Inr u, s')" and "room_for (Suc n) (tier s)"
  shows "\<exists>r b. de_record E (snd kv) = Some r \<and> ser_record E (r\<lparr>version := ver\<rparr>) = Some b
    \<and> mt_lookup (tier s') = (mt_lookup (tier s))(fst kv \<mapsto> b) \<and> room_for n (tier s')
    \<and> current_version s' = current_version s \<and> active_transactions s' = active_transactions s"
proof -
  obtain r where r: "de_record E (snd kv) = Some r"
    using assms(1) by (cases "de_record E (snd kv)") (auto simp: install_def)
  obtain b where b: "ser_record E (r\<lparr>version := ver\<rparr>) = Some b"
    using assms(1) r by (cases "ser_record E (r\<lparr>version := ver\<rparr>)") (auto simp: install_def)
  let ?m = "mt_insert (clock_nanos E (ticks s)) (fst kv) b (tier s)"
  let ?s = "(ticks_update Suc s)\<lparr>tree := (tree s)\<lparr>memory_tier := ?m\<rparr>\<rparr>"
  have "enqueue E (fst kv) b ?s = Some (Inr u, s')"
    using assms(1) r b by (simp add: install_def tier_insert_def seq_assoc)
  then have "same_but_log ?s s'" by (rule keepsD [OF keeps_enqueue])
  then have "tier s' = ?m" "current_version s' = current_version s"
    "active_transactions s' = active_transactions s"
    by (auto simp: same_but_log_def)
  with r b no_evict [OF assms(2)] show ?thesis by simp
qed

lemma installs_effect:
  assumes "for_each ups (install E ver) s = Some (Inr u, s')" and "room_for (length ups) (tier s)"
    and "distinct (map fst ups)"
  shows "current_version s' = current_version s \<and> active_transactions s' = active_transactions s
    \<and> (\<forall>k. k \<notin> fst ` set ups \<longrightarrow> mt_lookup (tier s') k = mt_lookup (tier s) k)
    \<and> (\<forall>(k, v) \<in> set ups. \<exists>r b. de_record E v = Some r \<and> ser_record E (r\<lparr>version := ver\<rparr>) = Some b
        \<and> mt_lookup (tier s') k = Some b)"
  using assms
proof (induction ups arbitrary: s)
  case (Cons kv ups)
  from Cons.prems(1) obtain x s1 where s1: "install E ver kv s = Some (Inr x, s1)"
    and rest: "for_each ups (install E ver) s1 = Some (Inr u, s')"
    by (auto elim: seq_InrE)
  have "room_for (Suc (length ups)) (tier s)" using Cons.prems(2) by simp
  from install_effect [OF s1 this] obtain r b where
    e: "de_record E (snd kv) = Some r" "ser_record E (r\<lparr>version := ver\<rparr>) = Some b"
    "mt_lookup (tier s1) = (mt_lookup (tier s))(fst kv \<mapsto> b)" "room_for (length ups) (tier s1)"
    "current_version s1 = current_version s" "active_transactions s1 = active_transactions s" by auto
  from Cons.IH [OF rest e(4)] Cons.prems(3) e show ?case by (cases kv) auto
qed simp

text \<open>A check that passes has found no newer record.\<close>

lemma occ_check_cached:
  assumes "occ_check E snap k s = Some (Inr u, s')" and "mt_lookup (tier s) k = Some data"
    and "de_record E data = Some r"
  shows "\<not> snap < version r"
  using assms mt_get_fst [of k "tier s"]
  by (cases "mt_get k (tier s)")
    (auto simp: occ_check_def cached_else_stored_def tier_get_def seq_def split: if_splits)

lemma same_all_lookup: "same_all s s' \<Longrightarrow> mt_lookup (tier s') = mt_lookup (tier s)"
  by (auto simp: same_all_def same_db_def same_store_def mt_lookup_def fun_eq_iff)

lemma occ_checks_cached:
  assumes "for_each ks (occ_check E snap) s = Some (Inr u, s')" and "k \<in> set ks"
    and "mt_lookup (tier s) k = Some data" and "de_record E data = Some r"
  shows "\<not> snap < version r"
  using assms(1-3)
proof (induction ks arbitrary: s)
  case (Cons x ks)
  then obtain y s1 where s1: "occ_check E snap x s = Some (Inr y, s1)"
    "for_each ks (occ_check E snap) s1 = Some (Inr u, s')" by (auto elim: seq_InrE)
  have "mt_lookup (tier s1) = mt_lookup (tier s)"
    using keepsD [OF keeps_occ_check s1(1)] by (rule same_all_lookup)
  with Cons.IH [OF s1(2)] Cons.prems(2,3) occ_check_cached [OF s1(1) _ assms(4)] show ?case by auto
qed simp

lemma keeps_occ_checks: "keeps same_all (for_each ks (occ_check E snap))"
  by (intro al.keeps_for_each keeps_occ_check)

lemma below_next_version:
  fixes v w :: u64
  assumes "v \<le> w" and "w \<noteq> - 1"
  shows "v < w + 1"
proof -
  have "1 + w \<noteq> 0" using assms(2) by (metis add.commute add_eq_0_iff2)
  then have "unat (w + 1) = Suc (unat w)" by (simp add: unatSuc add.commute)
  with assms(1) show ?thesis by (simp add: word_less_nat_alt word_le_nat_alt)
qed

text \<open>The phases of a commit that returns without error.\<close>

lemma commit_phases:
  assumes "commit_tx E c s = Some (Inr m, s')" and "tx_of c s = Some t"
  obtains s0 s1 s2 where "s0 = s\<lparr>active_transactions := AList.delete c (active_transactions s)\<rparr>"
    and "for_each (map fst (updates t)) (occ_check E (snapshot_version t)) s0 = Some (Inr (), s1)"
    and "for_each (updates t) (install E (current_version s + 1))
      (s1\<lparr>current_version := current_version s + 1\<rparr>) = Some (Inr (), s2)"
    and "same_but_log s2 s'" and "same_all s0 s1"
proof -
  let ?s0 = "s\<lparr>active_transactions := AList.delete c (active_transactions s)\<rparr>"
  from assms obtain s1 where s1:
    "for_each (map fst (updates t)) (occ_check E (snapshot_version t)) ?s0 = Some (Inr (), s1)"
    and r1: "seq bump_version (\<lambda>ver. seq (for_each (updates t) (install E ver)) (\<lambda>_.
        seq (flush E) (\<lambda>_. ret ''Transaction committed''))) s1 = Some (Inr m, s')"
    by (auto simp: commit_tx_def drop_tx_def elim: seq_InrE)
  have al: "same_all ?s0 s1" using keepsD [OF keeps_occ_checks s1] .
  then have "current_version s1 = current_version s" by (simp add: same_all_def same_db_def)
  with r1 obtain s2 where s2: "for_each (updates t) (install E (current_version s + 1))
      (s1\<lparr>current_version := current_version s + 1\<rparr>) = Some (Inr (), s2)"
    and r2: "seq (flush E) (\<lambda>_. ret ''Transaction committed'') s2 = Some (Inr m, s')"
    by (auto simp: bump_version_def seq_assoc elim: seq_InrE)
  from r2 obtain u where "flush E s2 = Some (Inr u, s')" by (auto elim: seq_InrE)
  then have "same_but_log s2 s'" by (rule keepsD [OF keeps_flush])
  with that s1 s2 al show ?thesis by blast
qed

lemma commit_effect:
  assumes "commit_tx E c s = Some (Inr m, s')" and "tx_of c s = Some t"
    and "room_for (length (updates t)) (tier s)" and "distinct (map fst (updates t))"
  shows "current_version s' = current_version s + 1 \<and> tx_of c s' = None
    \<and> (\<forall>d. d \<noteq> c \<longrightarrow> tx_of d s' = tx_of d s)
    \<and> (\<forall>k. k \<notin> fst ` set (updates t) \<longrightarrow> mt_lookup (tier s') k = mt_lookup (tier s) k)
    \<and> (\<forall>(k, v) \<in> set (updates t). \<exists>r b. de_record E v = Some r
        \<and> ser_record E (r\<lparr>version := current_version s + 1\<rparr>) = Some b \<and> mt_lookup (tier s') k = Some b)"
proof -
  from commit_phases [OF assms(1,2)] obtain s0 s1 s2 where
    s0: "s0 = s\<lparr>active_transactions := AList.delete c (active_transactions s)\<rparr>"
    and inst: "for_each (updates t) (install E (current_version s + 1))
      (s1\<lparr>current_version := current_version s + 1\<rparr>) = Some (Inr (), s2)"
    and log: "same_but_log s2 s'" and al: "same_all s0 s1" by metis
  have "room_for (length (updates t)) (tier (s1\<lparr>current_version := current_version s + 1\<rparr>))"
    using assms(3) al s0
    by (auto simp: room_for_def same_all_def same_db_def same_store_def mt_max_bytes_def)
  from installs_effect [OF inst this assms(4)] log al s0 same_all_lookup [OF al] show ?thesis
    by (auto simp: same_but_log_def same_all_def tx_of_def AList.delete_conv')
qed

text \<open>
  C16 (engine, commit): a COMMIT that succeeds installs every staged update under one new
  version, the successor of the current one, changes no other key of the memory tier and no
  other transaction, and ends the transaction (with no eviction meanwhile).
\<close>

theorem commit_installs:
  assumes "commit_tx E c s = Some (Inr m, s')" and "tx_of c s = Some t"
    and "room_for (length (updates t)) (tier s)" and "distinct (map fst (updates t))"
  shows "current_version s' = current_version s + 1 \<and> tx_of c s' = None
    \<and> (\<forall>d. d \<noteq> c \<longrightarrow> tx_of d s' = tx_of d s)
    \<and> (\<forall>k. k \<notin> fst ` set (updates t) \<longrightarrow> mt_lookup (tier s') k = mt_lookup (tier s) k)
    \<and> (\<forall>(k, v) \<in> set (updates t). \<exists>r b. de_record E v = Some r
        \<and> ser_record E (r\<lparr>version := current_version s + 1\<rparr>) = Some b \<and> mt_lookup (tier s') k = Some b)"
  using commit_effect [OF assms] .

lemma conflict_stops:
  assumes "tx_of c s = Some t" and "k \<in> fst ` set (updates t)" and "mt_lookup (tier s) k = Some data"
    and "de_record E data = Some r" and "snapshot_version t < version r"
    and "commit_tx E c s = Some (res, s')"
  shows "(\<exists>e. res = Inl e) \<and> same_db s s' \<and> tx_of c s' = None"
proof -
  let ?s0 = "s\<lparr>active_transactions := AList.delete c (active_transactions s)\<rparr>"
  let ?checks = "for_each (map fst (updates t)) (occ_check E (snapshot_version t))"
  obtain r1 s1 where ch: "?checks ?s0 = Some (r1, s1)"
    using assms(1,6) by (cases "?checks ?s0") (auto simp: commit_tx_def drop_tx_def seq_def)
  have al: "same_all ?s0 s1" using keepsD [OF keeps_occ_checks ch] .
  have "r1 \<noteq> Inr u" for u
    using occ_checks_cached [of "map fst (updates t)" E "snapshot_version t" ?s0 u s1 k data r]
      ch assms(2-5) by auto
  then obtain e where "r1 = Inl e" by (cases r1) auto
  with ch assms(1,6) have "res = Inl e" "s' = s1"
    by (auto simp: commit_tx_def drop_tx_def seq_Inl)
  with al show ?thesis
    by (auto simp: same_all_def same_db_def tx_of_def AList.delete_conv')
qed

text \<open>
  Conflicts: when a row that the transaction updates has meanwhile got a version
  above the transaction's snapshot, COMMIT does not succeed; it ends the transaction and
  changes no data.
\<close>

theorem commit_conflict:
  assumes "tx_of c s = Some t" and "k \<in> fst ` set (updates t)" and "mt_lookup (tier s) k = Some data"
    and "de_record E data = Some r" and "snapshot_version t < version r"
    and "commit_tx E c s = Some (res, s')"
  shows "(\<exists>e. res = Inl e) \<and> same_db s s' \<and> tx_of c s' = None"
  using conflict_stops [OF assms] .


end
