(* ===== verification/Btree_Chain.thy ===== *)
theory Btree_Chain
  imports Btree_Spec "HOL-Library.Sublist"
begin

text \<open>
  The chain of leaves. Scans walk the leaves through \<open>next_leaf\<close>; \<open>chain_ok\<close> says that the
  chain lists the leaves of the tree from left to right and ends, and insertion keeps it.
\<close>

type_synonym leaf = "u32 \<times> bytes list \<times> bytes list \<times> u32 option"

abbreviation leaf_page :: "leaf \<Rightarrow> u32" where
  "leaf_page \<equiv> fst"

abbreviation leaf_next :: "leaf \<Rightarrow> u32 option" where
  "leaf_next l \<equiv> snd (snd (snd l))"

primrec leaves :: "ptree \<Rightarrow> leaf list" where
  "leaves (PLeaf p ks vs nx) = [(p, ks, vs, nx)]"
| "leaves (PNode p ks ts) = concat (map leaves ts)"

text \<open>Each leaf names the page of the following one; the last names \<open>e\<close>.\<close>

fun chained :: "leaf list \<Rightarrow> u32 option \<Rightarrow> bool" where
  "chained [] e \<longleftrightarrow> True"
| "chained (l # ls) e \<longleftrightarrow>
     leaf_next l = (case ls of [] \<Rightarrow> e | m # _ \<Rightarrow> Some (leaf_page m)) \<and> chained ls e"

definition first_page :: "leaf list \<Rightarrow> u32 option \<Rightarrow> u32 option" where
  "first_page ls e = (case ls of [] \<Rightarrow> e | l # _ \<Rightarrow> Some (leaf_page l))"

definition chain_ok :: "ptree \<Rightarrow> bool" where
  "chain_ok t \<longleftrightarrow> chained (leaves t) None"

lemma first_page_append: "first_page (xs @ ys) e = first_page xs (first_page ys e)"
  by (cases xs) (auto simp: first_page_def)

lemma chained_append: "chained (xs @ ys) e \<longleftrightarrow> chained xs (first_page ys e) \<and> chained ys e"
  by (induction xs) (auto simp: first_page_def split: list.split)

text \<open>Replacing part of a chain by a chain with the same first page and the same end.\<close>

lemma chained_replace:
  assumes "chained (xs @ ys @ zs) e" and "\<And>e. chained ys e \<Longrightarrow> chained ys' e"
    and "\<And>e. first_page ys' e = first_page ys e"
  shows "chained (xs @ ys' @ zs) e"
  using assms by (auto simp: chained_append first_page_append)

lemma split_leaves:
  assumes "pt_split q t = (l, m, r)"
  shows "chained (leaves t) e \<Longrightarrow> chained (leaves l @ leaves r) e"
    and "first_page (leaves l @ leaves r) e = first_page (leaves t) e"
proof -
  have "(case t of PNode p ks ts \<Rightarrow> leaves l @ leaves r = leaves t | _ \<Rightarrow> True)"
    using assms
    by (auto simp: Let_def split: ptree.split simp flip: concat_append map_append)
  then show "chained (leaves t) e \<Longrightarrow> chained (leaves l @ leaves r) e"
    "first_page (leaves l @ leaves r) e = first_page (leaves t) e"
    using assms by (cases t; auto simp: Let_def first_page_def)+
qed

lemma leaves_at: "i < length ts \<Longrightarrow> concat (map leaves ts)
    = concat (map leaves (take i ts)) @ leaves (ts ! i) @ concat (map leaves (drop (Suc i) ts))"
  by (subst id_take_nth_drop, assumption) (simp only: map_append concat_append list.map concat.simps)

lemma step_chain:
  assumes "pt_step full key n ks ts = (ks', ts', i, n')" and "slot ks key < length ts"
  shows "chained (concat (map leaves ts)) e \<Longrightarrow> chained (concat (map leaves ts')) e"
    and "first_page (concat (map leaves ts')) e = first_page (concat (map leaves ts)) e"
proof -
  let ?i = "slot ks key"
  let ?xs = "concat (map leaves (take ?i ts))" and ?zs = "concat (map leaves (drop (Suc ?i) ts))"
  obtain l m r where sp: "pt_split (of_nat n) (ts ! ?i) = (l, m, r)" by (metis prod_cases3)
  have ts: "concat (map leaves ts) = ?xs @ leaves (ts ! ?i) @ ?zs" by (rule leaves_at [OF assms(2)])
  consider "ts' = ts" | "ts' = take ?i ts @ [l, r] @ drop (Suc ?i) ts"
    using assms(1) sp by (auto simp: pt_step_def Let_def split: if_splits)
  then have "concat (map leaves ts') = concat (map leaves ts) \<or>
      concat (map leaves ts') = ?xs @ (leaves l @ leaves r) @ ?zs"
    by cases simp_all
  moreover have "chained (?xs @ leaves (ts ! ?i) @ ?zs) e \<Longrightarrow> chained (?xs @ (leaves l @ leaves r) @ ?zs) e"
    by (rule chained_replace [OF _ split_leaves [OF sp]])
  moreover have "first_page (?xs @ (leaves l @ leaves r) @ ?zs) e = first_page (?xs @ leaves (ts ! ?i) @ ?zs) e"
    by (simp only: first_page_append [of ?xs] first_page_append [of "leaves l @ leaves r"]
        first_page_append [of "leaves (ts ! ?i)"] split_leaves(2) [OF sp])
  ultimately show "chained (concat (map leaves ts)) e \<Longrightarrow> chained (concat (map leaves ts')) e"
    "first_page (concat (map leaves ts')) e = first_page (concat (map leaves ts)) e"
    unfolding ts by metis+
qed

lemma ins_chain:
  "(chained (leaves t) e \<longrightarrow> chained (leaves (fst (pt_ins full key val n t))) e)
    \<and> first_page (leaves (fst (pt_ins full key val n t))) e = first_page (leaves t) e"
proof (induction full key val n t arbitrary: e rule: pt_ins.induct)
  case (1 full key val n p ks vs nx)
  then show ?case by (simp add: first_page_def split: sum.split)
next
  case (2 full key val n p ks ts)
  obtain ks' ts' i m where st: "pt_step full key n ks ts = (ks', ts', i, m)" by (metis prod_cases4)
  show ?case
  proof (cases "slot ks key < length ts \<and> i < length ts'")
    case False
    then have "pt_ins full key val n (PNode p ks ts) = (PNode p ks ts, n)"
      using st by (simp only: pt_ins.simps(2) prod.case if_False)
    then show ?thesis by simp
  next
    case True
    let ?c = "fst (pt_ins full key val m (ts' ! i))"
    have IH: "chained (leaves (ts' ! i)) e \<Longrightarrow> chained (leaves ?c) e"
      "first_page (leaves ?c) e = first_page (leaves (ts' ! i)) e" for e
      using "2.IH" [OF st [symmetric] refl refl True] by auto
    have "leaves (fst (pt_ins full key val n (PNode p ks ts))) = concat (map leaves (ts'[i := ?c]))"
      using True st by (simp add: pt_ins.simps(2) split: prod.split)
    also have "\<dots> = concat (map leaves (take i ts')) @ leaves ?c @ concat (map leaves (drop (Suc i) ts'))"
      using True by (simp add: upd_conv_take_nth_drop)
    finally have eq: "leaves (fst (pt_ins full key val n (PNode p ks ts)))
      = concat (map leaves (take i ts')) @ leaves ?c @ concat (map leaves (drop (Suc i) ts'))" .
    have "chained (concat (map leaves ts)) e \<longrightarrow>
        chained (concat (map leaves (take i ts')) @ leaves ?c @ concat (map leaves (drop (Suc i) ts'))) e"
      using step_chain(1) [OF st] True leaves_at [of i ts'] chained_replace [OF _ IH] by metis
    moreover have "first_page (concat (map leaves (take i ts')) @ leaves ?c @ concat (map leaves (drop (Suc i) ts'))) e
        = first_page (concat (map leaves ts)) e"
      using step_chain(2) [OF st, of e] True leaves_at [of i ts'] by (simp add: first_page_append IH(2))
    ultimately show ?thesis by (simp add: eq)
  qed
qed

lemma grow_chain: "chain_ok t \<Longrightarrow> chain_ok (pt_grow n t)"
proof -
  assume ok: "chain_ok t"
  obtain l m r where sp: "pt_split (of_nat (Suc n)) (with_tid (of_nat n) t) = (l, m, r)"
    by (metis prod_cases3)
  have "chained (leaves (with_tid (of_nat n) t)) None" using ok by (cases t) (auto simp: chain_ok_def)
  moreover have "pt_grow n t = PNode (tid t) [m] [l, r]" by (simp only: pt_grow_def sp prod.case)
  ultimately show ?thesis using split_leaves(1) [OF sp] by (simp add: chain_ok_def)
qed

lemma insert_chain: "chain_ok t \<Longrightarrow> chain_ok (fst (pt_insert full key val n t))"
  using ins_chain [of _ None] grow_chain [of t n] by (auto simp: pt_insert_def chain_ok_def)

text \<open>The leaves hold the entries in order.\<close>

lemma leaves_entries: "entries t = concat (map (\<lambda>(p, ks, vs, nx). zip ks vs) (leaves t))"
proof (induction t)
  case (PNode p ks ts)
  then have "map entries ts = map (\<lambda>t. concat (map (\<lambda>(p, ks, vs, nx). zip ks vs) (leaves t))) ts" by simp
  moreover have "concat (map (\<lambda>t. concat (map f (leaves t))) us) = concat (map f (concat (map leaves us)))"
    for f :: "leaf \<Rightarrow> (bytes \<times> bytes) list" and us by (induction us) simp_all
  ultimately show ?case by (simp only: entries.simps leaves.simps)
qed simp

lemma leaves_lengths: "okt t lo hi \<Longrightarrow> (p, ks, vs, nx) \<in> set (leaves t) \<Longrightarrow> length vs = length ks"
proof (induction t arbitrary: lo hi)
  case (PNode q qs ts)
  from PNode.prems(2) obtain t where t: "t \<in> set ts" "(p, ks, vs, nx) \<in> set (leaves t)" by auto
  then obtain i where "i < length ts" "t = ts ! i" by (metis in_set_conv_nth)
  with PNode.IH [OF t(1)] okt_child [OF PNode.prems(1)] t(2) show ?case by blast
qed auto

lemma leaves_pages: "l \<in> set (leaves t) \<Longrightarrow> leaf_page l \<in> set (pages_of t)"
  by (induction t) auto

lemma leaves_ne: "okt t lo hi \<Longrightarrow> leaves t \<noteq> []"
proof (induction t arbitrary: lo hi)
  case (PNode q qs ts)
  then have "0 < length ts" by simp
  then have "leaves (ts ! 0) \<noteq> []" "ts ! 0 \<in> set ts"
    using PNode.IH [of "ts ! 0"] okt_child [OF PNode.prems(1)] nth_mem by blast+
  then show ?case by auto
qed simp

lemma subseq_concat_map:
  "(\<And>x. x \<in> set xs \<Longrightarrow> subseq (f x) (g x)) \<Longrightarrow> subseq (concat (map f xs)) (concat (map g xs))"
  by (induction xs) (auto intro: list_emb_append_mono)

lemma subseq_distinct: "subseq xs ys \<Longrightarrow> distinct ys \<Longrightarrow> distinct xs"
  by (induction rule: list_emb.induct) (auto dest: list_emb_set)

lemma leaf_pages_subseq: "subseq (map leaf_page (leaves t)) (pages_of t)"
proof (induction t)
  case (PNode p ks ts)
  then have "subseq (concat (map (\<lambda>t. map leaf_page (leaves t)) ts)) (concat (map pages_of ts))"
    by (rule subseq_concat_map)
  then show ?case by (simp add: map_concat comp_def list_emb_Cons)
qed simp

lemma distinct_leaf_pages: "distinct (pages_of t) \<Longrightarrow> distinct (map leaf_page (leaves t))"
  by (rule subseq_distinct [OF leaf_pages_subseq])

end
