(* ===== verification/Engine_Scan.thy ===== *)
theory Engine_Scan
  imports Engine_Tx Btree_Chain
begin

text \<open>
  Reading a table. When the database file stores a tree whose leaves are chained, a scan is
  one pass over the entries of the memory tier followed by the entries of the tree in key
  order; its rows are the visible entries of the tier and those of the tree that the tier
  does not show.
\<close>

section \<open>Keys of a tree in order\<close>

lemma sorted_wrt_concat:
  assumes "\<And>i. i < length xss \<Longrightarrow> sorted_wrt R (xss ! i)"
    and "\<And>i j x y. i < j \<Longrightarrow> j < length xss \<Longrightarrow> x \<in> set (xss ! i) \<Longrightarrow> y \<in> set (xss ! j) \<Longrightarrow> R x y"
  shows "sorted_wrt R (concat xss)"
  using assms
proof (induction xss)
  case (Cons xs xss)
  have "sorted_wrt R (concat xss)"
    using Cons.prems(1) [of "Suc _"] Cons.prems(2) [of "Suc _" "Suc _"] by (intro Cons.IH) force+
  moreover have "R x y" if "x \<in> set xs" "y \<in> set (concat xss)" for x y
  proof -
    from that(2) obtain ys where "ys \<in> set xss" "y \<in> set ys" by auto
    then obtain j where "j < length xss" "y \<in> set (xss ! j)" by (metis in_set_conv_nth)
    with Cons.prems(2) [of 0 "Suc j" x y] that(1) show ?thesis by simp
  qed
  ultimately show ?case using Cons.prems(1) [of 0] by (auto simp: sorted_wrt_append)
qed simp

lemma entries_sorted: "okt t lo hi \<Longrightarrow> sorted_wrt (<) (map fst (entries t))"
proof (induction t arbitrary: lo hi)
  case (PNode p ks ts)
  let ?xss = "map (\<lambda>t. map fst (entries t)) ts"
  have "sorted_wrt (<) (concat ?xss)"
  proof (rule sorted_wrt_concat)
    fix i assume "i < length ?xss"
    then show "sorted_wrt (<) (?xss ! i)"
      using PNode.IH [OF nth_mem okt_child [OF PNode.prems]] by simp
  next
    fix i j x y
    assume ij: "i < j" "j < length ?xss" and xy: "x \<in> set (?xss ! i)" "y \<in> set (?xss ! j)"
    then obtain v w where "(x, v) \<in> set (entries (ts ! i))" "(y, w) \<in> set (entries (ts ! j))" by auto
    with ij have "below (hi_of ks hi i) x" "from_lo (lo_of lo ks j) y"
      using entries_in_range [OF okt_child [OF PNode.prems], of i] entries_in_range [OF okt_child [OF PNode.prems], of j]
      by auto
    moreover have "i < length ks" "j - 1 < length ks" "sorted_wrt (<) ks"
      using ij PNode.prems by auto
    moreover have "ks ! i \<le> ks ! (j - 1)"
      using calculation(3-5) ij(1) by (cases "i = j - 1") (auto simp: sorted_wrt_nth_less less_imp_le)
    ultimately show "x < y" using ij by (auto simp: hi_of_def lo_of_def intro: less_le_trans)
  qed
  then show ?case by (simp add: map_concat comp_def)
qed simp

lemma entries_distinct: "okt t lo hi \<Longrightarrow> distinct (map fst (entries t))"
  using entries_sorted strict_sorted_iff by blast

section \<open>Walking the leaves\<close>

lemma leaf_held: "holds t f \<Longrightarrow> (p, ks, vs, nx) \<in> set (leaves t) \<Longrightarrow> f p = Some (node_of (PLeaf p ks vs nx))"
  by (induction t) (auto simp: holds_node)

lemma leftmost_sim:
  assumes "binv E s" and "okt t lo hi" and "holds t (node_at E p0 s)"
  shows "leftmost_leaf E (tid t) s = Some (Inr (leaf_page (hd (leaves t))), s)"
  using assms(2,3)
proof (induction t arbitrary: lo hi)
  case (PLeaf p ks vs nx)
  have "load_node E p s = Some (Inr (node_of (PLeaf p ks vs nx)), s)"
    using PLeaf.prems by (intro ns.load_ok [OF assms(1), of p0]) simp
  then show ?case by (subst leftmost_leaf.simps) (simp add: seq_Inr new_leaf_def)
next
  case (PNode p ks ts)
  have ld: "load_node E p s = Some (Inr (node_of (PNode p ks ts)), s)"
    using PNode.prems by (intro ns.load_ok [OF assms(1), of p0]) (simp add: holds_node)
  have ne: "0 < length ts" using PNode.prems by simp
  then obtain u us where ts: "ts = u # us" by (cases ts) auto
  have u: "okt u (lo_of lo ks 0) (hi_of ks hi 0)" using okt_child [OF PNode.prems(1) ne] by (simp add: ts)
  have "leftmost_leaf E (tid (PNode p ks ts)) s = leftmost_leaf E (tid u) s"
    by (subst leftmost_leaf.simps) (simp add: seq_Inr ld, simp add: new_internal_def ts vec_get_def)
  also have "\<dots> = Some (Inr (leaf_page (hd (leaves u))), s)"
    using PNode.prems(2) by (intro PNode.IH [OF _ u]) (simp_all add: ts holds_node)
  finally show ?case using leaves_ne [OF u] by (simp add: ts)
qed

section \<open>A scan as one pass over entries\<close>

fun scan_entries :: "engine_env \<Rightarrow> str \<Rightarrow> u64 \<Rightarrow> (bytes \<times> bytes) list \<Rightarrow> row list \<times> bytes list
    \<Rightarrow> err + row list \<times> bytes list" where
  "scan_entries E tbl ver [] acc = Inr acc"
| "scan_entries E tbl ver ((key, data) # es) (rows, processed) =
     (if key \<in> set processed \<or> \<not> in_table tbl key then scan_entries E tbl ver es (rows, processed)
      else case visible_row E tbl ver key data of
             Inl e \<Rightarrow> Inl e
           | Inr None \<Rightarrow> scan_entries E tbl ver es (rows, processed)
           | Inr (Some row) \<Rightarrow> scan_entries E tbl ver es (rows @ [row], key # processed))"

lemma scan_entries_append: "scan_entries E tbl ver (xs @ ys) acc =
    (case scan_entries E tbl ver xs acc of Inl e \<Rightarrow> Inl e | Inr acc' \<Rightarrow> scan_entries E tbl ver ys acc')"
proof (induction xs arbitrary: acc)
  case (Cons x xs)
  then show ?case by (cases x; cases acc) (auto split: sum.split option.split)
qed simp

lemma scan_leaf_entries:
  "length payload = i + length ks \<Longrightarrow>
   scan_leaf E tbl ver payload i ks acc = scan_entries E tbl ver (zip ks (drop i payload)) acc"
proof (induction ks arbitrary: i acc)
  case (Cons k ks)
  then have "i < length payload" by simp
  moreover from this have "drop i payload = payload ! i # drop (Suc i) payload"
    by (rule Cons_nth_drop_Suc [symmetric])
  ultimately show ?case using Cons.IH [of "Suc i"] Cons.prems
    by (cases acc) (auto simp: vec_get_def split: sum.split option.split)
qed simp

lemma scan_cache_entries:
  "distinct (map fst es) \<Longrightarrow> fst ` set es \<inter> set (snd acc) = {} \<Longrightarrow>
   scan_cache E tbl ver es acc = scan_entries E tbl ver es acc"
proof (induction es arbitrary: acc)
  case (Cons e es)
  then show ?case
    by (cases e; cases acc) (fastforce split: sum.split option.split)
qed simp

lemma scan_leaves_sim:
  assumes "binv (benv E) s" and "ls \<noteq> []" and "chained ls None" and "distinct (map leaf_page ls)"
    and "\<And>p ks vs nx. (p, ks, vs, nx) \<in> set ls \<Longrightarrow> length vs = length ks
      \<and> node_at (benv E) p0 s p = Some (node_of (PLeaf p ks vs nx))"
  shows "scan_leaves E tbl ver (leaf_page (hd ls)) acc s =
    Some (scan_entries E tbl ver (concat (map (\<lambda>(p, ks, vs, nx). zip ks vs) ls)) acc, s)"
  using assms(2-5)
proof (induction ls arbitrary: acc)
  case (Cons l ls)
  obtain p ks vs nx where l: "l = (p, ks, vs, nx)" by (cases l)
  have len: "length vs = length ks" and at: "node_at (benv E) p0 s p = Some (node_of (PLeaf p ks vs nx))"
    using Cons.prems(4) [of p ks vs nx] by (simp_all add: l)
  have ld: "load_node (benv E) p s = Some (Inr (node_of (PLeaf p ks vs nx)), s)"
    by (rule ns.load_ok [OF assms(1) at])
  let ?r = "scan_entries E tbl ver (zip ks vs) acc"
  have sl: "scan_leaf E tbl ver vs 0 ks acc = ?r" using scan_leaf_entries [of vs 0 ks] len by simp
  have run: "scan_leaves E tbl ver p acc s = seq (of_result ?r) (\<lambda>acc.
      (case next_page p (node_of (PLeaf p ks vs nx)) of
        Some nx \<Rightarrow> scan_leaves E tbl ver nx acc | None \<Rightarrow> ret acc)) s"
    by (subst scan_leaves.simps) (simp add: seq_Inr ld, simp add: new_leaf_def sl)
  show ?case
  proof (cases ls)
    case Nil
    then have "nx = None" using Cons.prems(2) by (simp add: l)
    then show ?thesis
      by (cases ?r) (simp_all add: l Nil run next_page_def new_leaf_def)
  next
    case (Cons m ms)
    then have nx: "nx = Some (leaf_page (hd ls))" "leaf_page (hd ls) \<noteq> p"
      using Cons.prems(2,3) by (auto simp: l)
    have "scan_leaves E tbl ver (leaf_page (hd ls)) acc' s =
        Some (scan_entries E tbl ver (concat (map (\<lambda>(p, ks, vs, nx). zip ks vs) ls)) acc', s)" for acc'
      using Cons Cons.prems by (intro Cons.IH) auto
    then show ?thesis
      by (cases ?r) (simp_all add: l run nx next_page_def new_leaf_def scan_entries_append)
  qed
qed simp

section \<open>Stored data\<close>

text \<open>The database file stores the tree, whose leaves are chained.\<close>

definition stored :: "engine_env \<Rightarrow> engine \<Rightarrow> ptree \<Rightarrow> bool" where
  "stored E s t \<longleftrightarrow> (\<exists>p0. tree_rep (benv E) p0 (tree s) t) \<and> chain_ok t \<and> mt_inv (tier s)"

text \<open>The value a reader finds for a key: the tier answers first.\<close>

definition current_data :: "engine \<Rightarrow> ptree \<Rightarrow> bytes \<Rightarrow> bytes option" where
  "current_data s t key = (case mt_lookup (tier s) key of Some v \<Rightarrow> Some v | None \<Rightarrow> map_of (entries t) key)"

lemma tree_rep_tier: "tree_rep B p0 (s\<lparr>memory_tier := m\<rparr>) t = tree_rep B p0 s t"
proof -
  have "node_at B p0 (s\<lparr>memory_tier := m\<rparr>) = node_at B p0 s"
    by (simp add: fun_eq_iff node_at_def recoverable_def)
  then show ?thesis by (simp add: tree_rep_def trees_at_def binv_def)
qed

lemma tier_get_ok:
  assumes "stored E s t"
  obtains s' where "tier_get key s = Some (Inr (mt_lookup (tier s) key), s')" and "stored E s' t"
    and "same_all s s'"
proof -
  let ?s = "s\<lparr>tree := (tree s)\<lparr>memory_tier := snd (mt_get key (tier s))\<rparr>\<rparr>"
  have run: "tier_get key s = Some (Inr (mt_lookup (tier s) key), ?s)"
    by (simp add: tier_get_def split: prod.split) (metis fst_conv mt_get_fst)
  moreover have "stored E ?s t" using assms by (simp add: stored_def tree_rep_tier)
  ultimately show ?thesis using that keepsD [OF keeps_tier_get run] by blast
qed

lemma bt_get_ok:
  assumes "stored E s t"
  obtains s' where "on_tree (bt_get (benv E) key) s = Some (Inr (current_data s t key), s')"
    and "stored E s' t" and "same_all s s'"
proof -
  obtain p0 where p0: "tree_rep (benv E) p0 (tree s) t" using assms by (auto simp: stored_def)
  from get_full_sim [OF p0, of key] obtain b where
    b: "bt_get (benv E) key (tree s) = Some (Inr (current_data s t key), b)"
    "tree_rep (benv E) p0 b t" "memory_tier b = snd (mt_get key (tier s))"
    by (auto simp: current_data_def)
  have run: "on_tree (bt_get (benv E) key) s = Some (Inr (current_data s t key), s\<lparr>tree := b\<rparr>)"
    by (simp add: zoom_def b(1))
  moreover have "stored E (s\<lparr>tree := b\<rparr>) t" using assms b by (auto simp: stored_def)
  ultimately show ?thesis
    using that keepsD [OF keeps_on_tree [OF keeps_bt_get] run] by blast
qed

lemma same_all_data: "same_all s s' \<Longrightarrow> current_data s' t = current_data s t"
  by (simp add: fun_eq_iff current_data_def same_all_lookup)

lemma cached_or_stored_ok:
  assumes "stored E s t"
  obtains s' where "cached_or_stored E key s = Some (Inr (current_data s t key), s')"
    and "stored E s' t" and "same_all s s'"
proof -
  obtain s1 where s1: "tier_get key s = Some (Inr (mt_lookup (tier s) key), s1)" "stored E s1 t" "same_all s s1"
    by (rule tier_get_ok [OF assms])
  obtain s2 where s2: "on_tree (bt_get (benv E) key) s1 = Some (Inr (current_data s t key), s2)"
    "stored E s2 t" "same_all s1 s2"
    using bt_get_ok [OF s1(2), of key] same_all_data [OF s1(3)] by metis
  have "cached_or_stored E key s = Some (Inr (current_data s t key), s2)"
    by (simp add: cached_or_stored_def seq_Inr s1(1) seq_Inr s2(1) current_data_def
        split: option.split)
  with that s1(3) s2(2,3) al.trans show ?thesis by blast
qed

lemma cached_else_stored_ok:
  assumes "stored E s t"
  obtains s' where "cached_else_stored E key s = Some (Inr (current_data s t key), s')"
    and "stored E s' t" and "same_all s s'"
proof -
  obtain s1 where s1: "tier_get key s = Some (Inr (mt_lookup (tier s) key), s1)" "stored E s1 t" "same_all s s1"
    by (rule tier_get_ok [OF assms])
  show ?thesis
  proof (cases "mt_lookup (tier s) key")
    case (Some v)
    with that s1 show ?thesis by (simp add: cached_else_stored_def seq_Inr s1(1) current_data_def)
  next
    case None
    obtain s2 where s2: "on_tree (bt_get (benv E) key) s1 = Some (Inr (current_data s t key), s2)"
      "stored E s2 t" "same_all s1 s2"
      using bt_get_ok [OF s1(2), of key] same_all_data [OF s1(3)] by metis
    moreover have "same_all s s2" using s1(3) s2(3) by (rule al.trans)
    ultimately show ?thesis
      using that None by (simp add: cached_else_stored_def seq_Inr s1(1))
  qed
qed

section \<open>The scan\<close>

text \<open>The scan of a table when no index row answers.\<close>

definition full_scan :: "engine_env \<Rightarrow> str \<Rightarrow> u64 \<Rightarrow> (bytes \<times> bytes) list \<Rightarrow> err + row list" where
  "full_scan E tbl ver es = map_sum id fst (scan_entries E tbl ver es ([], []))"

lemma scan_sim:
  assumes "stored E s t" and "index_lookup E tbl ver cond s = Some (Inr None, s1)" and "stored E s1 t"
  obtains s' where "scan_table_with_filter E tbl ver cond s
      = Some (full_scan E tbl ver (cache (tier s) @ entries t), s')"
    and "stored E s' t" and "same_all s s'"
proof -
  obtain p0 where p0: "tree_rep (benv E) p0 (tree s1) t" using assms(3) by (auto simp: stored_def)
  then have inv: "binv (benv E) (tree s1)" "okt t None None" "holds t (node_at (benv E) p0 (tree s1))"
    "tid t = root_page_id (tree s1)" "distinct (pages_of t)"
    by (auto simp: tree_rep_def trees_at_def)
  have al: "same_all s s1" using keepsD [OF keeps_index_lookup assms(2)] .
  then have c: "cache (tier s1) = cache (tier s)" by (simp add: same_all_def same_db_def same_store_def)
  let ?a = "scan_entries E tbl ver (cache (tier s)) ([], [])"
  have ca: "scan_cache E tbl ver (cache (tier s)) ([], []) = ?a"
    using assms(1) by (intro scan_cache_entries) (auto simp: stored_def mt_inv_def)
  have lm: "on_tree (leftmost_leaf (benv E) (root_page_id (tree s1))) s1
      = Some (Inr (leaf_page (hd (leaves t))), s1)"
    using leftmost_sim [OF inv(1-3)] inv(4) by (simp add: zoom_def)
  have "distinct (map leaf_page (leaves t))"
    using leaf_pages_subseq inv(5) by (rule subseq_distinct)
  then have "scan_leaves E tbl ver (leaf_page (hd (leaves t))) acc (tree s1)
      = Some (scan_entries E tbl ver (entries t) acc, tree s1)" for acc
    using scan_leaves_sim [OF inv(1) leaves_ne [OF inv(2)], where ?p0.0 = p0]
      leaves_lengths [OF inv(2)] leaf_held [OF inv(3)] assms(1)
    by (auto simp: stored_def chain_ok_def leaves_entries)
  then have ls: "on_tree (scan_leaves E tbl ver (leaf_page (hd (leaves t))) acc) s1
      = Some (scan_entries E tbl ver (entries t) acc, s1)" for acc
    by (simp add: zoom_def)
  have "scan_table_with_filter E tbl ver cond s = Some (full_scan E tbl ver (cache (tier s) @ entries t), s1)"
  proof (cases ?a)
    case (Inl e)
    then show ?thesis
      by (simp add: scan_table_with_filter_def seq_Inr assms(2) c ca full_scan_def scan_entries_append)
  next
    case (Inr acc)
    let ?b = "scan_entries E tbl ver (entries t) acc"
    have "seq (on_tree (scan_leaves E tbl ver (leaf_page (hd (leaves t))) acc)) (\<lambda>(rows, processed). ret rows) s1
        = Some (map_sum id fst ?b, s1)"
      by (cases ?b) (auto simp: seq_def ls)
    then show ?thesis
      by (simp add: scan_table_with_filter_def seq_Inr assms(2) c ca Inr seq_Inr lm
          full_scan_def scan_entries_append)
  qed
  with that assms(3) al show ?thesis by blast
qed

lemma index_lookup_none:
  "index_probe E cond = None \<Longrightarrow> index_lookup E tbl ver cond s = Some (Inr None, s)"
  by (simp add: index_lookup_def)

text \<open>No index entry answers: the condition compares no value, or the value has no entry.\<close>

definition unindexed :: "engine_env \<Rightarrow> engine \<Rightarrow> ptree \<Rightarrow> str \<Rightarrow> expr option \<Rightarrow> bool" where
  "unindexed E s t tbl cond \<longleftrightarrow> (\<forall>col val. index_probe E cond = Some (col, val) \<longrightarrow>
     current_data s t (index_key tbl col val) = None)"

lemma unindexed_none: "index_probe E cond = None \<Longrightarrow> unindexed E s t tbl cond"
  by (simp add: unindexed_def)

lemma index_lookup_unindexed:
  assumes "stored E s t" and "unindexed E s t tbl cond"
  obtains s' where "index_lookup E tbl ver cond s = Some (Inr None, s')" and "stored E s' t"
proof (cases "index_probe E cond")
  case None
  then show ?thesis using that [OF index_lookup_none assms(1)] by blast
next
  case (Some p)
  obtain col val where p: "index_probe E cond = Some (col, val)" using Some by (cases p) auto
  obtain s1 where s1: "cached_or_stored E (index_key tbl col val) s = Some (Inr None, s1)" "stored E s1 t"
    using cached_or_stored_ok [OF assms(1), of "index_key tbl col val"] assms(2) p
    unfolding unindexed_def by metis
  show ?thesis by (rule that [OF _ s1(2)]) (simp add: index_lookup_def p seq_Inr s1(1))
qed

lemma scan_unindexed:
  assumes "stored E s t" and "unindexed E s t tbl cond"
  obtains s' where "scan_table_with_filter E tbl ver cond s
      = Some (full_scan E tbl ver (cache (tier s) @ entries t), s')"
    and "stored E s' t" and "same_all s s'"
proof -
  obtain s1 where "index_lookup E tbl ver cond s = Some (Inr None, s1)" "stored E s1 t"
    by (rule index_lookup_unindexed [OF assms])
  from scan_sim [OF assms(1) this] that show ?thesis by blast
qed

lemma scan_table_sim:
  assumes "stored E s t"
  obtains s' where "scan_table E tbl ver s = Some (full_scan E tbl ver (cache (tier s) @ entries t), s')"
    and "stored E s' t" and "same_all s s'"
proof -
  have "index_lookup E tbl ver None s = Some (Inr None, s)"
    by (rule index_lookup_none) (simp add: index_probe_def)
  from scan_sim [OF assms this assms] that show ?thesis unfolding scan_table_def by blast
qed

end
