(* ===== verification/Engine_Rows.thy ===== *)
theory Engine_Rows
  imports Engine_Scan
begin

text \<open>
  What a scan returns: the rows of the visible records, each key once, or an error when a
  record it meets cannot be decoded; and what follows for SELECT, UPDATE and DELETE.
\<close>

section \<open>Rows of entries\<close>

definition row_of :: "engine_env \<Rightarrow> str \<Rightarrow> u64 \<Rightarrow> bytes \<times> bytes \<Rightarrow> row option" where
  "row_of E tbl ver kv = (if in_table tbl (fst kv)
     then (case visible_row E tbl ver (fst kv) (snd kv) of Inr r \<Rightarrow> r | Inl _ \<Rightarrow> None) else None)"

definition readable :: "engine_env \<Rightarrow> str \<Rightarrow> u64 \<Rightarrow> bytes \<times> bytes \<Rightarrow> bool" where
  "readable E tbl ver kv \<longleftrightarrow>
     (in_table tbl (fst kv) \<longrightarrow> (\<exists>r. visible_row E tbl ver (fst kv) (snd kv) = Inr r))"

abbreviation rows_of :: "engine_env \<Rightarrow> str \<Rightarrow> u64 \<Rightarrow> (bytes \<times> bytes) list \<Rightarrow> row list" where
  "rows_of E tbl ver \<equiv> List.map_filter (row_of E tbl ver)"

definition shown :: "engine_env \<Rightarrow> str \<Rightarrow> u64 \<Rightarrow> (bytes \<times> bytes) list \<Rightarrow> bytes set" where
  "shown E tbl ver es = fst ` {kv \<in> set es. row_of E tbl ver kv \<noteq> None}"

lemma visible_row_error: "visible_row E tbl ver k d = Inl e \<Longrightarrow> e = Bincode_error"
  by (auto simp: visible_row_def split: option.splits if_splits)

lemma map_filter_Cons: "List.map_filter f (x # xs) = (case f x of Some y \<Rightarrow> [y] | None \<Rightarrow> []) @ List.map_filter f xs"
  by (simp add: List.map_filter_simps split: option.split)

lemma map_filter_append: "List.map_filter f (xs @ ys) = List.map_filter f xs @ List.map_filter f ys"
  by (induction xs) (auto simp: map_filter_Cons List.map_filter_simps split: option.split)

lemma scan_entries_eq:
  "distinct (map fst es) \<Longrightarrow> scan_entries E tbl ver es (rows, processed) =
    (if \<forall>kv \<in> set es. fst kv \<in> set processed \<or> readable E tbl ver kv
     then Inr (rows @ rows_of E tbl ver (filter (\<lambda>kv. fst kv \<notin> set processed) es),
       rev (map fst (filter (\<lambda>kv. fst kv \<notin> set processed \<and> row_of E tbl ver kv \<noteq> None) es)) @ processed)
     else Inl Bincode_error)"
proof (induction es arbitrary: rows processed)
  case (Cons kv es)
  obtain k d where kv: "kv = (k, d)" by (cases kv)
  have fresh: "k \<notin> fst ` set es" and dist: "distinct (map fst es)" using Cons.prems kv by auto
  note IH = Cons.IH [OF dist]
  show ?case
  proof (cases "k \<in> set processed \<or> \<not> in_table tbl k")
    case True
    then have "k \<notin> set processed \<Longrightarrow> row_of E tbl ver (k, d) = None"
      "k \<notin> set processed \<Longrightarrow> readable E tbl ver (k, d)"
      by (auto simp: row_of_def readable_def)
    with True show ?thesis
      by (cases "k \<in> set processed") (simp_all add: kv IH map_filter_Cons)
  next
    case False
    show ?thesis
    proof (cases "visible_row E tbl ver k d")
      case (Inl e)
      with False visible_row_error [OF Inl] show ?thesis by (auto simp: kv readable_def)
    next
      case (Inr r)
      have ro: "row_of E tbl ver (k, d) = r" "readable E tbl ver (k, d)"
        using False Inr by (simp_all add: row_of_def readable_def)
      show ?thesis
      proof (cases r)
        case None
        with False Inr ro show ?thesis by (simp add: kv IH map_filter_Cons)
      next
        case (Some row)
        have f: "filter (\<lambda>kv. fst kv \<noteq> k \<and> P kv) es = filter P es" for P
          using fresh by (intro filter_cong) auto
        have b: "(\<forall>kv \<in> set es. fst kv = k \<or> fst kv \<in> set processed \<or> readable E tbl ver kv)
            \<longleftrightarrow> (\<forall>kv \<in> set es. fst kv \<in> set processed \<or> readable E tbl ver kv)"
          using fresh by force
        from False Inr ro Some show ?thesis
          by (simp add: kv IH map_filter_Cons f b)
      qed
    qed
  qed
qed (simp add: List.map_filter_simps)

text \<open>The rows of a table: those of the tier, then those of the tree that the tier does not show.\<close>

definition table_rows :: "engine_env \<Rightarrow> str \<Rightarrow> u64 \<Rightarrow> (bytes \<times> bytes) list \<Rightarrow> (bytes \<times> bytes) list \<Rightarrow> row list" where
  "table_rows E tbl ver cached stored_entries = rows_of E tbl ver cached
     @ rows_of E tbl ver (filter (\<lambda>kv. fst kv \<notin> shown E tbl ver cached) stored_entries)"

definition table_readable :: "engine_env \<Rightarrow> str \<Rightarrow> u64 \<Rightarrow> (bytes \<times> bytes) list \<Rightarrow> (bytes \<times> bytes) list \<Rightarrow> bool" where
  "table_readable E tbl ver cached stored_entries \<longleftrightarrow> (\<forall>kv \<in> set cached. readable E tbl ver kv)
     \<and> (\<forall>kv \<in> set stored_entries. fst kv \<in> shown E tbl ver cached \<or> readable E tbl ver kv)"

lemma full_scan_eq:
  assumes "distinct (map fst es)" and "distinct (map fst fs)"
  shows "full_scan E tbl ver (es @ fs) =
    (if table_readable E tbl ver es fs then Inr (table_rows E tbl ver es fs) else Inl Bincode_error)"
proof (cases "\<forall>kv \<in> set es. readable E tbl ver kv")
  case True
  have "set (rev (map fst (filter (\<lambda>kv. row_of E tbl ver kv \<noteq> None) es))) = shown E tbl ver es"
    by (auto simp: shown_def)
  with True show ?thesis
    by (simp add: full_scan_def scan_entries_append scan_entries_eq [OF assms(1)]
        scan_entries_eq [OF assms(2)] table_readable_def table_rows_def)
next
  case False
  then show ?thesis
    by (auto simp: full_scan_def scan_entries_append scan_entries_eq [OF assms(1)] table_readable_def)
qed

abbreviation cached_entries :: "engine \<Rightarrow> (bytes \<times> bytes) list" where
  "cached_entries s \<equiv> cache (tier s)"

lemma stored_distinct:
  assumes "stored E s t"
  shows "distinct (map fst (cached_entries s))" and "distinct (map fst (entries t))"
  using assms entries_distinct [of t None None] by (auto simp: stored_def mt_inv_def tree_rep_def)

lemma table_scan_sim:
  assumes "stored E s t" and "table_readable E tbl ver (cached_entries s) (entries t)"
  obtains s' where "scan_table E tbl ver s
      = Some (Inr (table_rows E tbl ver (cached_entries s) (entries t)), s')"
    and "stored E s' t" and "same_all s s'"
  using scan_table_sim [OF assms(1), of tbl ver] assms(2) that
  by (auto simp: full_scan_eq [OF stored_distinct [OF assms(1)]])

text \<open>
  C19 (engine, scan): on a stored database a table scan returns. Its result is the list of the
  rows of the visible records of the table: those of the memory tier, then in key order those
  of the tree whose key the tier does not show; if a record that it meets cannot be decoded
  it is an error instead. The scan changes no data.
\<close>

theorem scan_table_spec:
  assumes "stored E s t"
  shows "\<exists>s'. scan_table E tbl ver s = Some
      (if table_readable E tbl ver (cached_entries s) (entries t)
       then Inr (table_rows E tbl ver (cached_entries s) (entries t)) else Inl Bincode_error, s')
    \<and> stored E s' t \<and> same_all s s'"
proof -
  obtain s' where "scan_table E tbl ver s = Some (full_scan E tbl ver (cached_entries s @ entries t), s')"
    and "stored E s' t" and "same_all s s'"
    by (rule scan_table_sim [OF assms])
  then show ?thesis unfolding full_scan_eq [OF stored_distinct [OF assms]] by blast
qed

end
