(* ===== verification/Engine_Store.thy ===== *)
theory Engine_Store
  imports Engine_Rows
begin

text \<open>
  Writing to a stored database: a record put into the memory tier and on the log's queue, a
  flush, the loops over rows and the commit of a transaction. On a stored database with room
  in tier and queue they succeed and keep it stored.
\<close>

section \<open>The queue of the log and the stored tree\<close>

lemma update_same: "map_of xs k = Some v \<Longrightarrow> AList.update k v xs = xs"
  by (induction xs) (auto split: if_splits)

lemma update_in: "set (AList.update k v xs) \<subseteq> insert (k, v) (set xs)"
  by (induction xs) auto

lemma logged_app: "logged (xs @ ys) = logged xs ++ logged ys"
  by (simp add: logged_def page_updates_def)

lemma tree_rep_records:
  assumes rep: "tree_rep B p0 s t" and s': "bt_pager s' = bt_pager s" "root_page_id s' = root_page_id s"
    "queue (bt_wal s') = queue (bt_wal s) @ es" and es: "page_updates es = []"
    and rm: "length es \<le> room s"
  shows "tree_rep B p0 s' t"
proof -
  have "logged es = Map.empty" using es by (simp add: logged_def)
  then have "logged (queue (bt_wal s')) = logged (queue (bt_wal s))" by (simp add: s' logged_app)
  then have "recoverable B p0 s' = recoverable B p0 s"
    by (simp add: fun_eq_iff recoverable_def)
  then have n: "node_at B p0 s' = node_at B p0 s" by (simp add: fun_eq_iff node_at_def s')
  have "PageUpdate p d \<notin> set es" for p d
  proof
    assume "PageUpdate p d \<in> set es"
    then have "(p, d) \<in> set (page_updates es)" by (force simp: page_updates_def)
    with es show False by simp
  qed
  with rep rm show ?thesis
    by (auto simp: tree_rep_def trees_at_def binv_def s' n whole_pages_def room_def)
qed

lemma tree_rep_suffix:
  assumes rep: "tree_rep B p0 s t" and s': "bt_pager s' = bt_pager s" "root_page_id s' = root_page_id s"
    "queue (bt_wal s) = es @ queue (bt_wal s')"
  shows "tree_rep B (bt_pager s) s' t"
proof -
  have at: "node_at B (bt_pager s) s' p = node_at B p0 s p" if "p \<in> set (pages_of t)" for p
  proof -
    have h: "holds t (node_at B p0 s)" and lt: "unat p < pages s"
      using rep that by (auto simp: tree_rep_def trees_at_def)
    from holds_page [OF h that] obtain n where n: "node_at B p0 s p = Some n" by auto
    then have pg: "page_node B (page_of (disk (bt_pager s)) p) = Some n" "recoverable B p0 s p = Some n"
      by (auto dest: node_at_page)
    have "recoverable B (bt_pager s) s' p = Some n"
    proof (cases "logged (queue (bt_wal s')) p")
      case None
      with pg lt show ?thesis by (simp add: recoverable_def)
    next
      case (Some d)
      then have "logged (queue (bt_wal s)) p = Some d" by (simp add: s'(3) logged_app)
      with pg Some show ?thesis by (simp add: recoverable_def)
    qed
    with pg n show ?thesis by (simp add: node_at_def s')
  qed
  have "holds t (node_at B p0 s)" using rep by (simp add: tree_rep_def trees_at_def)
  then have "holds t (node_at B (bt_pager s) s')" using at by (rule holds_cong)
  with rep show ?thesis
    by (auto simp: tree_rep_def trees_at_def binv_def s' whole_pages_def)
qed

lemma flush_suffix:
  obtains w' p where "flush_pipeline W w = Some (Inr (), w')" and "queue w = p @ queue w'"
proof -
  let ?q = "\<lambda>lim. fill_buffer W lim (active_buffer w) (queue w)"
  have *: "\<exists>p. queue w = p @ snd (?q lim)" for lim
    using fill_buffer_spec [of "queue w" W lim "active_buffer w"] by blast
  show ?thesis
  proof (cases "queue w = []")
    case True
    with that [of w "[]"] show ?thesis by (simp add: flush_pipeline_def)
  next
    case False
    let ?lim = "if 1000000 < length (queue w) then batch_limit w * 4 else batch_limit w"
    let ?r = "?q ?lim"
    let ?w = "(set_active (fst ?r) w)\<lparr>queue := snd ?r\<rparr>"
    let ?w' = "if fst ?r = [] then ?w else (set_active [] ?w)\<lparr>active_is_a := \<not> active_is_a ?w,
      requests := requests ?w @ [fst ?r]\<rparr>"
    have "flush_pipeline W w = Some (Inr (), ?w')"
      using False by (simp add: flush_pipeline_def Let_def case_prod_beta)
    moreover have "queue ?w' = snd ?r" by (simp add: set_active_def)
    ultimately show ?thesis using that * [of ?lim] by metis
  qed
qed

section \<open>Records put into tier and queue\<close>

definition same_meta :: "engine \<Rightarrow> engine \<Rightarrow> bool" where
  "same_meta s s' \<longleftrightarrow> schemas s' = schemas s \<and> indices s' = indices s
     \<and> current_version s' = current_version s \<and> active_transactions s' = active_transactions s"

interpretation me: frame_rel same_meta
  by unfold_locales (auto simp: same_meta_def)

lemma same_all_meta: "same_all s s' \<Longrightarrow> same_meta s s'"
  by (simp add: same_all_def same_db_def same_meta_def)

abbreviation log_queue :: "engine \<Rightarrow> wal_entry list" where
  "log_queue s \<equiv> queue (bt_wal (tree s))"

abbreviation log_room :: "engine \<Rightarrow> nat" where
  "log_room s \<equiv> room (tree s)"

lemma same_all_queue: "same_all s s' \<Longrightarrow> log_queue s' = log_queue s"
  by (simp add: same_all_def same_db_def same_store_def)

lemma same_all_cache: "same_all s s' \<Longrightarrow> cached_entries s' = cached_entries s"
  by (simp add: same_all_def same_db_def same_store_def)

lemma same_all_room: "same_all s s' \<Longrightarrow> room_for n (tier s') = room_for n (tier s)"
  by (simp add: same_all_def same_db_def same_store_def room_for_def mt_max_bytes_def)

text \<open>
  What a writing step uses up at most: \<open>n\<close> entries of the tier and of the queue, and four
  readings of clock or random numbers for each.
\<close>

definition spent :: "nat \<Rightarrow> engine \<Rightarrow> engine \<Rightarrow> bool" where
  "spent n s s' \<longleftrightarrow> ticks s \<le> ticks s' \<and> ticks s' \<le> ticks s + 4 * n \<and> log_room s \<le> log_room s' + n
     \<and> length (cached_entries s') \<le> length (cached_entries s) + n \<and> max_ram_mb (tier s') = max_ram_mb (tier s)"

lemma spent_refl [simp]: "spent 0 s s"
  by (simp add: spent_def)

lemma spent_trans: "spent a s s1 \<Longrightarrow> spent b s1 s2 \<Longrightarrow> spent (a + b) s s2"
  by (auto simp: spent_def)

lemma same_all_spent: "same_all s s' \<Longrightarrow> spent 0 s s'"
  by (simp add: spent_def same_all_def same_db_def same_store_def room_def)

lemma length_mt_insert:
  "length (cache (mt_insert now k v m)) \<le> Suc (length (cache m))" "max_ram_mb (mt_insert now k v m) = max_ram_mb m"
proof -
  have "length (cache (mt_make_room m)) \<le> length (cache m)"
    by (auto simp: mt_make_room_def evict_lru_eq cache_drop_all)
  moreover have "length (AList.update k v xs) \<le> Suc (length xs)" for xs :: "(bytes \<times> bytes) list"
    by (simp add: length_update)
  ultimately show "length (cache (mt_insert now k v m)) \<le> Suc (length (cache m))"
    using order_trans by (fastforce simp: mt_insert_eq Let_def)
  show "max_ram_mb (mt_insert now k v m) = max_ram_mb m"
    by (simp add: mt_insert_def Let_def)
qed

lemma put_spent:
  assumes "ticks s' = Suc (ticks s)" and "tier s' = mt_insert now k v (tier s)" and "log_queue s' = log_queue s @ [e]"
  shows "spent 1 s s'"
  using assms length_mt_insert [of now k v "tier s"] by (simp add: spent_def room_def)

lemma stored_room: "stored E s t \<Longrightarrow> length (log_queue s) \<le> QUEUE_CAP"
  by (auto simp: stored_def tree_rep_def binv_def)

lemma stored_tree: "stored E s t \<Longrightarrow> tree s' = tree s \<Longrightarrow> stored E s' t"
  by (simp add: stored_def)

lemma stored_tier:
  assumes "stored E s t" and "mt_inv m" and "tree s' = (tree s)\<lparr>memory_tier := m\<rparr>"
  shows "stored E s' t"
  using assms by (simp add: stored_def tree_rep_tier)

definition queued :: "wal_entry list \<Rightarrow> engine \<Rightarrow> engine" where
  "queued es s = s\<lparr>tree := (tree s)\<lparr>bt_wal := (bt_wal (tree s))\<lparr>queue := log_queue s @ es\<rparr>\<rparr>\<rparr>"

lemma queued_simps [simp]:
  "tier (queued es s) = tier s" "ticks (queued es s) = ticks s" "log_queue (queued es s) = log_queue s @ es"
  "same_meta s (queued es s)" "same_meta s' (queued es s) = same_meta s' s"
  "schemas (queued es s) = schemas s" "indices (queued es s) = indices s"
  "current_version (queued es s) = current_version s"
  "active_transactions (queued es s) = active_transactions s"
  by (simp_all add: queued_def same_meta_def)

lemma enqueue_ok:
  assumes "stored E s t" and "0 < log_room s"
  shows "enqueue E k d s = Some (Inr (), queued [RecordUpdate k d] s)"
    and "stored E (queued [RecordUpdate k d] s) t"
proof -
  show "enqueue E k d s = Some (Inr (), queued [RecordUpdate k d] s)"
    using assms(2) by (simp add: enqueue_def zoom_def wal_enqueue_room room_def queued_def)
  obtain p0 where "tree_rep (benv E) p0 (tree s) t" using assms(1) by (auto simp: stored_def)
  then have "tree_rep (benv E) p0 (tree (queued [RecordUpdate k d] s)) t"
    by (rule tree_rep_records [where es = "[RecordUpdate k d]"])
      (use assms(2) in \<open>simp_all add: page_updates_def queued_def\<close>)
  with assms(1) show "stored E (queued [RecordUpdate k d] s) t" by (auto simp: stored_def)
qed

lemma put_ok:
  assumes "stored E s t" and "0 < log_room s"
  obtains s' where "seq (tier_insert E k v) (\<lambda>_. enqueue E k v) s = Some (Inr (), s')"
    and "stored E s' t" and "same_meta s s'" and "ticks s' = Suc (ticks s)"
    and "tier s' = mt_insert (clock_nanos E (ticks s)) k v (tier s)"
    and "log_queue s' = log_queue s @ [RecordUpdate k v]"
proof -
  let ?m = "mt_insert (clock_nanos E (ticks s)) k v (tier s)"
  let ?s = "(ticks_update Suc s)\<lparr>tree := (tree s)\<lparr>memory_tier := ?m\<rparr>\<rparr>"
  have st: "stored E ?s t"
    using assms(1) by (intro stored_tier [OF assms(1), of ?m]) (auto simp: stored_def)
  moreover have "0 < log_room ?s" using assms(2) by (simp add: room_def)
  ultimately have "enqueue E k v ?s = Some (Inr (), queued [RecordUpdate k v] ?s)"
    "stored E (queued [RecordUpdate k v] ?s) t"
    by (rule enqueue_ok)+
  moreover have "tier_insert E k v s = Some (Inr (), ?s)" by (simp add: tier_insert_def)
  ultimately show ?thesis
    by (intro that [of "queued [RecordUpdate k v] ?s"]) (simp_all add: seq_Inr same_meta_def)
qed

lemma flush_ok:
  assumes "stored E s t"
  obtains s' where "flush E s = Some (Inr (), s')" and "stored E s' t" and "same_but_log s s'"
    and "suffix (log_queue s') (log_queue s)"
proof -
  obtain w' p where w: "flush_pipeline (wenv (benv E)) (bt_wal (tree s)) = Some (Inr (), w')"
    "log_queue s = p @ queue w'" by (rule flush_suffix)
  let ?s = "s\<lparr>tree := (tree s)\<lparr>bt_wal := w'\<rparr>\<rparr>"
  have run: "flush E s = Some (Inr (), ?s)" by (simp add: flush_def zoom_def w(1))
  obtain p0 where "tree_rep (benv E) p0 (tree s) t" using assms by (auto simp: stored_def)
  then have "tree_rep (benv E) (bt_pager (tree s)) (tree ?s) t"
    by (rule tree_rep_suffix [where es = p]) (use w in simp_all)
  with assms have "stored E ?s t" by (auto simp: stored_def)
  with that run w(2) show ?thesis by (auto simp: same_but_log_def suffix_def)
qed

lemma flush_spent: "same_but_log s s' \<Longrightarrow> suffix (log_queue s') (log_queue s) \<Longrightarrow> spent 0 s s'"
  using suffix_length_le by (fastforce simp: spent_def same_but_log_def room_def)

lemma same_but_log_meta: "same_but_log s s' \<Longrightarrow> same_meta s s' \<and> tier s' = tier s \<and> ticks s' = ticks s"
  by (auto simp: same_but_log_def same_meta_def)

section \<open>A commit succeeds\<close>

lemma occ_check_ok:
  assumes "stored E s t" and "\<And>d. current_data s t k = Some d \<Longrightarrow> \<exists>r. de_record E d = Some r \<and> version r \<le> snap"
  obtains s' where "occ_check E snap k s = Some (Inr (), s')" and "stored E s' t" and "same_all s s'"
proof -
  obtain s1 where s1: "cached_else_stored E k s = Some (Inr (current_data s t k), s1)" "stored E s1 t" "same_all s s1"
    by (rule cached_else_stored_ok [OF assms(1)])
  show ?thesis
  proof (cases "current_data s t k")
    case None
    with s1 show ?thesis by (intro that [of s1]) (simp_all add: occ_check_def seq_Inr)
  next
    case (Some d)
    with assms(2) obtain r where r: "de_record E d = Some r" "version r \<le> snap" by blast
    then have nl: "\<not> snap < version r" by simp
    have "occ_check E snap k s = Some (Inr (), s1)"
      using s1(1) Some r(1) nl by (simp add: occ_check_def seq_Inr)
    with that s1 show ?thesis by blast
  qed
qed

lemma occ_checks_ok:
  assumes "stored E s t" and "\<And>k d. k \<in> set ks \<Longrightarrow> current_data s t k = Some d \<Longrightarrow>
    \<exists>r. de_record E d = Some r \<and> version r \<le> snap"
  shows "\<exists>s'. for_each ks (occ_check E snap) s = Some (Inr (), s') \<and> stored E s' t \<and> same_all s s'"
  using assms
proof (induction ks arbitrary: s)
  case (Cons k ks)
  obtain s1 where s1: "occ_check E snap k s = Some (Inr (), s1)" "stored E s1 t" "same_all s s1"
    using occ_check_ok [OF Cons.prems(1), of k snap] Cons.prems(2) by (metis list.set_intros(1))
  have "\<exists>s'. for_each ks (occ_check E snap) s1 = Some (Inr (), s') \<and> stored E s' t \<and> same_all s1 s'"
    using Cons.prems(2) by (intro Cons.IH [OF s1(2)]) (auto simp: same_all_data [OF s1(3)])
  with s1 show ?case by (auto simp: seq_Inr intro: al.trans)
qed (simp add: al.refl)

lemma installs_ok:
  assumes "stored E s t" and "length ups \<le> log_room s"
    and "\<And>k v. (k, v) \<in> set ups \<Longrightarrow> \<exists>r b. de_record E v = Some r \<and> ser_record E (r\<lparr>version := ver\<rparr>) = Some b"
  shows "\<exists>s'. for_each ups (install E ver) s = Some (Inr (), s') \<and> stored E s' t"
  using assms
proof (induction ups arbitrary: s)
  case (Cons kv ups)
  obtain k v where kv: "kv = (k, v)" by (cases kv)
  obtain r b where rb: "de_record E v = Some r" "ser_record E (r\<lparr>version := ver\<rparr>) = Some b"
    using Cons.prems(3) [of k v] kv by auto
  have "0 < log_room s" using Cons.prems(2) by simp
  then obtain s1 where s1: "seq (tier_insert E k b) (\<lambda>_. enqueue E k b) s = Some (Inr (), s1)" "stored E s1 t"
    "log_queue s1 = log_queue s @ [RecordUpdate k b]"
    using put_ok [OF Cons.prems(1)] by blast
  have "install E ver kv s = Some (Inr (), s1)" using rb s1(1) by (simp add: install_def kv)
  moreover have "\<exists>s'. for_each ups (install E ver) s1 = Some (Inr (), s') \<and> stored E s' t"
    using Cons.prems(2,3) s1(3) by (intro Cons.IH [OF s1(2)]) (auto simp: room_def)
  ultimately show ?case by (simp add: seq_Inr)
qed simp

lemma commit_ok:
  assumes "stored E s t" and "tx_of c s = Some tx" and "length (updates tx) \<le> log_room s"
    and "\<And>k d. k \<in> fst ` set (updates tx) \<Longrightarrow> current_data s t k = Some d \<Longrightarrow>
      \<exists>r. de_record E d = Some r \<and> version r \<le> snapshot_version tx"
    and "\<And>k v. (k, v) \<in> set (updates tx) \<Longrightarrow> \<exists>r b. de_record E v = Some r
      \<and> ser_record E (r\<lparr>version := current_version s + 1\<rparr>) = Some b"
  shows "\<exists>s'. commit_tx E c s = Some (Inr ''Transaction committed'', s') \<and> stored E s' t"
proof -
  let ?s0 = "s\<lparr>active_transactions := AList.delete c (active_transactions s)\<rparr>"
  have s0: "stored E ?s0 t" by (rule stored_tree [OF assms(1)]) simp
  have "current_data ?s0 t = current_data s t" by (simp add: fun_eq_iff current_data_def)
  then obtain s1 where s1: "for_each (map fst (updates tx)) (occ_check E (snapshot_version tx)) ?s0 = Some (Inr (), s1)"
    "stored E s1 t" "same_all ?s0 s1"
    using occ_checks_ok [OF s0, of "map fst (updates tx)" "snapshot_version tx"] assms(4) by auto
  let ?s1 = "s1\<lparr>current_version := current_version s + 1\<rparr>"
  have cv: "current_version s1 = current_version s" using s1(3) by (simp add: same_all_def same_db_def)
  have "stored E ?s1 t" by (rule stored_tree [OF s1(2)]) simp
  moreover have "length (updates tx) \<le> log_room ?s1"
    using assms(3) same_all_queue [OF s1(3)] by (simp add: room_def)
  ultimately obtain s2 where s2: "for_each (updates tx) (install E (current_version s + 1)) ?s1 = Some (Inr (), s2)"
    "stored E s2 t"
    using installs_ok [of E ?s1 t "updates tx" "current_version s + 1"] assms(5) by metis
  obtain s3 where s3: "flush E s2 = Some (Inr (), s3)" "stored E s3 t" by (rule flush_ok [OF s2(2)])
  have "commit_tx E c s = Some (Inr ''Transaction committed'', s3)"
    using assms(2) s1(1) s2(1) s3(1) cv
    by (simp add: commit_tx_def drop_tx_def bump_version_def seq_assoc seq_Inr)
  with s3(2) show ?thesis by blast
qed

text \<open>
  C23 (engine, commit returns): on a stored database COMMIT of a transaction returns without
  error when no row it updates has a version above its snapshot, its records decode and
  encode, and the queue has room for its updates; the database is stored afterwards.
\<close>

theorem commit_succeeds:
  assumes "stored E s t" and "tx_of c s = Some tx" and "length (updates tx) \<le> log_room s"
    and "\<And>k d. k \<in> fst ` set (updates tx) \<Longrightarrow> current_data s t k = Some d \<Longrightarrow>
      \<exists>r. de_record E d = Some r \<and> version r \<le> snapshot_version tx"
    and "\<And>k v. (k, v) \<in> set (updates tx) \<Longrightarrow> \<exists>r b. de_record E v = Some r
      \<and> ser_record E (r\<lparr>version := current_version s + 1\<rparr>) = Some b"
  shows "\<exists>s'. commit_tx E c s = Some (Inr ''Transaction committed'', s') \<and> stored E s' t"
  by (rule commit_ok [OF assms])

end
