(* ===== verification/Engine_Write.thy ===== *)
theory Engine_Write
  imports Engine_Store
begin

text \<open>
  UPDATE and DELETE outside a transaction: the keys they select, the records they write and
  what a scan returns afterwards. The loop over the rows is proved once, in the locale
  \<open>row_writer\<close>, and interpreted on both statements.
\<close>

section \<open>The keys a statement selects\<close>

text \<open>The \<open>__key__\<close> column of the row of an entry is its key.\<close>

definition key_ok :: "engine_env \<Rightarrow> str \<Rightarrow> u64 \<Rightarrow> bytes \<times> bytes \<Rightarrow> bool" where
  "key_ok E tbl ver kv \<longleftrightarrow> (\<forall>row. row_of E tbl ver kv = Some row \<longrightarrow>
     (\<exists>k. map_of row ''__key__'' = Some k \<and> to_bytes_of k = fst kv))"

definition meets :: "engine_env \<Rightarrow> expr option \<Rightarrow> row \<Rightarrow> bool" where
  "meets E cond row \<longleftrightarrow> (case cond of Some e \<Rightarrow> evaluate_where (sqlp E) e row | None \<Rightarrow> True)"

definition selected :: "engine_env \<Rightarrow> str \<Rightarrow> u64 \<Rightarrow> expr option \<Rightarrow> bytes \<times> bytes \<Rightarrow> bool" where
  "selected E tbl ver cond kv \<longleftrightarrow> (\<exists>row. row_of E tbl ver kv = Some row \<and> meets E cond row)"

lemma selected_keys_rows:
  "\<forall>kv \<in> set es. key_ok E tbl ver kv \<Longrightarrow>
   selected_keys E cond (rows_of E tbl ver es) = map fst (filter (selected E tbl ver cond) es)"
proof (induction es)
  case Nil
  then show ?case by (simp add: selected_keys_def List.map_filter_simps)
next
  case (Cons kv es)
  have app: "selected_keys E cond (row # rows) = selected_keys E cond [row] @ selected_keys E cond rows" for row rows
    by (simp add: selected_keys_def)
  have one: "selected_keys E cond [row] = (if meets E cond row then [fst kv] else [])"
    if "row_of E tbl ver kv = Some row" for row
    using Cons.prems that by (auto simp: key_ok_def selected_keys_def meets_def split: option.splits)
  show ?case
    using Cons one
    by (cases "row_of E tbl ver kv") (auto simp: map_filter_Cons app [of _ "rows_of E tbl ver es"] selected_def)
qed

definition target_keys :: "engine_env \<Rightarrow> str \<Rightarrow> u64 \<Rightarrow> expr option \<Rightarrow> (bytes \<times> bytes) list \<Rightarrow> (bytes \<times> bytes) list
    \<Rightarrow> bytes list" where
  "target_keys E tbl ver cond cached stored_entries = map fst (filter (selected E tbl ver cond)
     (cached @ filter (\<lambda>kv. fst kv \<notin> shown E tbl ver cached) stored_entries))"

lemma target_keys:
  assumes "\<forall>kv \<in> set cached \<union> set es. key_ok E tbl ver kv"
  shows "selected_keys E cond (table_rows E tbl ver cached es) = target_keys E tbl ver cond cached es"
  using assms unfolding table_rows_def target_keys_def map_filter_append [symmetric]
  by (intro selected_keys_rows) auto

lemma target_keys_distinct:
  assumes "distinct (map fst cached)" and "distinct (map fst es)"
  shows "distinct (target_keys E tbl ver cond cached es)"
proof -
  have "fst kv \<in> shown E tbl ver cached" if "kv \<in> set cached" "selected E tbl ver cond kv" for kv
    using that by (auto simp: shown_def selected_def)
  with assms show ?thesis
    by (fastforce simp: target_keys_def distinct_map_filter)
qed

text \<open>The current record of a selected key can be decoded.\<close>

lemma visible_decodes: "row_of E tbl ver kv = Some row \<Longrightarrow> \<exists>r. de_record E (snd kv) = Some r \<and> visible ver r"
  by (auto simp: row_of_def visible_row_def split: if_splits sum.splits option.splits)

lemma readable_decodes: "readable E tbl ver kv \<Longrightarrow> in_table tbl (fst kv) \<Longrightarrow> de_record E (snd kv) \<noteq> None"
  by (auto simp: readable_def visible_row_def split: option.splits)

lemma target_data:
  assumes st: "stored E s t" and rd: "table_readable E tbl ver (cached_entries s) (entries t)"
    and k: "k \<in> set (target_keys E tbl ver cond (cached_entries s) (entries t))"
  obtains d r where "current_data s t k = Some d" and "de_record E d = Some r"
proof -
  from k obtain d0 where sel: "selected E tbl ver cond (k, d0)"
    and kv: "(k, d0) \<in> set (cached_entries s) \<or> (k, d0) \<in> set (entries t)"
    by (auto simp: target_keys_def)
  then obtain row where row: "row_of E tbl ver (k, d0) = Some row" by (auto simp: selected_def)
  then have tb: "in_table tbl k" by (simp add: row_of_def split: if_splits)
  note dist = stored_distinct [OF st]
  show ?thesis
  proof (cases "mt_lookup (tier s) k")
    case (Some d)
    then have "(k, d) \<in> set (cached_entries s)" by (auto simp: mt_lookup_def dest: map_of_SomeD)
    with rd have "readable E tbl ver (k, d)" by (simp add: table_readable_def)
    with readable_decodes [of E tbl ver "(k, d)"] tb Some that show ?thesis by (auto simp: current_data_def)
  next
    case None
    then have "(k, d0) \<in> set (entries t)"
      using kv by (auto simp: mt_lookup_def map_of_eq_None_iff image_iff)
    then have "map_of (entries t) k = Some d0" using dist(2) by simp
    with None visible_decodes [OF row] that show ?thesis by (auto simp: current_data_def)
  qed
qed

section \<open>Writing the selected rows\<close>

text \<open>The record is encoded whatever version it gets.\<close>

definition writable :: "engine_env \<Rightarrow> db_record \<Rightarrow> bool" where
  "writable E r \<longleftrightarrow> (\<forall>ver. \<exists>b. ser_record E (r\<lparr>version := ver\<rparr>) = Some b)"

text \<open>
  From \<open>s\<close> to \<open>s'\<close> the tier got, for each of the keys, the changed record with a new version;
  every such write took the next version, and nothing else changed.
\<close>

definition written :: "engine_env \<Rightarrow> (db_record \<Rightarrow> db_record option) \<Rightarrow> engine \<Rightarrow> ptree \<Rightarrow> bytes list
    \<Rightarrow> engine \<Rightarrow> bool" where
  "written E change s t ks s' \<longleftrightarrow>
     current_version s' = current_version s + of_nat (length ks)
     \<and> schemas s' = schemas s \<and> indices s' = indices s \<and> active_transactions s' = active_transactions s
     \<and> (\<forall>k. k \<notin> set ks \<longrightarrow> mt_lookup (tier s') k = mt_lookup (tier s) k)
     \<and> (\<forall>k \<in> set ks. \<exists>d r r' b. current_data s t k = Some d \<and> de_record E d = Some r \<and> change r = Some r'
         \<and> mt_lookup (tier s') k = Some b
         \<and> (\<exists>j \<in> {1..length ks}. de_record E b = Some (r'\<lparr>version := current_version s + of_nat j\<rparr>)))"

lemma put_record_ok:
  assumes "record_codec E" and "stored E s t" and "tx_of c s = None" and "writable E r"
    and "0 < log_room s" and "room_for (Suc n) (tier s)"
  obtains s' b where "put_record E c k r s = Some (Inr (), s')" and "stored E s' t"
    and "ser_record E (r\<lparr>version := current_version s + 1\<rparr>) = Some b"
    and "mt_lookup (tier s') = (mt_lookup (tier s))(k \<mapsto> b)" and "room_for n (tier s')"
    and "log_queue s' = log_queue s @ [RecordUpdate k b]" and "current_version s' = current_version s + 1"
    and "schemas s' = schemas s" and "indices s' = indices s" and "active_transactions s' = active_transactions s"
    and "spent 1 s s'"
proof -
  have "ser_record E (r\<lparr>version := version r\<rparr>) \<noteq> None" using assms(4) by (metis option.distinct(1) writable_def)
  then obtain b0 where b0: "ser_record E r = Some b0" by auto
  obtain b where b: "ser_record E (r\<lparr>version := current_version s + 1\<rparr>) = Some b"
    using assms(4) by (auto simp: writable_def)
  let ?s = "s\<lparr>current_version := current_version s + 1\<rparr>"
  have de: "de_record E b0 = Some r" using assms(1) b0 by (simp add: record_codec_def)
  have st: "stored E ?s t" by (rule stored_tree [OF assms(2)]) simp
  have rm: "0 < log_room ?s" using assms(5) by simp
  obtain s' where s': "seq (tier_insert E k b) (\<lambda>_. enqueue E k b) ?s = Some (Inr (), s')" "stored E s' t"
    "same_meta ?s s'" "tier s' = mt_insert (clock_nanos E (ticks ?s)) k b (tier ?s)"
    "log_queue s' = log_queue ?s @ [RecordUpdate k b]" "ticks s' = Suc (ticks ?s)"
    by (rule put_ok [OF st rm])
  have "spent 1 s s'" using s'(4-6) by (intro put_spent) simp_all
  have "put_record E c k r s = Some (Inr (), s')"
    using s'(1) by (simp add: put_record_def b0 de b assms(3) bump_version_def seq_assoc)
  with s' b no_evict [OF assms(6)] \<open>spent 1 s s'\<close> show ?thesis
    by (intro that [of s' b]) (simp_all add: same_meta_def)
qed

locale row_writer =
  fixes E :: engine_env and c :: u32 and op :: "bytes \<Rightarrow> (engine, unit) act"
    and change :: "db_record \<Rightarrow> db_record option"
  assumes op_run: "cached_or_stored E k s = Some (Inr (Some d), s1) \<Longrightarrow> de_record E d = Some r \<Longrightarrow>
    change r = Some r' \<Longrightarrow> op k s = put_record E c k r' s1"
begin

lemma op_ok:
  assumes "record_codec E" and "stored E s t" and "tx_of c s = None"
    and "0 < log_room s" and "room_for (Suc n) (tier s)"
    and "current_data s t k = Some d" and "de_record E d = Some r" and "change r = Some r'" and "writable E r'"
  obtains s' b where "op k s = Some (Inr (), s')" and "stored E s' t"
    and "de_record E b = Some (r'\<lparr>version := current_version s + 1\<rparr>)"
    and "mt_lookup (tier s') = (mt_lookup (tier s))(k \<mapsto> b)" and "room_for n (tier s')"
    and "log_room s' = log_room s - 1" and "current_version s' = current_version s + 1"
    and "schemas s' = schemas s" and "indices s' = indices s" and "active_transactions s' = active_transactions s"
    and "spent 1 s s'"
proof -
  obtain s1 where s1: "cached_or_stored E k s = Some (Inr (Some d), s1)" "stored E s1 t" "same_all s s1"
    using cached_or_stored_ok [OF assms(2), of k] assms(6) by metis
  have pre: "tx_of c s1 = None" "0 < log_room s1" "room_for (Suc n) (tier s1)"
    using assms(3-5) s1(3) same_all_room [OF s1(3)] same_all_queue [OF s1(3)]
    by (auto simp: same_all_def tx_of_def room_def)
  obtain s' b where s': "put_record E c k r' s1 = Some (Inr (), s')" "stored E s' t"
    "ser_record E (r'\<lparr>version := current_version s1 + 1\<rparr>) = Some b"
    "mt_lookup (tier s') = (mt_lookup (tier s1))(k \<mapsto> b)" "room_for n (tier s')"
    "log_queue s' = log_queue s1 @ [RecordUpdate k b]" "current_version s' = current_version s1 + 1"
    "schemas s' = schemas s1" "indices s' = indices s1" "active_transactions s' = active_transactions s1" "spent 1 s1 s'"
    by (rule put_record_ok [OF assms(1) s1(2) pre(1) assms(9) pre(2,3), of k])
  have "op k s = Some (Inr (), s')" using op_run [OF s1(1) assms(7,8)] s'(1) by simp
  moreover have "de_record E b = Some (r'\<lparr>version := current_version s1 + 1\<rparr>)"
    using assms(1) s'(3) by (simp add: record_codec_def)
  moreover have "log_room s' = log_room s - 1"
    using s'(6) same_all_queue [OF s1(3)] by (simp add: room_def)
  moreover have "spent 1 s s'" using spent_trans [OF same_all_spent [OF s1(3)] s'(11)] by simp
  ultimately show ?thesis
    using s' s1(3) same_all_lookup [OF s1(3)] by (intro that [of s' b]) (simp_all add: same_all_def same_db_def)
qed

lemma ops_ok:
  assumes "record_codec E" and "stored E s t" and "tx_of c s = None" and "distinct ks"
    and "length ks \<le> log_room s" and "room_for (length ks) (tier s)"
    and "\<And>k. k \<in> set ks \<Longrightarrow> \<exists>d r r'. current_data s t k = Some d \<and> de_record E d = Some r
      \<and> change r = Some r' \<and> writable E r'"
  shows "\<exists>s'. for_each ks op s = Some (Inr (), s') \<and> stored E s' t \<and> written E change s t ks s'
    \<and> spent (length ks) s s'"
  using assms(2-)
proof (induction ks arbitrary: s)
  case Nil
  then show ?case by (simp add: written_def)
next
  case (Cons k ks)
  obtain d r r' where k: "current_data s t k = Some d" "de_record E d = Some r" "change r = Some r'" "writable E r'"
    using Cons.prems(6) [of k] by auto
  have rm: "0 < log_room s" "room_for (Suc (length ks)) (tier s)" using Cons.prems by simp_all
  obtain s1 b where s1: "op k s = Some (Inr (), s1)" "stored E s1 t"
    "de_record E b = Some (r'\<lparr>version := current_version s + 1\<rparr>)"
    "mt_lookup (tier s1) = (mt_lookup (tier s))(k \<mapsto> b)" "room_for (length ks) (tier s1)"
    "log_room s1 = log_room s - 1" "current_version s1 = current_version s + 1"
    "schemas s1 = schemas s" "indices s1 = indices s" "active_transactions s1 = active_transactions s" "spent 1 s s1"
    by (rule op_ok [OF assms(1) Cons.prems(1,2) rm k])
  have other: "current_data s1 t k' = current_data s t k'" if "k' \<noteq> k" for k'
    using that by (simp add: current_data_def s1(4))
  have "k \<notin> set ks" "distinct ks" using Cons.prems(3) by simp_all
  moreover have "tx_of c s1 = None" using Cons.prems(2) s1(10) by (simp add: tx_of_def)
  moreover have "length ks \<le> log_room s1" using Cons.prems(4) s1(6) by simp
  moreover have "\<exists>d r r'. current_data s1 t k' = Some d \<and> de_record E d = Some r
      \<and> change r = Some r' \<and> writable E r'" if "k' \<in> set ks" for k'
  proof -
    have "k' \<noteq> k" using that \<open>k \<notin> set ks\<close> by auto
    then show ?thesis using Cons.prems(6) [of k'] other that by simp
  qed
  ultimately obtain s' where s': "for_each ks op s1 = Some (Inr (), s')" "stored E s' t" "written E change s1 t ks s'"
    "spent (length ks) s1 s'"
    using Cons.IH [OF s1(2)] s1(5) by blast
  have "written E change s t (k # ks) s'"
    unfolding written_def
  proof (intro conjI ballI)
    show "current_version s' = current_version s + of_nat (length (k # ks))"
      using s'(3) s1(7) by (simp add: written_def)
    show "schemas s' = schemas s" "indices s' = indices s" "active_transactions s' = active_transactions s"
      using s'(3) s1(8-10) by (simp_all add: written_def)
    show "\<forall>k'. k' \<notin> set (k # ks) \<longrightarrow> mt_lookup (tier s') k' = mt_lookup (tier s) k'"
      using s'(3) s1(4) by (simp add: written_def)
  next
    fix k' assume k': "k' \<in> set (k # ks)"
    show "\<exists>d r r' b. current_data s t k' = Some d \<and> de_record E d = Some r \<and> change r = Some r'
        \<and> mt_lookup (tier s') k' = Some b
        \<and> (\<exists>j \<in> {1..length (k # ks)}. de_record E b = Some (r'\<lparr>version := current_version s + of_nat j\<rparr>))"
    proof (cases "k' = k")
      case True
      have "mt_lookup (tier s') k = Some b" using s'(3) s1(4) \<open>k \<notin> set ks\<close> by (simp add: written_def)
      moreover have "de_record E b = Some (r'\<lparr>version := current_version s + of_nat 1\<rparr>)" using s1(3) by simp
      ultimately show ?thesis using k(1-3) True by force
    next
      case False
      with k' have "k' \<in> set ks" by simp
      with s'(3) obtain d r r' b j where *: "current_data s1 t k' = Some d" "de_record E d = Some r" "change r = Some r'"
        "mt_lookup (tier s') k' = Some b" "j \<in> {1..length ks}"
        "de_record E b = Some (r'\<lparr>version := current_version s1 + of_nat j\<rparr>)"
        unfolding written_def by blast
      then have "Suc j \<in> {1..length (k # ks)}" by simp
      moreover have "de_record E b = Some (r'\<lparr>version := current_version s + of_nat (Suc j)\<rparr>)"
        using *(6) s1(7) by (simp add: algebra_simps)
      ultimately show ?thesis using *(1-4) other [OF False] by metis
    qed
  qed
  moreover have "spent (length (k # ks)) s s'" using spent_trans [OF s1(11) s'(4)] by simp
  ultimately show ?case using s1(1) s'(1,2) by (simp add: seq_Inr)
qed

end

text \<open>The changes the two statements make to a record.\<close>

definition deleted_record :: "u64 \<Rightarrow> db_record \<Rightarrow> db_record option" where
  "deleted_record ver r = Some (r\<lparr>is_deleted := True, version := ver + 1\<rparr>)"

definition updated_record :: "engine_env \<Rightarrow> (str \<times> expr) list \<Rightarrow> u64 \<Rightarrow> db_record \<Rightarrow> db_record option" where
  "updated_record E asg ver r = Option.bind (de_row E (rec_value r)) (\<lambda>row.
     map_option (\<lambda>val. r\<lparr>rec_value := val, version := ver + 1\<rparr>) (ser_row E (assign E asg row)))"

interpretation del: row_writer E c "delete_row E c ver" "deleted_record ver" for E c ver
  by unfold_locales (simp add: delete_row_def load_record_def seq_assoc seq_Inr deleted_record_def)

interpretation upd: row_writer E c "update_row E c ver asg" "updated_record E asg ver" for E c ver asg
  by unfold_locales
    (auto simp: update_row_def load_record_def seq_assoc seq_Inr updated_record_def bind_eq_Some_conv)

section \<open>UPDATE and DELETE outside a transaction\<close>

text \<open>What both statements need: room, keys that are read back and records that are encoded.\<close>

definition ready_to_write :: "engine_env \<Rightarrow> u32 \<Rightarrow> str \<Rightarrow> expr option \<Rightarrow> (db_record \<Rightarrow> db_record option)
    \<Rightarrow> engine \<Rightarrow> ptree \<Rightarrow> bytes list \<Rightarrow> bool" where
  "ready_to_write E c tbl cond change s t ks \<longleftrightarrow> record_codec E \<and> stored E s t \<and> tx_of c s = None
     \<and> unindexed E s t tbl cond
     \<and> table_readable E tbl (current_version s) (cached_entries s) (entries t)
     \<and> (\<forall>kv \<in> set (cached_entries s) \<union> set (entries t). key_ok E tbl (current_version s) kv)
     \<and> ks = target_keys E tbl (current_version s) cond (cached_entries s) (entries t)
     \<and> length ks \<le> log_room s \<and> room_for (length ks) (tier s)
     \<and> (\<forall>k \<in> set ks. \<forall>d r. current_data s t k = Some d \<longrightarrow> de_record E d = Some r \<longrightarrow>
         (\<exists>r'. change r = Some r' \<and> writable E r'))"

lemma written_same:
  assumes "written E change s t ks s'" and "same_all s0 s"
  shows "written E change s0 t ks s'"
  using assms same_all_lookup [OF assms(2)] same_all_data [OF assms(2)]
  by (simp add: written_def same_all_def same_db_def)

lemma written_flush: "written E change s t ks s' \<Longrightarrow> same_but_log s' s'' \<Longrightarrow> written E change s t ks s''"
  by (auto simp: written_def same_but_log_def)

context row_writer
begin

text \<open>The body both statements share, with its message \<open>f\<close>.\<close>

lemma statement_ok:
  assumes "ready_to_write E c tbl cond change s t ks"
  shows "\<exists>s'. seq (scan_table_with_filter E tbl (current_version s) cond) (\<lambda>rows.
       let ks = selected_keys E cond rows in
       seq (for_each ks op) (\<lambda>_. seq (flush_outside_tx E c) (\<lambda>_. ret (f ks)))) s = Some (Inr (f ks), s')
    \<and> stored E s' t \<and> written E change s t ks s' \<and> spent (length ks) s s'"
proof -
  let ?ver = "current_version s"
  have r: "record_codec E" "stored E s t" "tx_of c s = None" "unindexed E s t tbl cond"
    "table_readable E tbl ?ver (cached_entries s) (entries t)"
    "\<forall>kv \<in> set (cached_entries s) \<union> set (entries t). key_ok E tbl ?ver kv"
    "ks = target_keys E tbl ?ver cond (cached_entries s) (entries t)"
    "length ks \<le> log_room s" "room_for (length ks) (tier s)"
    "\<And>k d r. k \<in> set ks \<Longrightarrow> current_data s t k = Some d \<Longrightarrow> de_record E d = Some r \<Longrightarrow>
      \<exists>r'. change r = Some r' \<and> writable E r'"
    using assms by (auto simp: ready_to_write_def)
  obtain s1 where s1: "scan_table_with_filter E tbl ?ver cond s
      = Some (full_scan E tbl ?ver (cached_entries s @ entries t), s1)" "stored E s1 t" "same_all s s1"
    by (rule scan_unindexed [OF r(2,4)])
  have fs: "full_scan E tbl ?ver (cached_entries s @ entries t)
      = Inr (table_rows E tbl ?ver (cached_entries s) (entries t))"
    using full_scan_eq [OF stored_distinct [OF r(2)]] r(5) by simp
  have ks: "selected_keys E cond (table_rows E tbl ?ver (cached_entries s) (entries t)) = ks"
    using target_keys [OF r(6)] r(7) by simp
  have d: "distinct ks" unfolding r(7) by (rule target_keys_distinct [OF stored_distinct [OF r(2)]])
  have pre: "tx_of c s1 = None" "length ks \<le> log_room s1" "room_for (length ks) (tier s1)"
    using r(3,8,9) s1(3) same_all_room [OF s1(3)] same_all_queue [OF s1(3)]
    by (auto simp: same_all_def tx_of_def room_def)
  have "\<exists>d r r'. current_data s1 t k = Some d \<and> de_record E d = Some r \<and> change r = Some r' \<and> writable E r'"
    if "k \<in> set ks" for k
    using target_data [OF r(2,5), of k cond] that r(7) r(10) [of k] same_all_data [OF s1(3)] by metis
  from ops_ok [OF r(1) s1(2) pre(1) d pre(2,3) this] obtain s2 where
    s2: "for_each ks op s1 = Some (Inr (), s2)" "stored E s2 t" "written E change s1 t ks s2" "spent (length ks) s1 s2"
    by blast
  obtain s3 where s3: "flush E s2 = Some (Inr (), s3)" "stored E s3 t" "same_but_log s2 s3"
    "suffix (log_queue s3) (log_queue s2)"
    by (rule flush_ok [OF s2(2)])
  have "spent (length ks) s s3"
    using spent_trans [OF same_all_spent [OF s1(3)] spent_trans [OF s2(4) flush_spent [OF s3(3,4)]]] by simp
  have "tx_of c s2 = None" using s2(3) pre(1) by (simp add: written_def tx_of_def)
  then have fl: "flush_outside_tx E c s2 = Some (Inr (), s3)" by (simp add: flush_outside_tx_def s3(1))
  have "written E change s t ks s3" by (rule written_flush [OF written_same [OF s2(3) s1(3)] s3(3)])
  with s1(1) s2(1) fl s3(2) \<open>spent (length ks) s s3\<close> show ?thesis by (simp add: seq_Inr fs ks)
qed

end

lemma handle_delete_ok:
  assumes "ready_to_write E c tbl cond (deleted_record (current_version s)) s t ks"
  shows "\<exists>s'. handle_delete E tbl cond c s = Some (Inr (''Deleted '' @ show_nat (length ks) @ '' rows''), s')
    \<and> stored E s' t \<and> written E (deleted_record (current_version s)) s t ks s'
    \<and> spent (length ks) s s'"
proof -
  have "read_version c s = current_version s"
    using assms by (simp add: read_version_def ready_to_write_def)
  with del.statement_ok [OF assms, of "\<lambda>ks. ''Deleted '' @ show_nat (length ks) @ '' rows''"]
  show ?thesis by (simp only: handle_delete_def seq_simps)
qed

lemma handle_update_ok:
  assumes "ready_to_write E c tbl cond (updated_record E asg (current_version s)) s t ks"
  shows "\<exists>s'. handle_update E tbl asg cond c s = Some (Inr (''Updated '' @ show_nat (length ks) @ '' rows''), s')
    \<and> stored E s' t \<and> written E (updated_record E asg (current_version s)) s t ks s'
    \<and> spent (length ks) s s'"
proof -
  have "read_version c s = current_version s"
    using assms by (simp add: read_version_def ready_to_write_def)
  with upd.statement_ok [OF assms, of "\<lambda>ks. ''Updated '' @ show_nat (length ks) @ '' rows''"]
  show ?thesis by (simp only: handle_update_def seq_simps)
qed

text \<open>
  C22 (engine, DELETE): outside a transaction and without an index entry, DELETE on a stored
  database with room in tier and queue returns the number of rows that the scan shows and
  the condition accepts. For each of them the tier then holds the record marked deleted
  under a new version; the version grows by that number and nothing else changes.
\<close>

theorem delete_spec:
  assumes "ready_to_write E c tbl cond (deleted_record (current_version s)) s t ks"
  shows "\<exists>s'. handle_delete E tbl cond c s = Some (Inr (''Deleted '' @ show_nat (length ks) @ '' rows''), s')
    \<and> stored E s' t \<and> written E (deleted_record (current_version s)) s t ks s'"
  using handle_delete_ok [OF assms] by blast

text \<open>
  C21 (engine, UPDATE): under the same conditions UPDATE returns the number of selected rows;
  for each of them the tier then holds the record with the assigned columns under a new
  version, and nothing else changes.
\<close>

theorem update_spec:
  assumes "ready_to_write E c tbl cond (updated_record E asg (current_version s)) s t ks"
  shows "\<exists>s'. handle_update E tbl asg cond c s = Some (Inr (''Updated '' @ show_nat (length ks) @ '' rows''), s')
    \<and> stored E s' t \<and> written E (updated_record E asg (current_version s)) s t ks s'"
  using handle_update_ok [OF assms] by blast

section \<open>Deleted rows that come back\<close>

text \<open>The tier's records of the table: all decodable, none newer than the current version.\<close>

definition table_current :: "engine_env \<Rightarrow> str \<Rightarrow> engine \<Rightarrow> bool" where
  "table_current E tbl s \<longleftrightarrow> (\<forall>kv \<in> set (cached_entries s). in_table tbl (fst kv) \<longrightarrow>
     (\<exists>r. de_record E (snd kv) = Some r \<and> version r \<le> current_version s))"

lemma deleted_hides:
  assumes rd: "ready_to_write E c tbl None (deleted_record (current_version s)) s t ks"
    and cur: "table_current E tbl s" and wr: "written E (deleted_record (current_version s)) s t ks s'"
    and kv: "(k, d) \<in> set (cached_entries s')" and st: "stored E s' t" and tb: "in_table tbl k"
  shows "\<exists>r. de_record E d = Some r \<and> is_deleted r"
proof -
  have d: "mt_lookup (tier s') k = Some d"
    using kv stored_distinct(1) [OF st] by (simp add: mt_lookup_def)
  show ?thesis
  proof (cases "k \<in> set ks")
    case True
    with wr obtain r r' b j where "deleted_record (current_version s) r = Some r'" "mt_lookup (tier s') k = Some b"
      "de_record E b = Some (r'\<lparr>version := current_version s + of_nat j\<rparr>)"
      unfolding written_def by blast
    with d show ?thesis by (auto simp: deleted_record_def)
  next
    case False
    then have "mt_lookup (tier s) k = Some d" using wr d by (simp add: written_def)
    then have kd: "(k, d) \<in> set (cached_entries s)" by (auto simp: mt_lookup_def dest: map_of_SomeD)
    with cur tb obtain r where r: "de_record E d = Some r" "version r \<le> current_version s"
      by (fastforce simp: table_current_def)
    have "is_deleted r"
    proof (rule ccontr)
      assume "\<not> is_deleted r"
      with r have "visible (current_version s) r" by (simp add: visible_def)
      moreover have "readable E tbl (current_version s) (k, d)"
        using rd kd by (auto simp: ready_to_write_def table_readable_def)
      ultimately have "row_of E tbl (current_version s) (k, d) \<noteq> None"
        using r tb by (auto simp: readable_def row_of_def visible_row_def split: option.splits)
      then have "selected E tbl (current_version s) None (k, d)" by (auto simp: selected_def meets_def)
      with kd have "k \<in> set (target_keys E tbl (current_version s) None (cached_entries s) (entries t))"
        by (auto simp: target_keys_def intro!: rev_image_eqI)
      with False rd show False by (simp add: ready_to_write_def)
    qed
    with r show ?thesis by blast
  qed
qed

text \<open>
  C33 (engine, DELETE and scan): after a DELETE of all rows of a table outside a transaction, a
  scan shows exactly the rows of the records the tree itself stores: rows that had not reached
  the tree are gone, and those that had are all still there, for the deletion markers are
  only in the memory tier, where they are skipped.
\<close>

theorem delete_then_scan:
  assumes "ready_to_write E c tbl None (deleted_record (current_version s)) s t ks"
    and "table_current E tbl s"
    and "\<And>ver kv. kv \<in> set (entries t) \<Longrightarrow> readable E tbl ver kv"
  shows "\<exists>m s' s''. handle_delete E tbl None c s = Some (Inr m, s')
    \<and> scan_table E tbl (current_version s') s' =
        Some (Inr (rows_of E tbl (current_version s') (entries t)), s'')"
proof -
  obtain s' where s': "handle_delete E tbl None c s = Some (Inr (''Deleted '' @ show_nat (length ks) @ '' rows''), s')"
    "stored E s' t" "written E (deleted_record (current_version s)) s t ks s'"
    using handle_delete_ok [OF assms(1)] by blast
  let ?ver = "current_version s'"
  have del: "\<exists>r. de_record E d = Some r \<and> is_deleted r" if "(k, d) \<in> set (cached_entries s')" "in_table tbl k" for k d
    by (rule deleted_hides [OF assms(1,2) s'(3) that(1) s'(2) that(2)])
  have none: "row_of E tbl ?ver kv = None \<and> readable E tbl ?ver kv" if "kv \<in> set (cached_entries s')" for kv
    using del [of "fst kv" "snd kv"] that
    by (cases "in_table tbl (fst kv)") (auto simp: row_of_def readable_def visible_row_def visible_def)
  then have sh: "shown E tbl ?ver (cached_entries s') = {}" by (auto simp: shown_def)
  have "rows_of E tbl ?ver es = []" if "\<forall>kv \<in> set es. row_of E tbl ?ver kv = None" for es
    using that by (induction es) (simp_all add: map_filter_Cons List.map_filter_simps)
  with none sh have "table_rows E tbl ?ver (cached_entries s') (entries t) = rows_of E tbl ?ver (entries t)"
    by (simp add: table_rows_def)
  moreover have "table_readable E tbl ?ver (cached_entries s') (entries t)"
    using none assms(3) by (simp add: table_readable_def)
  ultimately obtain s'' where "scan_table E tbl ?ver s' = Some (Inr (rows_of E tbl ?ver (entries t)), s'')"
    using table_scan_sim [OF s'(2), of tbl ?ver] by metis
  with s'(1) show ?thesis by blast
qed

end
