(* ===== verification/Engine_Insert.thy ===== *)
theory Engine_Insert
  imports Engine_Write
begin

text \<open>
  INSERT outside a transaction: the records it writes, and that a scan afterwards shows the
  rows it showed before together with the inserted ones.
\<close>

section \<open>Keys of rows\<close>

definition ascii :: "str \<Rightarrow> bool" where
  "ascii s \<longleftrightarrow> (\<forall>c \<in> set s. (of_char c :: nat) < 128)"

lemma lossy_text:
  assumes "ascii s"
  shows "from_utf8_lossy (to_bytes_of s) = s"
proof -
  have "unat b < 128" if "b \<in> set (to_bytes_of s)" for b
  proof -
    from that obtain c where c: "c \<in> set s" "b = of_nat (of_char c)" by (auto simp: to_bytes_of_def)
    with assms have "(of_char c :: nat) < 128" by (auto simp: ascii_def)
    with c(2) show ?thesis by (simp add: unsigned_of_nat take_bit_nat_eq_self)
  qed
  then show ?thesis by (simp add: from_utf8_lossy_def lossy_ascii)
qed

lemma ascii_append [simp]:
  "ascii (s @ t) \<longleftrightarrow> ascii s \<and> ascii t" "ascii (c # s) \<longleftrightarrow> (of_char c :: nat) < 128 \<and> ascii s"
  by (auto simp: ascii_def)

lemma ascii_hex16: "ascii (hex16 w)"
proof -
  have "(of_char (digit_char (n mod 16)) :: nat) < 128" for n :: nat
  proof -
    have "n mod 16 < 16" by simp
    then have "n mod 16 < 41" by linarith
    then show ?thesis by (simp add: digit_char_def)
  qed
  then show ?thesis by (simp add: ascii_def hex16_def)
qed

lemma row_key_text:
  assumes "ascii tbl"
  shows "from_utf8_lossy (row_key tbl i) = tbl @ '':'' @ hex16 i" and "in_table tbl (row_key tbl i)"
proof -
  from assms show t: "from_utf8_lossy (row_key tbl i) = tbl @ '':'' @ hex16 i"
    unfolding row_key_def by (intro lossy_text) (simp add: ascii_hex16)
  show "in_table tbl (row_key tbl i)" unfolding in_table_def t by simp
qed

section \<open>The inserted records\<close>

text \<open>The id after a row.\<close>

definition id_after :: "table_schema \<Rightarrow> u64 \<Rightarrow> u64" where
  "id_after sc nid = (if auto_increment_col sc = None then nid else nid + 1)"

text \<open>Keys and encoded records, and the rows a scan makes of them; each row takes three ticks.\<close>

fun inserted :: "engine_env \<Rightarrow> str \<Rightarrow> table_schema \<Rightarrow> u64 \<Rightarrow> expr list list \<Rightarrow> u64 \<Rightarrow> nat
    \<Rightarrow> (bytes \<times> bytes) list option" where
  "inserted E tbl sc ver [] nid n = Some []"
| "inserted E tbl sc ver (exprs # rows) nid n =
     Option.bind (ser_row E (insert_row_data sc nid exprs)) (\<lambda>d.
     Option.bind (ser_record E \<lparr>rec_value = d, version = ver, is_deleted = False,
       timestamp = clock_seconds E (Suc n)\<rparr>) (\<lambda>b.
     map_option (Cons (row_key tbl (random_id E n), b))
       (inserted E tbl sc ver rows (id_after sc nid) (Suc (Suc (Suc n))))))"

fun new_rows :: "engine_env \<Rightarrow> str \<Rightarrow> table_schema \<Rightarrow> expr list list \<Rightarrow> u64 \<Rightarrow> nat \<Rightarrow> row list" where
  "new_rows E tbl sc [] nid n = []"
| "new_rows E tbl sc (exprs # rows) nid n =
     make_row tbl (tbl @ '':'' @ hex16 (random_id E n)) (insert_row_data sc nid exprs)
     # new_rows E tbl sc rows (id_after sc nid) (Suc (Suc (Suc n)))"

text \<open>Bincode on rows.\<close>

definition row_codec :: "engine_env \<Rightarrow> bool" where
  "row_codec E \<longleftrightarrow> (\<forall>r b. ser_row E r = Some b \<longrightarrow> de_row E b = Some r)"

lemma inserted_rows:
  assumes "record_codec E" and "row_codec E" and "ascii tbl" and "inserted E tbl sc ver rows nid n = Some kvs"
  shows "rows_of E tbl ver kvs = new_rows E tbl sc rows nid n \<and> (\<forall>kv \<in> set kvs. readable E tbl ver kv)
    \<and> length kvs = length rows"
  using assms(4)
proof (induction rows arbitrary: nid n kvs)
  case Nil
  then show ?case by (simp add: List.map_filter_simps)
next
  case (Cons exprs rows)
  from Cons.prems obtain d b kvs' where d: "ser_row E (insert_row_data sc nid exprs) = Some d"
    and b: "ser_record E \<lparr>rec_value = d, version = ver, is_deleted = False,
       timestamp = clock_seconds E (Suc n)\<rparr> = Some b"
    and kvs': "inserted E tbl sc ver rows (id_after sc nid) (Suc (Suc (Suc n))) = Some kvs'"
    and kvs: "kvs = (row_key tbl (random_id E n), b) # kvs'"
    by (auto simp: bind_eq_Some_conv)
  have "de_record E b = Some \<lparr>rec_value = d, version = ver, is_deleted = False,
      timestamp = clock_seconds E (Suc n)\<rparr>" "de_row E d = Some (insert_row_data sc nid exprs)"
    using assms(1,2) b d by (simp_all add: record_codec_def row_codec_def)
  then have "visible_row E tbl ver (row_key tbl (random_id E n)) b
      = Inr (Some (make_row tbl (tbl @ '':'' @ hex16 (random_id E n)) (insert_row_data sc nid exprs)))"
    by (simp add: visible_row_def visible_def row_key_text [OF assms(3)])
  with Cons.IH [OF kvs'] kvs row_key_text(2) [OF assms(3)] show ?case
    by (simp add: map_filter_Cons row_of_def readable_def)
qed

section \<open>The loop over the rows\<close>

lemma length_index_entries: "length (index_entries tbl k row idxs) \<le> length idxs"
  by (induction idxs) (auto simp: index_entries_def split: option.split)

lemma no_evict_cache:
  assumes "room_for (Suc n) m"
  shows "cache (mt_insert now k v m) = AList.update k v (cache m)"
proof -
  have "length (cache m) * 256 \<le> unat (mt_max_bytes m)" using assms by (simp add: room_for_def)
  moreover have "unat (mt_max_bytes m) < 2 ^ 64" using unsigned_less [of "mt_max_bytes m"] by simp
  ultimately have "\<not> mt_max_bytes m < of_nat (length (cache m)) * 256"
    by (simp add: word_less_nat_alt unat_word_ariths unsigned_of_nat take_bit_nat_eq_self)
  then show ?thesis by (simp add: mt_insert_eq mt_make_room_def Let_def)
qed

lemma update_fresh: "k \<notin> fst ` set xs \<Longrightarrow> AList.update k v xs = xs @ [(k, v)]"
  by (induction xs) auto

lemma insert_rows_ok:
  assumes "stored E s t" and "tx_of c s = None" and "inserted E tbl sc (current_version s) rows nid (ticks s) = Some kvs"
    and "room_for (length rows) (tier s)"
    and "distinct (map fst kvs)" and "fst ` set kvs \<inter> fst ` set (cached_entries s) = {}"
  shows "\<exists>es s'. insert_rows E c tbl sc rows nid s = Some (Inr ((id_after sc ^^ length rows) nid, es), s')
    \<and> stored E s' t \<and> same_meta s s' \<and> cached_entries s' = cached_entries s @ kvs
    \<and> log_queue s' = log_queue s \<and> length es \<le> length rows * Suc (length (indices s))
    \<and> ticks s' = ticks s + 3 * length rows \<and> max_ram_mb (tier s') = max_ram_mb (tier s)"
  using assms
proof (induction rows arbitrary: s nid kvs)
  case Nil
  then show ?case by (simp add: same_meta_def)
next
  case (Cons exprs rows)
  let ?n = "ticks s" and ?ver = "current_version s"
  from Cons.prems(3) obtain d b kvs' where d: "ser_row E (insert_row_data sc nid exprs) = Some d"
    and b: "ser_record E \<lparr>rec_value = d, version = ?ver, is_deleted = False,
       timestamp = clock_seconds E (Suc ?n)\<rparr> = Some b"
    and kvs': "inserted E tbl sc ?ver rows (id_after sc nid) (Suc (Suc (Suc ?n))) = Some kvs'"
    and kvs: "kvs = (row_key tbl (random_id E ?n), b) # kvs'"
    by (auto simp: bind_eq_Some_conv)
  let ?k = "row_key tbl (random_id E ?n)"
  let ?m = "mt_insert (clock_nanos E (Suc (Suc ?n))) ?k b (tier s)"
  let ?s = "(ticks_update (Suc \<circ> (Suc \<circ> Suc)) s)\<lparr>tree := (tree s)\<lparr>memory_tier := ?m\<rparr>\<rparr>"
  have rm: "room_for (Suc (length rows)) (tier s)" using Cons.prems(4) by simp
  have "?k \<notin> fst ` set (cached_entries s)" using Cons.prems(6) kvs by auto
  then have c: "cached_entries ?s = cached_entries s @ [(?k, b)]"
    using no_evict_cache [OF rm] by (simp add: update_fresh)
  have st: "stored E ?s t"
    using Cons.prems(1) by (intro stored_tier [OF Cons.prems(1), of ?m]) (auto simp: stored_def)
  have "tx_of c ?s = None" using Cons.prems(2) by (simp add: tx_of_def)
  moreover have "room_for (length rows) (tier ?s)" using no_evict(2) [OF rm] by simp
  moreover have "inserted E tbl sc (current_version ?s) rows (id_after sc nid) (ticks ?s) = Some kvs'"
    using kvs' by simp
  moreover have "distinct (map fst kvs')" "fst ` set kvs' \<inter> fst ` set (cached_entries ?s) = {}"
    using Cons.prems(5,6) unfolding c by (auto simp: kvs)
  ultimately obtain es s' where IH: "insert_rows E c tbl sc rows (id_after sc nid) ?s
      = Some (Inr ((id_after sc ^^ length rows) (id_after sc nid), es), s')"
    "stored E s' t" "same_meta ?s s'" "cached_entries s' = cached_entries ?s @ kvs'"
    "log_queue s' = log_queue ?s" "length es \<le> length rows * Suc (length (indices ?s))"
    "ticks s' = ticks ?s + 3 * length rows" "max_ram_mb (tier s') = max_ram_mb (tier ?s)"
    using Cons.IH [OF st] by blast
  let ?ie = "index_entries tbl ?k (insert_row_data sc nid exprs) (indices s)"
  have ie: "length ?ie \<le> length (indices s)" by (rule length_index_entries)
  have "insert_rows E c tbl sc (exprs # rows) nid s
      = Some (Inr ((id_after sc ^^ length (exprs # rows)) nid, (?k, b) # ?ie @ es), s')"
    using IH(1) Cons.prems(2) d b
    by (cases "auto_increment_col sc")
      (simp_all add: Let_def id_after_def tier_insert_def seq_assoc seq_Inr funpow_swap1 tx_of_def)
  moreover have "same_meta s s'" using IH(3) by (simp add: same_meta_def)
  moreover have "length ((?k, b) # ?ie @ es) \<le> length (exprs # rows) * Suc (length (indices s))"
    using ie IH(6) by simp
  moreover have "max_ram_mb (tier s') = max_ram_mb (tier s)" using IH(8) by (simp add: length_mt_insert(2))
  ultimately show ?case
    using IH(2,4,5,7) c by (simp add: kvs)
qed

section \<open>The statement\<close>

lemma enqueues_ok:
  assumes "stored E s t" and "length es \<le> log_room s"
  shows "\<exists>s'. for_each es (\<lambda>(k, d). enqueue E k d) s = Some (Inr (), s') \<and> stored E s' t
    \<and> same_meta s s' \<and> tier s' = tier s \<and> ticks s' = ticks s \<and> log_room s' = log_room s - length es"
  using assms
proof (induction es arbitrary: s)
  case (Cons e es)
  obtain k d where e: "e = (k, d)" by (cases e)
  let ?s = "queued [RecordUpdate k d] s"
  have rm: "0 < log_room s" using Cons.prems(2) by simp
  have "length es \<le> log_room ?s" using Cons.prems(2) by (simp add: room_def)
  from Cons.IH [OF enqueue_ok(2) [OF Cons.prems(1) rm] this] obtain s' where
    s': "for_each es (\<lambda>(k, d). enqueue E k d) ?s = Some (Inr (), s')" "stored E s' t" "same_meta ?s s'"
    "tier s' = tier ?s" "ticks s' = ticks ?s" "log_room s' = log_room ?s - length es" by blast
  have "same_meta s s'" using s'(3) by (simp add: same_meta_def)
  moreover have "log_room s' = log_room s - length (e # es)" using s'(6) by (simp add: room_def)
  ultimately show ?case
    using s'(1,2,4,5) enqueue_ok(1) [OF Cons.prems(1) rm, of k d] by (simp add: e seq_Inr)
qed (simp add: same_meta_def)

text \<open>The record with the schemas that an INSERT into an auto-increment table writes is encoded.\<close>

definition schemas_writable :: "engine_env \<Rightarrow> engine \<Rightarrow> str \<Rightarrow> table_schema \<Rightarrow> bool" where
  "schemas_writable E s tbl sc \<longleftrightarrow> (\<forall>i. \<exists>sb rb. ser_schemas E (AList.update tbl sc (schemas s)) = Some sb
     \<and> ser_record E \<lparr>rec_value = sb, version = current_version s, is_deleted = False,
         timestamp = clock_seconds E i\<rparr> = Some rb)"

lemma inserted_length: "inserted E tbl sc ver rows nid n = Some kvs \<Longrightarrow> length kvs = length rows"
  by (induction rows arbitrary: nid n kvs) (auto simp: bind_eq_Some_conv)

lemma handle_insert_ok:
  assumes "stored E s t" and "tx_of c s = None" and "map_of (schemas s) tbl = Some sc"
    and "query_body q = Values rows"
    and "inserted E tbl sc (current_version s) rows (next_id sc) (ticks s) = Some kvs"
    and "room_for (length rows) (tier s)" and "length rows * Suc (length (indices s)) < log_room s"
    and "schemas_writable E s tbl (sc\<lparr>next_id := (id_after sc ^^ length rows) (next_id sc)\<rparr>)"
    and "distinct (map fst kvs)" and "fst ` set kvs \<inter> fst ` set (cached_entries s) = {}"
  shows "\<exists>s'. handle_insert E tbl q c s = Some (Inr (''Inserted '' @ show_nat (length rows) @ '' rows''), s')
    \<and> stored E s' t \<and> cached_entries s' = cached_entries s @ kvs \<and> current_version s' = current_version s
    \<and> schemas s' = AList.update tbl (sc\<lparr>next_id := (id_after sc ^^ length rows) (next_id sc)\<rparr>) (schemas s)
    \<and> indices s' = indices s \<and> active_transactions s' = active_transactions s
    \<and> spent (Suc (length rows * Suc (length (indices s)))) s s' \<and> ticks s + 3 * length rows \<le> ticks s'"
proof -
  let ?nid = "(id_after sc ^^ length rows) (next_id sc)"
  obtain es s1 where s1: "insert_rows E c tbl sc rows (next_id sc) s = Some (Inr (?nid, es), s1)"
    "stored E s1 t" "same_meta s s1" "cached_entries s1 = cached_entries s @ kvs"
    "log_queue s1 = log_queue s" "length es \<le> length rows * Suc (length (indices s))"
    "ticks s1 = ticks s + 3 * length rows" "max_ram_mb (tier s1) = max_ram_mb (tier s)"
    using insert_rows_ok [OF assms(1,2,5,6,9,10)] by blast
  then have "length es < log_room s1" using assms(7) by (simp add: room_def)
  then obtain s2 where s2: "for_each es (\<lambda>(k, d). enqueue E k d) s1 = Some (Inr (), s2)" "stored E s2 t"
    "same_meta s1 s2" "tier s2 = tier s1" "log_room s2 = log_room s1 - length es" "ticks s2 = ticks s1"
    using enqueues_ok [OF s1(2), of es] by auto
  have rm: "0 < log_room s2" using s2(5) \<open>length es < log_room s1\<close> by simp
  let ?upd = "if ?nid \<noteq> next_id sc then
      seq (modify_st (\<lambda>s. s\<lparr>schemas := AList.update tbl (sc\<lparr>next_id := ?nid\<rparr>) (schemas s)\<rparr>)) (\<lambda>_.
      seq (schemas_record E) (\<lambda>data. enqueue E schemas_key data)) else ret ()"
  have ms: "schemas s2 = schemas s" using s1(3) s2(3) by (simp add: same_meta_def)
  have "\<exists>s3. ?upd s2 = Some (Inr (), s3) \<and> stored E s3 t \<and> tier s3 = tier s2
      \<and> current_version s3 = current_version s2 \<and> indices s3 = indices s2
      \<and> active_transactions s3 = active_transactions s2 \<and> ticks s2 \<le> ticks s3 \<and> ticks s3 \<le> Suc (ticks s2)
      \<and> log_room s2 \<le> Suc (log_room s3)
      \<and> schemas s3 = AList.update tbl (sc\<lparr>next_id := ?nid\<rparr>) (schemas s)"
  proof (cases "?nid \<noteq> next_id sc")
    case True
    obtain sb rb where b: "ser_schemas E (AList.update tbl (sc\<lparr>next_id := ?nid\<rparr>) (schemas s)) = Some sb"
      "ser_record E \<lparr>rec_value = sb, version = current_version s, is_deleted = False,
         timestamp = clock_seconds E (ticks s2)\<rparr> = Some rb"
      using assms(8) unfolding schemas_writable_def by meson
    let ?s = "ticks_update Suc (s2\<lparr>schemas := AList.update tbl (sc\<lparr>next_id := ?nid\<rparr>) (schemas s2)\<rparr>)"
    have st: "stored E ?s t" by (rule stored_tree [OF s2(2)]) simp
    have "enqueue E schemas_key rb ?s = Some (Inr (), queued [RecordUpdate schemas_key rb] ?s)"
      "stored E (queued [RecordUpdate schemas_key rb] ?s) t"
      using rm by (intro enqueue_ok [OF st]; simp)+
    moreover have "schemas s2 = schemas s" "current_version s2 = current_version s"
      using s1(3) s2(3) by (simp_all add: same_meta_def)
    ultimately show ?thesis using True b
      by (intro exI [of _ "queued [RecordUpdate schemas_key rb] ?s"])
        (simp add: schemas_record_def seq_assoc room_def)
  next
    case False
    then have "sc\<lparr>next_id := ?nid\<rparr> = sc" by simp
    then show ?thesis using s2(2) False update_same [OF assms(3)] by (simp add: ms)
  qed
  then obtain s3 where s3: "?upd s2 = Some (Inr (), s3)" "stored E s3 t" "tier s3 = tier s2"
    "current_version s3 = current_version s2" "indices s3 = indices s2"
    "active_transactions s3 = active_transactions s2" "ticks s2 \<le> ticks s3" "ticks s3 \<le> Suc (ticks s2)"
    "log_room s2 \<le> Suc (log_room s3)"
    "schemas s3 = AList.update tbl (sc\<lparr>next_id := ?nid\<rparr>) (schemas s)" by blast
  obtain s4 where s4: "flush E s3 = Some (Inr (), s4)" "stored E s4 t" "same_but_log s3 s4"
    "suffix (log_queue s4) (log_queue s3)"
    by (rule flush_ok [OF s3(2)])
  have "handle_insert E tbl q c s = Some (Inr (''Inserted '' @ show_nat (length rows) @ '' rows''), s4)"
    using assms(3,4) s1(1) s2(1) s3(1) s4(1) by (simp add: handle_insert_def seq_Inr)
  moreover have "tier s4 = tier s1" "current_version s4 = current_version s"
    using s4(3) s3(3,4) s2(3,4) s1(3) by (auto simp: same_but_log_def same_meta_def)
  moreover have "schemas s4 = schemas s3" "indices s4 = indices s" "active_transactions s4 = active_transactions s"
    using s4(3) s3(5,6) s2(3) s1(3) by (auto simp: same_but_log_def same_meta_def)
  moreover have "length kvs = length rows" by (rule inserted_length [OF assms(5)])
  then have "spent (length rows * Suc (length (indices s)) + 1) s s3"
    using s1(4-8) s2(4-6) s3(3,7-9) by (simp add: spent_def room_def)
  then have "spent (length rows * Suc (length (indices s)) + 1 + 0) s s4"
    by (rule spent_trans [OF _ flush_spent [OF s4(3,4)]])
  moreover have "ticks s + 3 * length rows \<le> ticks s4"
    using same_but_log_meta [OF s4(3)] s3(7) s2(6) s1(7) by simp
  ultimately show ?thesis using s4(2) s1(4) s3(10) by (intro exI [of _ s4]) simp
qed

section \<open>INSERT and scan\<close>

lemma shown_mono: "shown E tbl ver cs \<subseteq> shown E tbl ver (cs @ kvs)"
  by (auto simp: shown_def)

lemma fresh_shown:
  assumes "fst ` set kvs \<inter> fst ` set es = {}"
  shows "filter (\<lambda>kv. fst kv \<notin> shown E tbl ver (cs @ kvs)) es = filter (\<lambda>kv. fst kv \<notin> shown E tbl ver cs) es"
proof (rule filter_cong [OF refl])
  fix kv assume "kv \<in> set es"
  with assms have "fst kv \<notin> fst ` set kvs" by auto
  then show "fst kv \<notin> shown E tbl ver (cs @ kvs) \<longleftrightarrow> fst kv \<notin> shown E tbl ver cs"
    by (auto simp: shown_def)
qed

text \<open>
  C2 (engine, INSERT and scan): on a stored database with room, outside a transaction and with
  fresh random keys, INSERT into a known table returns the number of rows, and a scan of the
  table then shows the rows it showed before together with exactly the inserted ones, with
  their auto-increment ids.
\<close>

theorem insert_then_scan:
  assumes "stored E s t" and "tx_of c s = None" and "map_of (schemas s) tbl = Some sc"
    and "query_body q = Values rows" and "record_codec E" and "row_codec E" and "ascii tbl"
    and "inserted E tbl sc (current_version s) rows (next_id sc) (ticks s) = Some kvs"
    and "room_for (length rows) (tier s)" and "length rows * Suc (length (indices s)) < log_room s"
    and "schemas_writable E s tbl (sc\<lparr>next_id := (id_after sc ^^ length rows) (next_id sc)\<rparr>)"
    and "distinct (map fst kvs)"
    and "fst ` set kvs \<inter> (fst ` set (cached_entries s) \<union> fst ` set (entries t)) = {}"
    and "table_readable E tbl (current_version s) (cached_entries s) (entries t)"
  shows "\<exists>before s0 s' after s''. scan_table E tbl (current_version s) s = Some (Inr before, s0)
    \<and> handle_insert E tbl q c s = Some (Inr (''Inserted '' @ show_nat (length rows) @ '' rows''), s')
    \<and> scan_table E tbl (current_version s') s' = Some (Inr after, s'')
    \<and> mset after = mset before + mset (new_rows E tbl sc rows (next_id sc) (ticks s))"
proof -
  let ?ver = "current_version s"
  have fresh: "fst ` set kvs \<inter> fst ` set (cached_entries s) = {}" "fst ` set kvs \<inter> fst ` set (entries t) = {}"
    using assms(13) by auto
  obtain s0 where s0: "scan_table E tbl ?ver s = Some (Inr (table_rows E tbl ?ver (cached_entries s) (entries t)), s0)"
    by (rule table_scan_sim [OF assms(1,14)])
  obtain s' where s': "handle_insert E tbl q c s = Some (Inr (''Inserted '' @ show_nat (length rows) @ '' rows''), s')"
    "stored E s' t" "cached_entries s' = cached_entries s @ kvs" "current_version s' = ?ver"
    using handle_insert_ok [OF assms(1-4,8-12) fresh(1)] by blast
  have new: "rows_of E tbl ?ver kvs = new_rows E tbl sc rows (next_id sc) (ticks s)"
    "\<forall>kv \<in> set kvs. readable E tbl ?ver kv"
    using inserted_rows [OF assms(5-8)] by auto
  have "table_readable E tbl ?ver (cached_entries s') (entries t)"
    using assms(14) new(2) shown_mono [of E tbl ?ver "cached_entries s" kvs]
    by (auto simp: table_readable_def s'(3))
  then obtain s'' where s'': "scan_table E tbl ?ver s'
      = Some (Inr (table_rows E tbl ?ver (cached_entries s') (entries t)), s'')"
    using table_scan_sim [OF s'(2)] by blast
  have "mset (table_rows E tbl ?ver (cached_entries s') (entries t))
      = mset (table_rows E tbl ?ver (cached_entries s) (entries t)) + mset (new_rows E tbl sc rows (next_id sc) (ticks s))"
    unfolding table_rows_def s'(3) map_filter_append fresh_shown [OF fresh(2)] new(1) by simp
  with s0 s'(1,4) s'' show ?thesis by auto
qed

end
