(* ===== verification/Engine_Samples.thy ===== *)
theory Engine_Samples
  imports Engine_Insert
begin

text \<open>
  A concrete environment for the engine, with a bincode of the documented layout on records,
  rows and schemas, and small databases on which the theorems on the engine are applied.
\<close>

section \<open>Bincode on records and rows\<close>

definition record_ok :: "db_record \<Rightarrow> bool" where
  "record_ok r \<longleftrightarrow> vec_ok (rec_value r) \<and> i64_ok (timestamp r)"

definition put_rec :: "db_record \<Rightarrow> bytes" where
  "put_rec r = put_vec (rec_value r) @ put_word 8 (version r) @ [if is_deleted r then 1 else 0]
     @ put_i64 (timestamp r)"

definition get_rec :: "bytes \<Rightarrow> (db_record \<times> bytes) option" where
  "get_rec bs = Option.bind (get_vec bs) (\<lambda>(v, r). Option.bind (get_word 8 r) (\<lambda>(ver, r).
     case r of [] \<Rightarrow> None
     | b # r \<Rightarrow> if 1 < b then None else map_option (\<lambda>(ts, r).
         (\<lparr>rec_value = v, version = ver, is_deleted = (b = 1), timestamp = ts\<rparr>, r)) (get_i64 r)))"

interpretation record_codec: codec record_ok put_rec get_rec
  by unfold_locales
    (simp add: record_ok_def put_rec_def get_rec_def vec_codec.get_put u64_codec.get_put i64_codec.get_put)

definition text_ok :: "str \<Rightarrow> bool" where
  "text_ok s \<longleftrightarrow> vec_ok s"

definition put_text :: "str \<Rightarrow> bytes" where
  "put_text s = put_vec (to_bytes_of s)"

definition get_text :: "bytes \<Rightarrow> (str \<times> bytes) option" where
  "get_text bs = map_option (\<lambda>(b, r). (text_of b, r)) (get_vec bs)"

lemma length_to_bytes [simp]: "length (to_bytes_of s) = length s"
  by (simp add: to_bytes_of_def)

interpretation text_codec: codec text_ok put_text get_text
  by unfold_locales (simp add: text_ok_def put_text_def get_text_def vec_codec.get_put vec_ok_def)

definition pair_ok :: "str \<times> str \<Rightarrow> bool" where
  "pair_ok p \<longleftrightarrow> text_ok (fst p) \<and> text_ok (snd p)"

definition put_pair :: "str \<times> str \<Rightarrow> bytes" where
  "put_pair p = put_text (fst p) @ put_text (snd p)"

definition get_pair :: "bytes \<Rightarrow> ((str \<times> str) \<times> bytes) option" where
  "get_pair bs = Option.bind (get_text bs) (\<lambda>(k, r). map_option (\<lambda>(v, r). ((k, v), r)) (get_text r))"

interpretation pair_codec: codec pair_ok put_pair get_pair
  by unfold_locales (simp add: pair_ok_def put_pair_def get_pair_def text_codec.get_put)

definition row_ok :: "row \<Rightarrow> bool" where
  "row_ok r \<longleftrightarrow> vec_ok r \<and> (\<forall>p \<in> set r. pair_ok p)"

definition put_schema :: "str \<times> table_schema \<Rightarrow> bytes" where
  "put_schema p = (case p of (n, sc) \<Rightarrow> put_text n @ put_text (schema_name sc) @ put_list put_text (columns sc)
     @ (case auto_increment_col sc of None \<Rightarrow> [0] | Some a \<Rightarrow> 1 # put_text a) @ put_word 8 (next_id sc))"

definition get_schema_entry :: "bytes \<Rightarrow> ((str \<times> table_schema) \<times> bytes) option" where
  "get_schema_entry bs = Option.bind (get_text bs) (\<lambda>(n, r). Option.bind (get_text r) (\<lambda>(sn, r).
     Option.bind (get_list get_text r) (\<lambda>(cs, r).
     Option.bind (case r of [] \<Rightarrow> None | b # r \<Rightarrow> if b = 0 then Some (None, r)
         else map_option (\<lambda>(a, r). (Some a, r)) (get_text r)) (\<lambda>(ai, r).
     map_option (\<lambda>(i, r). ((n, \<lparr>schema_name = sn, columns = cs, auto_increment_col = ai, next_id = i\<rparr>), r))
       (get_word 8 r)))))"

section \<open>The environment\<close>

definition sample_engine_env :: engine_env where
  "sample_engine_env = \<lparr>
     show_value = (\<lambda>v. case v of Number n \<Rightarrow> n | SingleQuotedString s \<Rightarrow> [CHR 0x27] @ s @ [CHR 0x27]
       | Other_value s \<Rightarrow> s),
     show_expr = (\<lambda>e. case e of Identifier i \<Rightarrow> i | Value (Number n) \<Rightarrow> n
       | Value (SingleQuotedString s) \<Rightarrow> s | Other_expr s \<Rightarrow> s | _ \<Rightarrow> []),
     show_statement = (\<lambda>st. case st of Explain s \<Rightarrow> ''EXPLAIN '' @ s | _ \<Rightarrow> ''STATEMENT''),
     benv = sample_tree_env,
     ser_record = (\<lambda>r. if record_ok r then Some (put_rec r) else None),
     de_record = (\<lambda>b. map_option fst (get_rec b)),
     ser_row = (\<lambda>r. if row_ok r then Some (put_list put_pair r) else None),
     de_row = (\<lambda>b. map_option fst (get_list get_pair b)),
     ser_schemas = (\<lambda>m. if vec_ok (put_list put_schema m) then Some (put_list put_schema m) else None),
     de_schemas = (\<lambda>b. map_option fst (get_list get_schema_entry b)),
     de_version = (\<lambda>b. map_option fst (get_word 8 b)),
     parse_sql = (\<lambda>s. Inl (Msg s)), other_upper = (\<lambda>s. s),
     read_module = (\<lambda>_. None), wasm_main = (\<lambda>_. Inl Bincode_error),
     error_text = (\<lambda>_. []), clock_micros = int, clock_nanos = int, clock_seconds = (\<lambda>_. 0), random_id = of_nat,
     parse_f64 = (\<lambda>_. None), f64_of_nat = of_nat, f64_sum = sum_list, f64_div = (\<lambda>x _. x),
     f64_min = min, f64_max = max, f64_infinity = - 1, f64_neg_infinity = 0, f64_zero = 0,
     show_f64 = (\<lambda>x. show_nat (unat x))\<rparr>"

abbreviation SE :: engine_env where
  "SE \<equiv> sample_engine_env"

lemma benv_SE [simp]: "benv SE = sample_tree_env"
  by (simp add: sample_engine_env_def)

lemma record_codec_SE [simp]: "record_codec SE"
  using record_codec.get_put [where rest = "[]"] by (auto simp: record_codec_def sample_engine_env_def split: if_splits)

lemma row_codec_SE [simp]: "row_codec SE"
  using pair_codec.get_list_put [where rest = "[]"]
  by (auto simp: row_codec_def row_ok_def sample_engine_env_def split: if_splits)

lemma ser_record_SE: "record_ok r \<Longrightarrow> ser_record SE r = Some (put_rec r)"
  by (simp add: sample_engine_env_def)

lemma de_record_SE [simp]: "record_ok r \<Longrightarrow> de_record SE (put_rec r) = Some r"
  using record_codec_SE ser_record_SE by (simp add: record_codec_def)

lemma ser_row_SE: "row_ok r \<Longrightarrow> ser_row SE r = Some (put_list put_pair r)"
  by (simp add: sample_engine_env_def)

lemma de_row_SE [simp]: "row_ok r \<Longrightarrow> de_row SE (put_list put_pair r) = Some r"
  using row_codec_SE ser_row_SE by (simp add: row_codec_def)

lemma clocks_SE [simp]: "clock_seconds SE n = 0" "random_id SE n = of_nat n"
  by (simp_all add: sample_engine_env_def)

lemma i64_ok_0 [simp]: "i64_ok 0"
  by (simp add: i64_ok_def)

lemma writable_SE: "record_ok r \<Longrightarrow> writable SE r"
  by (simp add: writable_def sample_engine_env_def record_ok_def)

section \<open>Small databases\<close>

lemma sample_empty:
  obtains b where "stored SE (fresh_engine b) empty_tree" and "memory_tier b = mt_new 64" and "room b = QUEUE_CAP"
proof -
  obtain b where b: "memory_tier b = mt_new 64" "tree_rep sample_tree_env (bt_pager b) b empty_tree" "room b = QUEUE_CAP"
    by (rule sample_open)
  then have "stored SE (fresh_engine b) empty_tree"
    by (auto simp: stored_def fresh_engine_def chain_ok_def)
  with b that show ?thesis by blast
qed

text \<open>A database whose tree holds one entry.\<close>

lemma sample_one:
  assumes "length k \<le> 1000" and "length v \<le> 1000"
  obtains b where "stored SE (fresh_engine b) (PLeaf 0 [k] [v] None)" and "memory_tier b = mt_new 64"
    and "1000 \<le> room b"
proof -
  obtain s where s: "memory_tier s = mt_new 64" "tree_rep sample_tree_env (bt_pager s) s empty_tree"
    "pages s = 1" "room s = QUEUE_CAP"
    by (rule sample_open)
  have "insert_room empty_tree \<le> room s" using s(4) by (simp add: insert_room_def QUEUE_CAP_def)
  with insert_full_sim [OF s(2), of k v "PLeaf 0 [k] [v] None" 1] sample_insert_one(1) [of k]
    sample_insert_one(2) [OF assms(2,1)] s
  obtain b where b: "tree_rep sample_tree_env (bt_pager s) b (PLeaf 0 [k] [v] None)"
    "room s - insert_room empty_tree \<le> room b" "frame_of b = frame_of s"
    by fastforce
  have "1000 \<le> room b" using b(2) s(4) by (simp add: insert_room_def QUEUE_CAP_def)
  moreover have "memory_tier b = mt_new 64" using b(3) s(1) by (simp add: frame_of_def)
  moreover have "stored SE (fresh_engine b) (PLeaf 0 [k] [v] None)"
    using b(1) calculation(2) by (auto simp: stored_def fresh_engine_def chain_ok_def)
  ultimately show ?thesis using that by blast
qed

lemma tier_fresh [simp]: "tier (fresh_engine b) = memory_tier b" "tree (fresh_engine b) = b"
  "current_version (fresh_engine b) = 0" "active_transactions (fresh_engine b) = []"
  "schemas (fresh_engine b) = []" "indices (fresh_engine b) = []" "ticks (fresh_engine b) = 0"
  by (simp_all add: fresh_engine_def)

lemma room_new: "n \<le> 100 \<Longrightarrow> room_for n (mt_new 64)"
  by (simp add: room_for_def mt_new_def mt_max_bytes_def)

text \<open>A live record of table \<open>t\<close> with one column \<open>a\<close>.\<close>

definition one_row :: row where
  "one_row = [(''a'', ''5'')]"

definition one_record :: db_record where
  "one_record = \<lparr>rec_value = put_list put_pair one_row, version = 0, is_deleted = False, timestamp = 0\<rparr>"

definition one_key :: bytes where
  "one_key = row_key ''t'' 7"

lemma one_row_ok [simp]: "row_ok one_row"
  by (simp add: row_ok_def one_row_def vec_ok_def pair_ok_def text_ok_def)

lemma length_le_bytes_8: "length (le_bytes 8 n) = 8"
  by simp

lemma length_one: "length (put_list put_pair one_row) = 26"
  by (simp add: put_list_def one_row_def put_pair_def put_text_def put_vec_def)

lemma one_record_ok [simp]: "record_ok one_record"
  using length_one by (simp add: record_ok_def one_record_def vec_ok_def)

lemma length_one_record: "length (put_rec one_record) = 51"
  using length_one by (simp add: put_rec_def one_record_def put_vec_def put_word_def put_i64_def)

lemma length_one_key: "length one_key = 18"
  by (simp add: one_key_def row_key_def hex16_def)

lemma one_key_text: "from_utf8_lossy one_key = ''t:'' @ hex16 7" "in_table ''t'' one_key"
  using row_key_text [of "''t''" 7] by (simp_all add: one_key_def ascii_def)

definition shown_row :: row where
  "shown_row = make_row ''t'' (''t:'' @ hex16 7) one_row"

lemma one_visible: "visible_row SE ''t'' ver one_key (put_rec one_record) = Inr (Some shown_row)"
  using de_row_SE [OF one_row_ok]
  by (simp add: visible_row_def visible_def one_key_text shown_row_def del: de_row_SE)
    (simp add: one_record_def one_key_text)

lemma one_row_of: "row_of SE ''t'' ver (one_key, put_rec one_record) = Some shown_row"
  "readable SE ''t'' ver (one_key, put_rec one_record)"
  by (simp_all add: row_of_def readable_def one_visible one_key_text)

lemma one_key_ok: "key_ok SE ''t'' ver (one_key, put_rec one_record)"
proof -
  have "map_of shown_row ''__key__'' = Some (''t:'' @ hex16 7)"
    by (simp add: shown_row_def make_row_def one_row_def)
  moreover have "to_bytes_of (''t:'' @ hex16 7) = one_key" by (simp add: one_key_def row_key_def)
  ultimately show ?thesis unfolding key_ok_def one_row_of by auto
qed

lemma sample_row:
  obtains b where "stored SE (fresh_engine b) (PLeaf 0 [one_key] [put_rec one_record] None)"
    and "memory_tier b = mt_new 64" and "1000 \<le> room b"
  using sample_one [of one_key "put_rec one_record"] length_one_key length_one_record by auto

abbreviation one_tree :: ptree where
  "one_tree \<equiv> PLeaf 0 [one_key] [put_rec one_record] None"

section \<open>Scans and writes outside a transaction\<close>

lemma show_small [simp]: "show_nat (Suc 0) = ''1''" "show_nat (Suc (Suc 0)) = ''2''" "show_nat 1 = ''1''" "show_nat 2 = ''2''"
  by code_simp+

lemma one_tree_rows:
  assumes "cached_entries s = []"
  shows "table_readable SE ''t'' ver (cached_entries s) (entries one_tree)"
    and "table_rows SE ''t'' ver (cached_entries s) (entries one_tree) = [shown_row]"
    and "target_keys SE ''t'' ver None (cached_entries s) (entries one_tree) = [one_key]"
  using assms
  by (simp_all add: table_readable_def table_rows_def shown_def one_row_of List.map_filter_simps
      target_keys_def selected_def meets_def)

lemma sample_cache: "memory_tier b = mt_new 64 \<Longrightarrow> cached_entries (fresh_engine b) = []"
  by (simp add: mt_new_def)

theorem scan_table_spec_witness:
  "\<exists>b s'. memory_tier b = mt_new 64 \<and> scan_table SE ''t'' 0 (fresh_engine b) = Some (Inr [shown_row], s')"
proof -
  obtain b where b: "stored SE (fresh_engine b) one_tree" "memory_tier b = mt_new 64"
    by (rule sample_row)
  note rows = one_tree_rows [OF sample_cache [OF b(2)]]
  from scan_table_spec [OF b(1), of "''t''" 0] rows b(2) show ?thesis
    by (auto simp del: entries.simps)
qed

lemma sample_ready:
  assumes b: "stored SE (fresh_engine b) one_tree" "memory_tier b = mt_new 64" "1000 \<le> room b"
    and ch: "\<exists>r'. change one_record = Some r' \<and> record_ok r'"
  shows "ready_to_write SE 1 ''t'' None change (fresh_engine b) one_tree [one_key]"
proof -
  note rows = one_tree_rows [OF sample_cache [OF b(2)]]
  have "mt_lookup (tier (fresh_engine b)) one_key = None" by (simp add: b(2))
  then have "current_data (fresh_engine b) one_tree one_key = Some (put_rec one_record)"
    by (simp add: current_data_def)
  moreover have "unindexed SE (fresh_engine b) one_tree ''t'' None" by (simp add: unindexed_def index_probe_def)
  moreover have "\<forall>kv \<in> set (cached_entries (fresh_engine b)) \<union> set (entries one_tree). key_ok SE ''t'' 0 kv"
    using sample_cache [OF b(2)] one_key_ok by simp
  moreover have "room_for (length [one_key]) (tier (fresh_engine b))" using room_new [of 1] b(2) by simp
  ultimately show ?thesis
    using b rows(1,3) ch writable_SE
    by (auto simp: ready_to_write_def tx_of_def simp del: entries.simps)
qed

theorem delete_spec_witness:
  "\<exists>b s'. memory_tier b = mt_new 64
    \<and> handle_delete SE ''t'' None 1 (fresh_engine b) = Some (Inr ''Deleted 1 rows'', s')
    \<and> current_version s' = 1"
proof -
  obtain b where b: "stored SE (fresh_engine b) one_tree" "memory_tier b = mt_new 64" "1000 \<le> room b"
    by (rule sample_row)
  have "ready_to_write SE 1 ''t'' None (deleted_record (current_version (fresh_engine b))) (fresh_engine b)
      one_tree [one_key]"
    by (rule sample_ready [OF b]) (simp add: deleted_record_def record_ok_def one_record_ok [unfolded record_ok_def])
  from delete_spec [OF this] b(2) show ?thesis
    by (auto simp: written_def)
qed

lemma two_column_row: "row_ok [(''a'', ''6'')]"
  by (simp add: row_ok_def vec_ok_def pair_ok_def text_ok_def)

lemma length_two: "length (put_list put_pair [(''a'', ''6'')]) = 26"
  by (simp add: put_list_def put_pair_def put_text_def put_vec_def)

theorem update_spec_witness:
  "\<exists>b s'. memory_tier b = mt_new 64
    \<and> handle_update SE ''t'' [(''a'', Value (Number ''6''))] None 1 (fresh_engine b)
      = Some (Inr ''Updated 1 rows'', s')
    \<and> (\<exists>d r. mt_lookup (tier s') one_key = Some d \<and> de_record SE d = Some r
        \<and> de_row SE (rec_value r) = Some [(''a'', ''6'')])"
proof -
  obtain b where b: "stored SE (fresh_engine b) one_tree" "memory_tier b = mt_new 64" "1000 \<le> room b"
    by (rule sample_row)
  let ?asg = "[(''a'', Value (Number ''6''))]"
  have "assign SE ?asg one_row = [(''a'', ''6'')]"
    by (simp add: assign_def one_row_def sample_engine_env_def unquote_def)
  then have ch: "updated_record SE ?asg 0 one_record
      = Some (one_record\<lparr>rec_value := put_list put_pair [(''a'', ''6'')], version := 1\<rparr>)"
    by (simp add: updated_record_def one_record_def ser_row_SE two_column_row)
  then have "ready_to_write SE 1 ''t'' None (updated_record SE ?asg (current_version (fresh_engine b)))
      (fresh_engine b) one_tree [one_key]"
    by (intro sample_ready [OF b])
      (simp add: record_ok_def vec_ok_def length_two, simp add: one_record_def)
  from update_spec [OF this] obtain s' where
    s': "handle_update SE ''t'' ?asg None 1 (fresh_engine b) = Some (Inr ''Updated 1 rows'', s')"
    "written SE (updated_record SE ?asg 0) (fresh_engine b) one_tree [one_key] s'"
    by auto
  then obtain d r r' e where "current_data (fresh_engine b) one_tree one_key = Some d" "de_record SE d = Some r"
    "updated_record SE ?asg 0 r = Some r'" "mt_lookup (tier s') one_key = Some e"
    "de_record SE e = Some (r'\<lparr>version := 1\<rparr>)"
    unfolding written_def by auto
  moreover from this b(2) have "r = one_record" by (auto simp: current_data_def)
  ultimately show ?thesis
    using s'(1) b(2) ch two_column_row by (auto simp: de_row_SE)
qed

text \<open>The row comes back: it was in the tree when it was deleted.\<close>

theorem delete_then_scan_witness:
  "\<exists>b m s' s''. memory_tier b = mt_new 64
    \<and> handle_delete SE ''t'' None 1 (fresh_engine b) = Some (Inr m, s')
    \<and> scan_table SE ''t'' (current_version s') s' = Some (Inr [shown_row], s'')"
proof -
  obtain b where b: "stored SE (fresh_engine b) one_tree" "memory_tier b = mt_new 64" "1000 \<le> room b"
    by (rule sample_row)
  have rd: "ready_to_write SE 1 ''t'' None (deleted_record (current_version (fresh_engine b))) (fresh_engine b)
      one_tree [one_key]"
    by (rule sample_ready [OF b]) (simp add: deleted_record_def record_ok_def one_record_ok [unfolded record_ok_def])
  have "table_current SE ''t'' (fresh_engine b)" using sample_cache [OF b(2)] by (simp add: table_current_def)
  moreover have "readable SE ''t'' ver kv" if "kv \<in> set (entries one_tree)" for ver kv
    using that one_row_of by simp
  moreover have "rows_of SE ''t'' ver (entries one_tree) = [shown_row]" for ver
    by (simp add: one_row_of List.map_filter_simps)
  ultimately show ?thesis using delete_then_scan [OF rd] b(2) by (simp del: entries.simps) blast
qed

section \<open>INSERT\<close>

definition sample_schema :: table_schema where
  "sample_schema = \<lparr>schema_name = ''t'', columns = [''id'', ''a''], auto_increment_col = Some ''id'', next_id = 1\<rparr>"

definition sample_values :: "expr list list" where
  "sample_values = [[Value (Number ''5'')], [Value (SingleQuotedString ''x'')]]"

lemma sample_row_data:
  "insert_row_data sample_schema 1 [Value (Number ''5'')] = [(''id'', ''1''), (''a'', ''5'')]"
  "insert_row_data sample_schema 2 [Value (SingleQuotedString ''x'')] = [(''id'', ''2''), (''a'', ''x'')]"
  by (simp_all add: insert_row_data_def sample_schema_def insert_value_def)

lemma hex16_last: "hex16 w ! 15 = digit_char (unat w mod 16)"
  by (simp add: hex16_def)

lemma sample_hex: "hex16 0 \<noteq> hex16 3" "hex16 0 \<noteq> hex16 7" "hex16 3 \<noteq> hex16 7"
proof -
  have "digit_char 0 \<noteq> digit_char 3" "digit_char 0 \<noteq> digit_char 7" "digit_char 3 \<noteq> digit_char 7"
    by code_simp+
  then have "hex16 0 ! 15 \<noteq> hex16 3 ! 15" "hex16 0 ! 15 \<noteq> hex16 7 ! 15" "hex16 3 ! 15 \<noteq> hex16 7 ! 15"
    by (simp_all add: hex16_last)
  then show "hex16 0 \<noteq> hex16 3" "hex16 0 \<noteq> hex16 7" "hex16 3 \<noteq> hex16 7" by metis+
qed

lemma sample_rows_ok: "row_ok [(''id'', ''1''), (''a'', ''5'')]" "row_ok [(''id'', ''2''), (''a'', ''x'')]"
  by (simp_all add: row_ok_def vec_ok_def pair_ok_def text_ok_def)

lemma put_pairs_small: "\<forall>p \<in> set r. length (fst p) + length (snd p) \<le> 100 \<Longrightarrow> length r \<le> 100 \<Longrightarrow>
   length (put_list put_pair r) < 2 ^ 64"
proof -
  have "\<forall>p \<in> set r. length (fst p) + length (snd p) \<le> 100 \<Longrightarrow>
      length (concat (map put_pair r)) \<le> 116 * length r"
    by (induction r) (auto simp: put_pair_def put_text_def put_vec_def)
  then show "\<forall>p \<in> set r. length (fst p) + length (snd p) \<le> 100 \<Longrightarrow> length r \<le> 100 \<Longrightarrow> ?thesis"
    by (fastforce simp: put_list_def)
qed

lemma sample_schemas_size: "length (put_list put_schema [(''t'', sample_schema\<lparr>next_id := n\<rparr>)]) < 2 ^ 64"
  by (simp add: put_list_def put_schema_def sample_schema_def put_text_def put_vec_def put_word_def)

theorem insert_then_scan_witness:
  "\<exists>s before s0 s' after s''. scan_table SE ''t'' (current_version s) s = Some (Inr before, s0)
    \<and> handle_insert SE ''t'' \<lparr>query_body = Values sample_values, query_limit = None\<rparr> 1 s
      = Some (Inr ''Inserted 2 rows'', s')
    \<and> scan_table SE ''t'' (current_version s') s' = Some (Inr after, s'')
    \<and> mset after = mset before + {#
        make_row ''t'' (''t:'' @ hex16 0) [(''id'', ''1''), (''a'', ''5'')],
        make_row ''t'' (''t:'' @ hex16 3) [(''id'', ''2''), (''a'', ''x'')]#}"
proof -
  obtain b where b: "stored SE (fresh_engine b) one_tree" "memory_tier b = mt_new 64" "1000 \<le> room b"
    by (rule sample_row)
  let ?s = "(fresh_engine b)\<lparr>schemas := [(''t'', sample_schema)]\<rparr>"
  have st: "stored SE ?s one_tree" by (rule stored_tree [OF b(1)]) simp
  let ?r1 = "[(''id'', ''1''), (''a'', ''5'')]" and ?r2 = "[(''id'', ''2''), (''a'', ''x'')]"
  let ?rec = "\<lambda>r. \<lparr>rec_value = put_list put_pair r, version = 0, is_deleted = False, timestamp = 0\<rparr>"
  let ?kvs = "[(row_key ''t'' 0, put_rec (?rec ?r1)), (row_key ''t'' 3, put_rec (?rec ?r2))]"
  have rec: "record_ok (?rec ?r1)" "record_ok (?rec ?r2)"
    using put_pairs_small [of ?r1] put_pairs_small [of ?r2] by (simp_all add: record_ok_def vec_ok_def)
  have ai: "id_after sample_schema n = n + 1" for n by (simp add: id_after_def sample_schema_def)
  have ns: "next_id sample_schema = 1" by (simp add: sample_schema_def)
  have "inserted SE ''t'' sample_schema 0 sample_values 1 0 = Some ?kvs"
    using rec by (simp add: sample_values_def ai sample_row_data ser_row_SE sample_rows_ok ser_record_SE)
  moreover have "distinct (map fst ?kvs)"
    using sample_hex by (simp add: row_key_def inj_to_bytes)
  moreover have "fst ` set ?kvs \<inter> (fst ` set (cached_entries ?s) \<union> fst ` set (entries one_tree)) = {}"
    using sample_cache [OF b(2)] sample_hex by (simp add: one_key_def row_key_def inj_to_bytes)
  moreover have "table_readable SE ''t'' 0 (cached_entries ?s) (entries one_tree)"
    using sample_cache [OF b(2)] by (intro one_tree_rows) simp
  moreover have "schemas_writable SE ?s ''t'' (sample_schema\<lparr>next_id := 3\<rparr>)"
    using sample_schemas_size
    by (simp add: schemas_writable_def sample_engine_env_def record_ok_def vec_ok_def)
  moreover have "room_for (length sample_values) (tier ?s)"
    using room_new [of "Suc (Suc 0)"] b(2) by (simp add: sample_values_def)
  moreover have "new_rows SE ''t'' sample_schema sample_values 1 0
      = [make_row ''t'' (''t:'' @ hex16 0) ?r1, make_row ''t'' (''t:'' @ hex16 3) ?r2]"
    by (simp add: sample_values_def ai sample_row_data)
  moreover have "(id_after sample_schema ^^ length sample_values) 1 = 3"
    by (simp add: sample_values_def ai)
  moreover have "ascii ''t''" by (simp add: ascii_def)
  ultimately show ?thesis
    using insert_then_scan [OF st, of 1 "''t''" sample_schema
        "\<lparr>query_body = Values sample_values, query_limit = None\<rparr>" sample_values ?kvs] b ns
    by (intro exI [of _ ?s]) (simp add: tx_of_def sample_values_def)
qed

end
