(* ===== verification/Engine_Tx_Samples.thy ===== *)
theory Engine_Tx_Samples
  imports Engine_Samples
begin

text \<open>The theorems on transactions, applied on a database with one row and two open transactions.\<close>

definition sample_tx :: transaction where
  "sample_tx = \<lparr>tx_id = 0, snapshot_version = 0, updates = [(one_key, put_rec one_record)]\<rparr>"

definition two_tx :: "btree \<Rightarrow> engine" where
  "two_tx b = (fresh_engine b)\<lparr>active_transactions := [(1, sample_tx), (2, sample_tx)]\<rparr>"

lemma two_tx_simps [simp]: "tier (two_tx b) = memory_tier b" "tree (two_tx b) = b"
  "current_version (two_tx b) = 0" "tx_of 1 (two_tx b) = Some sample_tx" "tx_of 2 (two_tx b) = Some sample_tx"
  by (simp_all add: two_tx_def tx_of_def)

lemma sample_tx_simps [simp]: "updates sample_tx = [(one_key, put_rec one_record)]" "snapshot_version sample_tx = 0"
  by (simp_all add: sample_tx_def)

lemma one_version [simp]: "version one_record = 0"
  by (simp add: one_record_def)

lemma one_record_new: "record_ok (one_record\<lparr>version := ver\<rparr>)"
  using one_record_ok by (simp add: record_ok_def)

lemma sample_two:
  obtains b where "stored SE (two_tx b) one_tree" and "memory_tier b = mt_new 64" and "1000 \<le> room b"
    and "current_data (two_tx b) one_tree one_key = Some (put_rec one_record)"
proof -
  obtain b where b: "stored SE (fresh_engine b) one_tree" "memory_tier b = mt_new 64" "1000 \<le> room b"
    by (rule sample_row)
  have "stored SE (two_tx b) one_tree" by (rule stored_tree [OF b(1)]) simp
  moreover have "current_data (two_tx b) one_tree one_key = Some (put_rec one_record)"
    by (simp add: current_data_def b(2))
  ultimately show ?thesis using that b by blast
qed

lemma sample_commit:
  assumes "stored SE (two_tx b) one_tree" and "1000 \<le> room b"
    and "current_data (two_tx b) one_tree one_key = Some (put_rec one_record)"
  obtains s1 where "commit_tx SE 1 (two_tx b) = Some (Inr ''Transaction committed'', s1)" and "stored SE s1 one_tree"
proof -
  have "\<exists>s'. commit_tx SE 1 (two_tx b) = Some (Inr ''Transaction committed'', s') \<and> stored SE s' one_tree"
    using assms by (intro commit_ok [where tx = sample_tx]) (auto simp: ser_record_SE one_record_new)
  with that show ?thesis by blast
qed

theorem commit_succeeds_witness:
  "\<exists>b s1. memory_tier b = mt_new 64 \<and> commit_tx SE 1 (two_tx b) = Some (Inr ''Transaction committed'', s1)"
proof -
  obtain b where b: "stored SE (two_tx b) one_tree" "memory_tier b = mt_new 64" "1000 \<le> room b"
    "current_data (two_tx b) one_tree one_key = Some (put_rec one_record)" by (rule sample_two)
  have "\<exists>s'. commit_tx SE 1 (two_tx b) = Some (Inr ''Transaction committed'', s') \<and> stored SE s' one_tree"
    using b by (intro commit_succeeds [where tx = sample_tx]) (auto simp: ser_record_SE one_record_new)
  with b(2) show ?thesis by blast
qed

lemma sample_facts:
  assumes "memory_tier b = mt_new 64"
  shows "room_for (length (updates sample_tx)) (tier (two_tx b))" and "distinct (map fst (updates sample_tx))"
  using assms room_new [of 1] by simp_all

theorem commit_installs_witness:
  "\<exists>b s1. commit_tx SE 1 (two_tx b) = Some (Inr ''Transaction committed'', s1)
    \<and> current_version s1 = 1 \<and> tx_of 1 s1 = None
    \<and> mt_lookup (tier s1) one_key = Some (put_rec (one_record\<lparr>version := 1\<rparr>))"
proof -
  obtain b where b: "stored SE (two_tx b) one_tree" "memory_tier b = mt_new 64" "1000 \<le> room b"
    "current_data (two_tx b) one_tree one_key = Some (put_rec one_record)" by (rule sample_two)
  obtain s1 where s1: "commit_tx SE 1 (two_tx b) = Some (Inr ''Transaction committed'', s1)"
    by (rule sample_commit [OF b(1,3,4)])
  from commit_installs [OF s1 two_tx_simps(4) sample_facts [OF b(2)]] s1 show ?thesis
    by (auto simp: ser_record_SE one_record_new)
qed

lemma sample_committed:
  obtains b s1 where "memory_tier b = mt_new 64"
    and "commit_tx SE 1 (two_tx b) = Some (Inr ''Transaction committed'', s1)" and "stored SE s1 one_tree"
    and "mt_lookup (tier s1) one_key = Some (put_rec (one_record\<lparr>version := 1\<rparr>))"
    and "tx_of 2 s1 = Some sample_tx"
proof -
  obtain b where b: "stored SE (two_tx b) one_tree" "memory_tier b = mt_new 64" "1000 \<le> room b"
    "current_data (two_tx b) one_tree one_key = Some (put_rec one_record)" by (rule sample_two)
  obtain s1 where s1: "commit_tx SE 1 (two_tx b) = Some (Inr ''Transaction committed'', s1)" "stored SE s1 one_tree"
    by (rule sample_commit [OF b(1,3,4)])
  from commit_effect [OF s1(1) two_tx_simps(4) sample_facts [OF b(2)]] s1 b(2) that show ?thesis
    by (auto simp: ser_record_SE one_record_new)
qed

text \<open>The second commit returns, with the conflict.\<close>

lemma sample_second_commit:
  assumes "stored SE s1 one_tree" and "mt_lookup (tier s1) one_key = Some (put_rec (one_record\<lparr>version := 1\<rparr>))"
    and "tx_of 2 s1 = Some sample_tx"
  obtains e s2 where "commit_tx SE 2 s1 = Some (Inl e, s2)"
proof -
  let ?s = "s1\<lparr>active_transactions := AList.delete 2 (active_transactions s1)\<rparr>"
  have "stored SE ?s one_tree" by (rule stored_tree [OF assms(1)]) simp
  then obtain s2 where s2: "cached_else_stored SE one_key ?s = Some (Inr (current_data ?s one_tree one_key), s2)"
    by (rule cached_else_stored_ok)
  have "current_data ?s one_tree one_key = Some (put_rec (one_record\<lparr>version := 1\<rparr>))"
    using assms(2) by (simp add: current_data_def)
  with s2 have "occ_check SE 0 one_key ?s = Some (Inl (Msg ''Transaction conflict detected (OCC)''), s2)"
    by (simp add: occ_check_def seq_Inr one_record_new)
  with assms(3) show ?thesis
    by (intro that) (simp add: commit_tx_def drop_tx_def seq_Inl)
qed

theorem commit_conflict_witness:
  "\<exists>s1 e s2. tx_of 2 s1 = Some sample_tx \<and> commit_tx SE 2 s1 = Some (Inl e, s2) \<and> tx_of 2 s2 = None"
proof -
  obtain s1 where s1: "stored SE s1 one_tree"
    "mt_lookup (tier s1) one_key = Some (put_rec (one_record\<lparr>version := 1\<rparr>))" "tx_of 2 s1 = Some sample_tx"
    by (rule sample_committed)
  obtain e s2 where s2: "commit_tx SE 2 s1 = Some (Inl e, s2)" by (rule sample_second_commit [OF s1])
  have "de_record SE (put_rec (one_record\<lparr>version := 1\<rparr>)) = Some (one_record\<lparr>version := 1\<rparr>)"
    using one_record_new by simp
  from commit_conflict [OF s1(3) _ s1(2) this _ s2] s1(3) s2 show ?thesis by auto
qed


section \<open>Statements inside a transaction\<close>

lemma sample_tx_delete:
  assumes st: "stored SE s one_tree" and tx: "tx_of 1 s = Some x" "snapshot_version x = 0"
    and c: "cached_entries s = []"
  obtains s' where "handle_delete SE ''t'' None 1 s = Some (Inr ''Deleted 1 rows'', s')"
    and "stored SE s' one_tree"
proof -
  note rows = one_tree_rows [OF c]
  have ip: "index_lookup SE ''t'' 0 None s = Some (Inr None, s)"
    by (rule index_lookup_none) (simp add: index_probe_def)
  obtain s1 where s1: "scan_table_with_filter SE ''t'' 0 None s
      = Some (full_scan SE ''t'' 0 (cached_entries s @ entries one_tree), s1)" "stored SE s1 one_tree" "same_all s s1"
    by (rule scan_sim [OF st ip st])
  have fs: "full_scan SE ''t'' 0 (cached_entries s @ entries one_tree) = Inr [shown_row]"
    using full_scan_eq [OF stored_distinct [OF st]] rows by simp
  have ks: "selected_keys SE None [shown_row] = [one_key]"
    using target_keys [of "cached_entries s" "entries one_tree" SE "''t''" 0 None] rows(2,3) one_key_ok c
    by simp
  have v: "read_version 1 s = 0" using tx by (simp add: read_version_def)
  obtain s2 where s2: "cached_or_stored SE one_key s1 = Some (Inr (current_data s1 one_tree one_key), s2)"
    "stored SE s2 one_tree" "same_all s1 s2"
    by (rule cached_or_stored_ok [OF s1(2)])
  have cd: "current_data s1 one_tree one_key = Some (put_rec one_record)"
    unfolding same_all_data [OF s1(3)] using c by (simp add: current_data_def mt_lookup_def)
  have tx2: "tx_of 1 s2 = Some x" using tx(1) s1(3) s2(3) by (simp add: same_all_def tx_of_def)
  let ?r = "one_record\<lparr>is_deleted := True, version := 1\<rparr>"
  have rok: "record_ok ?r" using one_record_ok by (simp add: record_ok_def)
  let ?s = "s2\<lparr>active_transactions := AList.update 1 (x\<lparr>updates := AList.update one_key (put_rec ?r) (updates x)\<rparr>)
    (active_transactions s2)\<rparr>"
  have d: "delete_row SE 1 0 one_key s1 = Some (Inr (), ?s)"
    using s2(1) cd tx2 rok
    by (simp add: delete_row_def load_record_def seq_assoc seq_Inr put_record_def ser_record_SE stage_def)
  have "tx_of 1 ?s = Some (x\<lparr>updates := AList.update one_key (put_rec ?r) (updates x)\<rparr>)"
    by (simp add: tx_of_def AList.update_conv')
  then have "flush_outside_tx SE 1 ?s = Some (Inr (), ?s)" by (simp add: flush_outside_tx_def)
  with d s1(1) fs ks v have "handle_delete SE ''t'' None 1 s = Some (Inr ''Deleted 1 rows'', ?s)"
    by (simp add: handle_delete_def seq_Inr)
  moreover have "stored SE ?s one_tree" by (rule stored_tree [OF s2(2)]) simp
  ultimately show ?thesis by (rule that)
qed

definition sample_statements :: "statement list" where
  "sample_statements = [Delete [Table ''t''] None, Explain ''x'']"

lemma show_statement_SE [simp]:
  "show_statement SE (Delete a b) = ''STATEMENT''" "show_statement SE (Explain x) = ''EXPLAIN '' @ x"
  by (simp_all add: sample_engine_env_def)

lemma sample_statements_run:
  assumes "stored SE s one_tree" and "tx_of 1 s = Some x" and "snapshot_version x = 0" and "cached_entries s = []"
  obtains r s' where "run_statements SE sample_statements 1 s = Some (Inr r, s')"
proof -
  obtain s1 where s1: "handle_delete SE ''t'' None 1 s = Some (Inr ''Deleted 1 rows'', s1)"
    by (rule sample_tx_delete [OF assms])
  have "execute_statement SE (Delete [Table ''t''] None) 1 s = Some (Inr ''Deleted 1 rows'', s1)"
    using s1 by (simp add: execute_statement_def dispatch_def vec_get_def factor_table_def Let_def)
  then have d: "run_statement SE (Delete [Table ''t''] None) 1 0 s = Some (Inr ''Deleted 1 rows'', s1)"
    by (subst run_statement.simps) simp
  have "run_statement SE (Explain ''x'') 1 0 s1 = Some (Inr (explain_text ''x''), s1)"
    by (subst run_statement.simps) (simp add: execute_statement_def dispatch_def)
  with d have "run_statements SE sample_statements 1 s = Some (Inr [''Deleted 1 rows'', explain_text ''x''], s1)"
    by (simp add: sample_statements_def seq_Inr)
  then show ?thesis by (rule that)
qed

lemma sample_statements_rows: "\<forall>st \<in> set sample_statements. row_statement st"
  by (simp add: sample_statements_def row_statement_def)

theorem tx_writes_private_witness:
  "\<exists>b r s'. run_statements SE sample_statements 1 (two_tx b) = Some (Inr r, s')
    \<and> same_db (two_tx b) s' \<and> tx_of 2 s' = Some sample_tx"
proof -
  obtain b where b: "stored SE (two_tx b) one_tree" "memory_tier b = mt_new 64" "1000 \<le> room b"
    "current_data (two_tx b) one_tree one_key = Some (put_rec one_record)" by (rule sample_two)
  have "cached_entries (two_tx b) = []" by (simp add: b(2) mt_new_def)
  then obtain r s' where s': "run_statements SE sample_statements 1 (two_tx b) = Some (Inr r, s')"
    by (rule sample_statements_run [OF b(1) two_tx_simps(4) sample_tx_simps(2)])
  from tx_writes_private [OF two_tx_simps(4) sample_statements_rows s']
  have "same_db (two_tx b) s'" "tx_of 2 s' = Some sample_tx" by simp_all
  with s' show ?thesis by blast
qed

theorem rollback_discards_witness:
  "\<exists>b s1 r s2 s'. begin_tx SE 1 (fresh_engine b) = Some (Inr ''Transaction started'', s1)
    \<and> run_statements SE sample_statements 1 s1 = Some (Inr r, s2)
    \<and> rollback_tx 1 s2 = Some (Inr ''Transaction rolled back'', s')
    \<and> same_db (fresh_engine b) s' \<and> tx_of 1 s' = None"
proof -
  obtain b where b: "stored SE (fresh_engine b) one_tree" "memory_tier b = mt_new 64" "1000 \<le> room b"
    by (rule sample_row)
  let ?tx = "\<lparr>tx_id = of_int (clock_micros SE 0), snapshot_version = 0, updates = []\<rparr>"
  let ?s1 = "(ticks_update Suc (fresh_engine b))\<lparr>active_transactions := [(1, ?tx)]\<rparr>"
  have bg: "begin_tx SE 1 (fresh_engine b) = Some (Inr ''Transaction started'', ?s1)"
    by (simp add: begin_tx_def)
  have "stored SE ?s1 one_tree" by (rule stored_tree [OF b(1)]) simp
  moreover have "tx_of 1 ?s1 = Some ?tx" by (simp add: tx_of_def)
  moreover have "cached_entries ?s1 = []" by (simp add: b(2) mt_new_def)
  ultimately obtain r s2 where s2: "run_statements SE sample_statements 1 ?s1 = Some (Inr r, s2)"
    using sample_statements_run by (metis transaction.select_convs(2))
  have rb: "rollback_tx 1 s2 = Some (Inr ''Transaction rolled back'',
      s2\<lparr>active_transactions := AList.delete 1 (active_transactions s2)\<rparr>)"
    by (simp add: rollback_tx_def drop_tx_def)
  from rollback_discards [OF bg sample_statements_rows s2 rb] bg s2 rb show ?thesis by blast
qed

end
