(* ===== verification/Total.thy ===== *)
theory Total
  imports Prelude
begin

text \<open>
  Total correctness of actions: \<open>ends m s Q\<close> says that \<open>m\<close> returns from the state \<open>s\<close>, with a
  result and a state that satisfy \<open>Q\<close>; \<open>returns I m\<close> that \<open>m\<close> returns from every state of \<open>I\<close>
  and stays in \<open>I\<close>, whatever its result. Sequencing and loops follow the usual rules.
\<close>

section \<open>Runs that end\<close>

definition ends :: "('s, 'a) act \<Rightarrow> 's \<Rightarrow> (err + 'a \<Rightarrow> 's \<Rightarrow> bool) \<Rightarrow> bool" where
  "ends m s Q \<longleftrightarrow> (\<exists>r s'. m s = Some (r, s') \<and> Q r s')"

named_theorems ends

lemma endsI: "m s = Some (r, s') \<Longrightarrow> Q r s' \<Longrightarrow> ends m s Q"
  by (auto simp: ends_def)

lemma ends_mono: "ends m s P \<Longrightarrow> (\<And>r s'. P r s' \<Longrightarrow> Q r s') \<Longrightarrow> ends m s Q"
  by (auto simp: ends_def)

lemma ends_eq: "m s = m' s \<Longrightarrow> ends m' s Q \<Longrightarrow> ends m s Q"
  by (simp add: ends_def)

lemma ends_ret [ends, simp]: "ends (ret x) s Q \<longleftrightarrow> Q (Inr x) s"
  by (simp add: ends_def)

lemma ends_throw [ends, simp]: "ends (throw e) s Q \<longleftrightarrow> Q (Inl e) s"
  by (simp add: ends_def)

lemma ends_of_result [ends, simp]: "ends (of_result r) s Q \<longleftrightarrow> Q r s"
  by (simp add: ends_def)

lemma ends_read [ends, simp]: "ends (read_st f) s Q \<longleftrightarrow> Q (Inr (f s)) s"
  by (simp add: ends_def)

lemma ends_modify [ends, simp]: "ends (modify_st f) s Q \<longleftrightarrow> Q (Inr ()) (f s)"
  by (simp add: ends_def)

lemma ends_seq:
  assumes "ends m s P" and "\<And>e s'. P (Inl e) s' \<Longrightarrow> Q (Inl e) s'"
    and "\<And>x s'. P (Inr x) s' \<Longrightarrow> ends (f x) s' Q"
  shows "ends (seq m f) s Q"
proof -
  obtain r s' where "m s = Some (r, s')" "P r s'" using assms(1) by (auto simp: ends_def)
  with assms(2,3) show ?thesis by (cases r) (auto simp: ends_def seq_Inl seq_Inr)
qed

lemma ends_result:
  assumes "\<And>e. r = Inl e \<Longrightarrow> Q (Inl e) s" and "\<And>x. r = Inr x \<Longrightarrow> ends (f x) s Q"
  shows "ends (seq (of_result r) f) s Q"
  using assms by (cases r) (auto simp: ends_def)

lemma ends_zoom: "ends (zoom get put m) s Q \<longleftrightarrow> ends m (get s) (\<lambda>r t. Q r (put t s))"
  by (auto simp: ends_def zoom_def)

section \<open>Actions that always return\<close>

definition returns :: "('s \<Rightarrow> bool) \<Rightarrow> ('s, 'a) act \<Rightarrow> bool" where
  "returns I m \<longleftrightarrow> (\<forall>s. I s \<longrightarrow> ends m s (\<lambda>_. I))"

named_theorems returns

lemma returnsI: "(\<And>s. I s \<Longrightarrow> \<exists>r s'. m s = Some (r, s') \<and> I s') \<Longrightarrow> returns I m"
  by (simp add: returns_def ends_def)

lemma returnsE:
  assumes "returns I m" and "I s"
  obtains r s' where "m s = Some (r, s')" and "I s'"
  using assms by (auto simp: returns_def ends_def)

lemma returns_ret [returns]: "returns I (ret x)"
  by (simp add: returns_def)

lemma returns_throw [returns]: "returns I (throw e)"
  by (simp add: returns_def)

lemma returns_of_result [returns]: "returns I (of_result r)"
  by (simp add: returns_def)

lemma returns_read [returns]: "returns I (read_st f)"
  by (simp add: returns_def)

lemma returns_modify: "(\<And>s. I s \<Longrightarrow> I (f s)) \<Longrightarrow> returns I (modify_st f)"
  by (simp add: returns_def)

lemma returns_seq [returns]:
  assumes "returns I m" and "\<And>x. returns I (f x)"
  shows "returns I (seq m f)"
  unfolding returns_def
proof (intro allI impI)
  fix s assume "I s"
  with assms show "ends (seq m f) s (\<lambda>_. I)" by (auto simp: returns_def intro: ends_seq [where P = "\<lambda>_. I"])
qed

lemma returns_for_each [returns]: "(\<And>x. returns I (f x)) \<Longrightarrow> returns I (for_each xs f)"
  by (induction xs) (auto intro: returns)

end
