(* ===== verification/Btree_Total.thy ===== *)
theory Btree_Total
  imports Btree_Props Btree_Chain Total
begin

text \<open>
  Termination of the B+tree on any file whose pages are linked without a cycle. The code
  follows children and \<open>next_leaf\<close> links without a bound and an error may leave an insertion
  half done, so the search-tree invariant is too much to ask for. \<open>linked E s D\<close> only asks for
  levels that decrease from a node to its children, and for leaf links that go to nodes not
  above and strictly further along; both hold before, during and after every insertion,
  completed or failed, as long as page numbers do not wrap around.
\<close>

section \<open>Linked files\<close>

record ordering =
  nodes :: "u32 set"
  level :: "u32 \<Rightarrow> nat"
  place :: "u32 \<Rightarrow> nat"

definition links_ok :: "ordering \<Rightarrow> u32 \<Rightarrow> u32 \<Rightarrow> node \<Rightarrow> bool" where
  "links_ok D r p n \<longleftrightarrow>
     (node_type n = Internal \<longrightarrow> (\<forall>c \<in> set (children n). c \<in> nodes D \<and> c \<noteq> r \<and> level D c < level D p))
     \<and> (\<forall>q. next_leaf n = Some q \<longrightarrow> q \<in> nodes D \<and> q \<noteq> r \<and> level D q \<le> level D p \<and> place D q < place D p)"

definition disk_node :: "btree_env \<Rightarrow> btree \<Rightarrow> u32 \<Rightarrow> node option" where
  "disk_node E s p = page_node E (page_of (disk (bt_pager s)) p)"

definition linked :: "btree_env \<Rightarrow> btree \<Rightarrow> ordering \<Rightarrow> bool" where
  "linked E s D \<longleftrightarrow> posix (penv E) \<and> node_codec E \<and> pager_inv (bt_pager s) \<and> root_page_id s \<in> nodes D
     \<and> (\<forall>p \<in> nodes D. unat p < pages s
          \<and> (\<forall>n. disk_node E s p = Some n \<longrightarrow> links_ok D (root_page_id s) p n))"

text \<open>\<open>D'\<close> adds nodes to \<open>D\<close> and keeps the order of the old ones.\<close>

definition extends :: "ordering \<Rightarrow> ordering \<Rightarrow> bool" where
  "extends D D' \<longleftrightarrow> nodes D \<subseteq> nodes D' \<and> (\<forall>v \<in> nodes D. level D' v = level D v)
     \<and> (\<forall>v \<in> nodes D. \<forall>w \<in> nodes D. place D v < place D w \<longrightarrow> place D' v < place D' w)"

lemma extends_refl [simp]: "extends D D"
  by (simp add: extends_def)

lemma extends_trans: "extends D D1 \<Longrightarrow> extends D1 D2 \<Longrightarrow> extends D D2"
  unfolding extends_def by (simp add: subset_iff)

lemma links_extends:
  "extends D D' \<Longrightarrow> p \<in> nodes D \<Longrightarrow> links_ok D r p n \<Longrightarrow> links_ok D' r p n"
  by (auto simp: links_ok_def extends_def)

lemma linked_node: "linked E s D \<Longrightarrow> p \<in> nodes D \<Longrightarrow> unat p < pages s"
  by (simp add: linked_def)

lemma linked_links:
  "linked E s D \<Longrightarrow> p \<in> nodes D \<Longrightarrow> disk_node E s p = Some n \<Longrightarrow> links_ok D (root_page_id s) p n"
  by (simp add: linked_def)

section \<open>Page operations on a linked file\<close>

lemma ends_load:
  assumes "linked E s D"
    and "\<And>e. Q (Inl e) s" and "\<And>n. disk_node E s p = Some n \<Longrightarrow> Q (Inr n) s"
  shows "ends (load_node E p) s Q"
proof -
  have "load_node E p s = seq (of_result (if checksum_ok (penv E) (page_of (disk (bt_pager s)) p)
      then Inr (page_of (disk (bt_pager s)) p) else Inl (Checksum_mismatch p)))
      (\<lambda>page. of_result (from_bytes E page)) s"
    using assms(1) by (simp add: load_node_def seq_def zoom_def read_page_posix linked_def)
  with assms(2,3) show ?thesis
    by (auto simp: ends_def disk_node_def page_node_def from_bytes_def seq_def split: option.split)
qed

lemma enqueue_total: "\<exists>r w'. wal_enqueue W e w = Some (r, w')"
  using enqueue_from_spec [of 0 w W "queue w" e] by (auto simp: wal_enqueue_def)

text \<open>A save writes the node, or fails and changes nothing but the queue.\<close>

lemma save_cases:
  assumes "posix (penv E)" and "node_codec E" and "pager_inv (bt_pager s)" and "unat p < pages s"
  shows "ends (save_node E p n) s (\<lambda>r s'. pager_inv (bt_pager s') \<and> pages s' = pages s
    \<and> root_page_id s' = root_page_id s
    \<and> disk_node E s' = (if r = Inr () then (disk_node E s)(p \<mapsto> n) else disk_node E s))"
proof (cases "to_bytes E n")
  case (Inl e)
  then show ?thesis using assms by (simp add: save_node_def ends_def)
next
  case (Inr b)
  then have b: "length b = PAGE_SIZE" "de_node E (drop 4 b) = Some n"
    using to_bytes_ok [OF assms(2), of n] by (cases "fits n"; fastforce)+
  obtain r w where w: "wal_enqueue (wenv E) (PageUpdate p b) (bt_wal s) = Some (r, w)"
    using enqueue_total by blast
  let ?s = "s\<lparr>bt_wal := w, bt_pager := written (penv E) p b (bt_pager s)\<rparr>"
  show ?thesis
  proof (cases r)
    case (Inl e)
    with Inr w have "save_node E p n s = Some (Inl e, s\<lparr>bt_wal := w\<rparr>)"
      by (simp add: save_node_def seq_def zoom_def)
    with assms show ?thesis by (simp add: ends_def disk_node_def fun_eq_iff)
  next
    case (Inr u)
    with \<open>to_bytes E n = Inr b\<close> w assms(1,3) b have "save_node E p n s = Some (Inr (), ?s)"
      by (simp add: save_node_def seq_def zoom_def write_page_posix)
    moreover have "disk_node E ?s = (disk_node E s)(p \<mapsto> n)"
      using assms(3) b by (auto simp: disk_node_def page_node_def page_of_written fun_eq_iff)
    moreover have "pages ?s = pages s"
      using assms(3,4) b by (simp add: page_count_written max_def)
    ultimately show ?thesis using assms(3) b by (simp add: ends_def pager_inv_written)
  qed
qed

lemma ends_save:
  assumes s: "linked E s D" and p: "p \<in> nodes D" and n: "links_ok D (root_page_id s) p n"
    and Q: "\<And>r s'. linked E s' D \<Longrightarrow> pages s' = pages s \<Longrightarrow> root_page_id s' = root_page_id s
      \<Longrightarrow> (r = Inr () \<Longrightarrow> disk_node E s' = (disk_node E s)(p \<mapsto> n)) \<Longrightarrow> Q r s'"
  shows "ends (save_node E p n) s Q"
proof (rule ends_mono [OF save_cases])
  fix r :: "err + unit" and s'
  assume r: "pager_inv (bt_pager s') \<and> pages s' = pages s \<and> root_page_id s' = root_page_id s
    \<and> disk_node E s' = (if r = Inr () then (disk_node E s)(p \<mapsto> n) else disk_node E s)"
  with s n have "linked E s' D" by (auto simp: linked_def split: if_splits)
  with r show "Q r s'" by (intro Q) auto
qed (use s p in \<open>auto simp: linked_def\<close>)

lemma ends_allocate:
  assumes s: "linked E s D" and lt: "pages s < 2 ^ 32"
    and Q: "\<And>s'. linked E s' D \<Longrightarrow> pages s' = Suc (pages s) \<Longrightarrow> root_page_id s' = root_page_id s
      \<Longrightarrow> (\<And>p. p \<in> nodes D \<Longrightarrow> disk_node E s' p = disk_node E s p) \<Longrightarrow> Q (Inr (of_nat (pages s))) s'"
  shows "ends (allocate_page E) s Q"
proof -
  let ?q = "of_nat (pages s) :: u32"
  let ?p = "written (penv E) ?q (replicate PAGE_SIZE 0) (bt_pager s)"
  let ?s = "s\<lparr>bt_pager := ?p\<rparr>"
  have inv: "posix (penv E)" "pager_inv (bt_pager s)" using s by (auto simp: linked_def)
  have "unat ?q = pages s" using lt by (simp add: unsigned_of_nat take_bit_nat_eq_self)
  then have pc: "page_count ?p = Suc (pages s)" and new: "\<And>p. unat p < pages s \<Longrightarrow> p \<noteq> ?q"
    using inv by (auto simp: page_count_written)
  have same: "disk_node E ?s p = disk_node E s p" if "unat p < pages s" for p
    using inv new [OF that] by (simp add: disk_node_def page_of_written)
  have run: "allocate_page E s = Some (Inr ?q, ?s)"
    using inv by (simp add: allocate_page_def seq_def zoom_def write_page_posix num_pages_count)
  have "linked E ?s D"
    using s pc same inv by (auto simp: linked_def pager_inv_written intro: less_SucI)
  then have "Q (Inr ?q) ?s" by (rule Q) (use pc same s in \<open>auto simp: linked_def\<close>)
  with run show ?thesis by (simp add: ends_def)
qed

text \<open>A new node in a page that no node links to.\<close>

lemma ends_save_new:
  assumes s: "linked E s D" and q: "unat q < pages s" and D': "nodes D' = insert q (nodes D)"
    and old: "\<And>p n. p \<in> nodes D \<Longrightarrow> links_ok D (root_page_id s) p n \<Longrightarrow> links_ok D' (root_page_id s) p n"
    and n: "links_ok D' (root_page_id s) q n" and fresh: "q \<notin> nodes D"
    and fail: "\<And>e s'. linked E s' D \<Longrightarrow> pages s' = pages s \<Longrightarrow> root_page_id s' = root_page_id s \<Longrightarrow> Q (Inl e) s'"
    and ok: "\<And>s'. linked E s' D' \<Longrightarrow> pages s' = pages s \<Longrightarrow> root_page_id s' = root_page_id s
      \<Longrightarrow> disk_node E s' = (disk_node E s)(q \<mapsto> n) \<Longrightarrow> Q (Inr ()) s'"
  shows "ends (save_node E q n) s Q"
proof (rule ends_mono [OF save_cases])
  fix r :: "err + unit" and s'
  assume r: "pager_inv (bt_pager s') \<and> pages s' = pages s \<and> root_page_id s' = root_page_id s
    \<and> disk_node E s' = (if r = Inr () then (disk_node E s)(q \<mapsto> n) else disk_node E s)"
  show "Q r s'"
  proof (cases r)
    case (Inl e)
    with r s have "linked E s' D" by (auto simp: linked_def)
    with r Inl show ?thesis by (auto intro: fail)
  next
    case (Inr u)
    have "links_ok D' (root_page_id s) p m" if "p \<in> nodes D'" "((disk_node E s)(q \<mapsto> n)) p = Some m" for p m
      using that n s D' fresh old by (auto simp: linked_def split: if_splits)
    with r Inr s q D' have "linked E s' D'" by (auto simp: linked_def)
    with r Inr show ?thesis by (auto intro: ok)
  qed
qed (use s q in \<open>auto simp: linked_def\<close>)

section \<open>Splitting a child\<close>

text \<open>The order after the split of \<open>c\<close>: the new page \<open>q\<close> comes right after \<open>c\<close>.\<close>

definition add_right :: "ordering \<Rightarrow> u32 \<Rightarrow> u32 \<Rightarrow> ordering" where
  "add_right D c q = \<lparr>nodes = insert q (nodes D), level = (level D)(q := level D c),
     place = (\<lambda>v. if place D c \<le> place D v then Suc (place D v) else place D v)(q := place D c)\<rparr>"

lemma nodes_add_right [simp]: "nodes (add_right D c q) = insert q (nodes D)"
  by (simp add: add_right_def)

lemma extends_add_right: "q \<notin> nodes D \<Longrightarrow> extends D (add_right D c q)"
  by (auto simp: extends_def add_right_def)

lemma links_right:
  assumes "links_ok D r c n" and "c \<in> nodes D" and "q \<notin> nodes D"
    and "node_type m = Internal \<Longrightarrow> node_type n = Internal \<and> set (children m) \<subseteq> set (children n)"
    and "next_leaf m = next_leaf n \<or> next_leaf m = None"
  shows "links_ok (add_right D c q) r q m"
  using assms by (fastforce simp: links_ok_def add_right_def)

lemma links_left:
  assumes "links_ok D r c n" and "c \<in> nodes D" and "q \<notin> nodes D" and "q \<noteq> r"
    and "node_type m = Internal \<Longrightarrow> node_type n = Internal \<and> set (children m) \<subseteq> set (children n)"
    and "next_leaf m = next_leaf n \<or> next_leaf m = Some q"
  shows "links_ok (add_right D c q) r c m"
  using assms by (fastforce simp: links_ok_def add_right_def)

lemma links_parent:
  assumes "links_ok D r p n" and "p \<in> nodes D" and "q \<notin> nodes D" and "q \<noteq> r" and "level D c < level D p"
    and "set (children m) \<subseteq> insert q (set (children n))" and "node_type m = node_type n" and "next_leaf m = next_leaf n"
  shows "links_ok (add_right D c q) r p m"
  using assms by (fastforce simp: links_ok_def add_right_def)

lemma vec_insert_set: "vec_insert i x xs = Inr ys \<Longrightarrow> set ys = insert x (set xs)"
  by (auto simp: vec_insert_def split: if_splits)

lemma split_off_sets: "split_off i xs = Inr (ls, rs) \<Longrightarrow> set ls \<subseteq> set xs \<and> set rs \<subseteq> set xs"
  by (auto simp: split_off_def split: if_splits dest: in_set_takeD in_set_dropD)

lemma vec_get_mem: "vec_get xs i = Inr x \<Longrightarrow> x \<in> set xs"
  by (auto simp: vec_get_def split: if_splits)

text \<open>The writes of a split, whatever the contents of the two halves.\<close>

lemma ends_halves:
  assumes s: "linked E s D" and lt: "pages s < 2 ^ 32" and c: "c \<in> nodes D"
    and right: "\<And>q. q \<notin> nodes D \<Longrightarrow> links_ok (add_right D c q) (root_page_id s) q (right q)"
    and left: "\<And>q. q \<notin> nodes D \<Longrightarrow> q \<noteq> root_page_id s \<Longrightarrow> links_ok (add_right D c q) (root_page_id s) c (left q)"
    and Q: "\<And>r s' D'. linked E s' D' \<Longrightarrow> extends D D' \<Longrightarrow> root_page_id s' = root_page_id s
      \<Longrightarrow> pages s \<le> pages s' \<Longrightarrow> pages s' \<le> Suc (pages s)
      \<Longrightarrow> (\<And>x. r = Inr x \<Longrightarrow> \<exists>q ks cs. x = f ks cs \<and> D' = add_right D c q \<and> q \<notin> nodes D \<and> q \<noteq> root_page_id s
            \<and> vec_insert i m pks = Inr ks \<and> vec_insert (i + 1) q pcs = Inr cs)
      \<Longrightarrow> Q r s'"
  shows "ends (seq (allocate_page E) (\<lambda>q.
       seq (of_result (vec_insert i m pks)) (\<lambda>ks.
       seq (of_result (vec_insert (i + 1) q pcs)) (\<lambda>cs.
       seq (save_node E q (right q)) (\<lambda>_.
       seq (save_node E c (left q)) (\<lambda>_. ret (f ks cs))))))) s Q"
proof (rule ends_seq [where P = "\<lambda>r s1. r = Inr (of_nat (pages s)) \<and> linked E s1 D \<and> pages s1 = Suc (pages s)
    \<and> root_page_id s1 = root_page_id s"])
  show "ends (allocate_page E) s (\<lambda>r s1. r = Inr (of_nat (pages s)) \<and> linked E s1 D \<and> pages s1 = Suc (pages s)
    \<and> root_page_id s1 = root_page_id s)"
    by (rule ends_allocate [OF s lt]) simp
next
  fix q s1
  assume "Inr q = (Inr (of_nat (pages s)) :: err + u32) \<and> linked E s1 D \<and> pages s1 = Suc (pages s)
    \<and> root_page_id s1 = root_page_id s"
  then have q: "q = of_nat (pages s)" and s1: "linked E s1 D" "pages s1 = Suc (pages s)"
    "root_page_id s1 = root_page_id s" by auto
  have uq: "unat q = pages s" using lt by (simp add: q unsigned_of_nat take_bit_nat_eq_self)
  then have fresh: "q \<notin> nodes D" using linked_node [OF s, of q] by auto
  moreover have "root_page_id s \<in> nodes D" using s by (simp add: linked_def)
  ultimately have nr: "q \<noteq> root_page_id s" by blast
  have fail: "Q (Inl e) s'" if "linked E s' D" "pages s' = Suc (pages s)" "root_page_id s' = root_page_id s" for e s'
    by (rule Q [OF that(1)]) (use that in auto)
  show "ends (seq (of_result (vec_insert i m pks)) (\<lambda>ks.
       seq (of_result (vec_insert (i + 1) q pcs)) (\<lambda>cs.
       seq (save_node E q (right q)) (\<lambda>_.
       seq (save_node E c (left q)) (\<lambda>_. ret (f ks cs)))))) s1 Q"
  proof (intro ends_result)
    fix ks cs
    assume ks: "vec_insert i m pks = Inr ks" and cs: "vec_insert (i + 1) q pcs = Inr cs"
    let ?D = "add_right D c q"
    note ext = extends_add_right [OF fresh, of c]
    show "ends (seq (save_node E q (right q)) (\<lambda>_. seq (save_node E c (left q)) (\<lambda>_. ret (f ks cs)))) s1 Q"
    proof (rule ends_seq [where P = "\<lambda>r s2. pages s2 = Suc (pages s) \<and> root_page_id s2 = root_page_id s
        \<and> (case r of Inl e \<Rightarrow> linked E s2 D | Inr _ \<Rightarrow> linked E s2 ?D)"])
      show "ends (save_node E q (right q)) s1 (\<lambda>r s2. pages s2 = Suc (pages s) \<and> root_page_id s2 = root_page_id s
          \<and> (case r of Inl e \<Rightarrow> linked E s2 D | Inr _ \<Rightarrow> linked E s2 ?D))"
        by (rule ends_save_new [OF s1(1) _ _ links_extends [OF ext] _ fresh]) (use uq s1 right [OF fresh] in auto)
    next
      fix x s2
      assume "pages s2 = Suc (pages s) \<and> root_page_id s2 = root_page_id s
        \<and> (case Inr x of Inl e \<Rightarrow> linked E s2 D | Inr _ \<Rightarrow> linked E s2 ?D)"
      then have s2: "linked E s2 ?D" "pages s2 = Suc (pages s)" "root_page_id s2 = root_page_id s" by auto
      have fin: "Q r s3" if "linked E s3 ?D" "pages s3 = pages s2" "root_page_id s3 = root_page_id s2"
        "\<And>x. r = Inr x \<Longrightarrow> x = f ks cs" for r s3
        by (rule Q [OF that(1) ext]) (use that s2 ks cs fresh nr in auto)
      show "ends (seq (save_node E c (left q)) (\<lambda>_. ret (f ks cs))) s2 Q"
        by (rule ends_seq [where P = "\<lambda>r s3. linked E s3 ?D \<and> pages s3 = pages s2 \<and> root_page_id s3 = root_page_id s2"],
            rule ends_save [OF s2(1)])
          (use c left [OF fresh nr] s2 fin in auto)
    qed (auto intro: fail)
  qed (use s1 in \<open>auto intro: fail\<close>)
qed auto

text \<open>What is left of the file after a step: one page more at most, in an extended order.\<close>

definition stepped :: "btree_env \<Rightarrow> btree \<Rightarrow> ordering \<Rightarrow> nat \<Rightarrow> btree \<Rightarrow> ordering \<Rightarrow> bool" where
  "stepped E s D k s' D' \<longleftrightarrow> linked E s' D' \<and> extends D D' \<and> root_page_id s' = root_page_id s
     \<and> pages s \<le> pages s' \<and> pages s' \<le> pages s + k"

lemma stepped_refl: "linked E s D \<Longrightarrow> stepped E s D k s D"
  by (simp add: stepped_def)

lemma stepped_trans:
  "stepped E s D k s1 D1 \<Longrightarrow> stepped E s1 D1 l s2 D2 \<Longrightarrow> k + l \<le> m \<Longrightarrow> stepped E s D m s2 D2"
  by (auto simp: stepped_def dest: extends_trans)

lemma ends_pair:
  assumes "\<And>e. r = Inl e \<Longrightarrow> Q (Inl e) s" and "\<And>x y. r = Inr (x, y) \<Longrightarrow> ends (f x y) s Q"
  shows "ends (seq (of_result r) (\<lambda>(x, y). f x y)) s Q"
  by (rule ends_result) (use assms in auto)

text \<open>A load that is followed by the use of the node.\<close>

lemma ends_load_seq:
  assumes "linked E s D" and "p \<in> nodes D" and "\<And>e. Q (Inl e) s"
    and "\<And>n. disk_node E s p = Some n \<Longrightarrow> links_ok D (root_page_id s) p n \<Longrightarrow> ends (f n) s Q"
  shows "ends (seq (load_node E p) f) s Q"
  by (rule ends_seq [where P = "\<lambda>r s'. s' = s \<and> (\<forall>n. r = Inr n \<longrightarrow> disk_node E s p = Some n)"],
      rule ends_load [OF assms(1)])
    (use assms linked_links in auto)

lemma ends_split:
  assumes s: "linked E s D" and lt: "pages s < 2 ^ 32" and c: "c \<in> nodes D"
    and p: "p \<in> nodes D" "level D c < level D p" "links_ok D (root_page_id s) p parent"
  shows "ends (split_child E parent i c) s (\<lambda>r s'. \<exists>D'. stepped E s D 1 s' D'
    \<and> (\<forall>n. r = Inr n \<longrightarrow> node_type n = node_type parent \<and> links_ok D' (root_page_id s) p n))"
    (is "ends _ s ?Q")
proof -
  have stop: "?Q (Inl e) s" for e using stepped_refl [OF s] by blast
  have fin: "?Q r s'" if "linked E s' D'" "extends D D'" "root_page_id s' = root_page_id s"
    "pages s \<le> pages s'" "pages s' \<le> Suc (pages s)"
    "\<And>x. r = Inr x \<Longrightarrow> \<exists>q ks cs. x = parent\<lparr>keys := ks, children := cs\<rparr> \<and> D' = add_right D c q \<and> q \<notin> nodes D
       \<and> q \<noteq> root_page_id s \<and> vec_insert i m (keys parent) = Inr ks \<and> vec_insert (i + 1) q (children parent) = Inr cs"
    for r s' D' m
  proof (intro exI [of _ D'] conjI allI impI)
    show "stepped E s D 1 s' D'" using that(1-5) by (simp add: stepped_def)
    fix n assume "r = Inr n"
    with that(6) obtain q ks cs where x: "n = parent\<lparr>keys := ks, children := cs\<rparr>" "D' = add_right D c q"
      "q \<notin> nodes D" "q \<noteq> root_page_id s" "vec_insert (i + 1) q (children parent) = Inr cs" by metis
    show "node_type n = node_type parent" by (simp add: x)
    show "links_ok D' (root_page_id s) p n"
      unfolding x(2) by (rule links_parent [OF p(3,1) x(3,4) p(2)]) (simp_all add: x(1) vec_insert_set [OF x(5)])
  qed
  note halves = ends_halves [where f = "\<lambda>ks cs. parent\<lparr>keys := ks, children := cs\<rparr>" and Q = ?Q, OF s lt c _ _ fin]
  show ?thesis
    unfolding split_child_def Let_def
  proof (rule ends_load_seq [where Q = ?Q, OF s c stop], goal_cases)
    case (1 child)
    show ?case
    proof (cases "node_type child")
      case Leaf
      show ?thesis
        unfolding Leaf simp_thms if_True
      proof (rule ends_result [where Q = ?Q, OF stop], rule ends_pair [where Q = ?Q, OF stop], rule ends_pair [where Q = ?Q, OF stop], rule halves)
        fix q lks rks lvs rvs assume q: "q \<notin> nodes D"
        show "links_ok (add_right D c q) (root_page_id s) q
            (new_leaf\<lparr>keys := rks, vals := rvs, next_leaf := next_leaf child\<rparr>)"
          by (rule links_right [OF 1(2) c q]) (simp_all add: new_leaf_def)
        show "links_ok (add_right D c q) (root_page_id s) c
            (child\<lparr>keys := lks, vals := lvs, next_leaf := Some q\<rparr>)" if "q \<noteq> root_page_id s"
          by (rule links_left [OF 1(2) c q that]) (simp_all add: Leaf)
      qed
    next
      case Internal
      have inner: "node_type child \<noteq> Leaf" by (simp add: Internal)
      show ?thesis
        unfolding if_not_P [OF inner]
      proof (rule ends_pair [where Q = ?Q, OF stop], rule ends_pair [where Q = ?Q, OF stop], rule ends_pair [where Q = ?Q, OF stop], rule halves)
        fix q lks rks lcs rcs
        assume q: "q \<notin> nodes D" and "split_off (length (keys child) div 2 + 1) (children child) = Inr (lcs, rcs)"
        then have sub: "set lcs \<subseteq> set (children child)" "set rcs \<subseteq> set (children child)"
          by (simp_all add: split_off_sets)
        show "links_ok (add_right D c q) (root_page_id s) q (new_internal\<lparr>keys := rks, children := rcs\<rparr>)"
          by (rule links_right [OF 1(2) c q]) (use sub in \<open>simp_all add: new_internal_def Internal\<close>)
        show "links_ok (add_right D c q) (root_page_id s) c (child\<lparr>keys := lks, children := lcs\<rparr>)"
          if "q \<noteq> root_page_id s"
          by (rule links_left [OF 1(2) c q that]) (use sub in \<open>simp_all add: Internal\<close>)
      qed
    qed
  qed
qed

section \<open>Insertion\<close>

lemma ends_make_way:
  assumes s: "linked E s D" and lt: "pages s < 2 ^ 32" and c: "c \<in> nodes D" "disk_node E s c = Some child"
    and p: "p \<in> nodes D" "links_ok D (root_page_id s) p n" "node_type n = Internal" "c \<in> set (children n)"
  shows "ends (make_way E key n i c child) s (\<lambda>r s'. \<exists>D'. stepped E s D 1 s' D'
    \<and> (\<forall>m q ch. r = Inr (m, q, ch) \<longrightarrow> node_type m = Internal \<and> links_ok D' (root_page_id s) p m
         \<and> q \<in> set (children m) \<and> disk_node E s' q = Some ch))"
    (is "ends _ s ?Q")
proof (cases "is_full E child")
  case False
  with s c p show ?thesis by (simp add: make_way_def) (blast intro: stepped_refl)
next
  case True
  have low: "level D c < level D p" using p by (simp add: links_ok_def)
  show ?thesis
    unfolding make_way_def if_P [OF True]
  proof (rule ends_seq [OF ends_split [OF s lt c(1) p(1) low p(2)]], blast)
    fix m s1
    assume "\<exists>D'. stepped E s D 1 s1 D' \<and> (\<forall>n'. Inr m = Inr n' \<longrightarrow> node_type n' = node_type n
      \<and> links_ok D' (root_page_id s) p n')"
    then obtain D1 where st: "stepped E s D 1 s1 D1" and m: "node_type m = Internal" "links_ok D1 (root_page_id s) p m"
      using p(3) by auto
    have l1: "linked E s1 D1" using st by (simp add: stepped_def)
    have stop: "?Q (Inl e) s1" for e using st by blast
    show "ends (seq (of_result (vec_get (keys m) i)) (\<lambda>sep.
        let i = (if sep < key then i + 1 else i) in
        seq (of_result (vec_get (children m) i)) (\<lambda>q.
        seq (load_node E q) (\<lambda>child. ret (m, q, child))))) s1 ?Q"
      unfolding Let_def
    proof (rule ends_result [where Q = ?Q, OF stop], rule ends_result [where Q = ?Q, OF stop])
      fix sep q
      assume "vec_get (children m) (if sep < key then i + 1 else i) = Inr q"
      then have q: "q \<in> set (children m)" by (rule vec_get_mem)
      then have "q \<in> nodes D1" using m by (auto simp: links_ok_def)
      then show "ends (seq (load_node E q) (\<lambda>child. ret (m, q, child))) s1 ?Q"
        by (rule ends_load_seq [where Q = ?Q, OF l1 _ stop]) (use st m q in auto)
    qed
  qed
qed

text \<open>The way down into the child \<open>q\<close> of the node \<open>m\<close>, which is saved on the way back.\<close>

lemma ends_enter:
  assumes st: "stepped E s D 1 s1 D1" and p: "p \<in> nodes D"
    and m: "node_type m = Internal" "links_ok D1 (root_page_id s) p m" "q \<in> set (children m)"
    and rec: "links_ok D1 (root_page_id s1) q ch \<Longrightarrow> q \<in> nodes D1 \<Longrightarrow> level D1 q < level D p
      \<Longrightarrow> ends rest s1 (\<lambda>r s'. \<exists>D'. stepped E s1 D1 (level D1 q) s' D')"
    and q: "disk_node E s1 q = Some ch"
  shows "ends (seq rest (\<lambda>_. save_node E p m)) s1 (\<lambda>r s'. \<exists>D'. stepped E s D (level D p) s' D')"
proof -
  have l1: "linked E s1 D1" "root_page_id s1 = root_page_id s" "extends D D1" using st by (auto simp: stepped_def)
  have pD: "p \<in> nodes D1" "level D1 p = level D p" using l1(3) p by (auto simp: extends_def)
  have qD: "q \<in> nodes D1" "level D1 q < level D p" using m pD(2) by (auto simp: links_ok_def)
  have all: "stepped E s D (level D p) s2 D2" if "stepped E s1 D1 (level D1 q) s2 D2" for s2 D2
    by (rule stepped_trans [OF st that]) (use qD(2) in simp)
  show ?thesis
  proof (rule ends_seq [OF rec [OF linked_links [OF l1(1) qD(1) q] qD]])
    fix x s2
    assume "\<exists>D'. stepped E s1 D1 (level D1 q) s2 D'"
    then obtain D2 where st2: "stepped E s1 D1 (level D1 q) s2 D2" ..
    have l2: "linked E s2 D2" "root_page_id s2 = root_page_id s" "extends D1 D2"
      using st2 l1(2) by (auto simp: stepped_def)
    have "p \<in> nodes D2" using l2(3) pD(1) by (auto simp: extends_def)
    moreover have "links_ok D2 (root_page_id s2) p m"
      unfolding l2(2) by (rule links_extends [OF l2(3) pD(1) m(2)])
    ultimately show "ends (save_node E p m) s2 (\<lambda>r s'. \<exists>D'. stepped E s D (level D p) s' D')"
      by (rule ends_save [OF l2(1)]) (use all [OF st2] in \<open>auto simp: stepped_def intro!: exI [of _ D2]\<close>)
  qed (use all in blast)
qed

lemma ends_insert_node:
  assumes "linked E s D" and "p \<in> nodes D" and "links_ok D (root_page_id s) p n" and "pages s + level D p \<le> 2 ^ 32"
  shows "ends (insert_non_full E key val p n) s (\<lambda>r s'. \<exists>D'. stepped E s D (level D p) s' D')"
  using assms
proof (induction "level D p" arbitrary: s D p n rule: less_induct)
  case less
  let ?Q = "\<lambda>r s'. \<exists>D'. stepped E s D (level D p) s' D'"
  note s = less.prems(1) and p = less.prems(2,3)
  have stop: "?Q r s" for r :: "err + unit" using stepped_refl [OF s] by blast
  have save: "ends (save_node E p m) s ?Q" if "links_ok D (root_page_id s) p m" for m
    by (rule ends_save [OF s p(1) that]) (auto simp: stepped_def intro!: exI [of _ D])
  show ?case
  proof (cases "node_type n = Leaf")
    case True
    then have links: "links_ok D (root_page_id s) p (n\<lparr>keys := ks, vals := vs\<rparr>)"
      "links_ok D (root_page_id s) p (n\<lparr>vals := vs\<rparr>)" for ks vs
      using p(2) by (simp_all add: links_ok_def)
    show ?thesis
    proof (cases "binary_search (keys n) key")
      case (Inl idx)
      have "insert_non_full E key val p n s = seq (of_result (vec_insert idx key (keys n))) (\<lambda>ks.
          seq (of_result (vec_insert idx val (vals n))) (\<lambda>vs. save_node E p (n\<lparr>keys := ks, vals := vs\<rparr>))) s"
        by (subst insert_non_full.simps) (simp add: True Inl)
      then show ?thesis
        by (rule ends_eq) (intro ends_result [where Q = ?Q, OF stop] save links)
    next
      case (Inr idx)
      have "insert_non_full E key val p n s = seq (of_result (vec_set idx val (vals n))) (\<lambda>vs.
          save_node E p (n\<lparr>vals := vs\<rparr>)) s"
        by (subst insert_non_full.simps) (simp add: True Inr)
      then show ?thesis
        by (rule ends_eq) (intro ends_result [where Q = ?Q, OF stop] save links)
    qed
  next
    case False
    then have inner: "node_type n = Internal" by (cases "node_type n") auto
    let ?i = "child_index n key"
    have "insert_non_full E key val p n s = seq (of_result (vec_get (children n) ?i)) (\<lambda>c.
        seq (load_node E c) (\<lambda>child. seq (make_way E key n ?i c child) (\<lambda>r.
        seq (insert_non_full E key val (fst (snd r)) (snd (snd r))) (\<lambda>_. save_node E p (fst r))))) s"
      by (subst insert_non_full.simps) (simp add: inner Let_def)
    then show ?thesis
    proof (rule ends_eq, intro ends_result [where Q = ?Q, OF stop])
      fix c
      assume "vec_get (children n) ?i = Inr c"
      then have c: "c \<in> set (children n)" by (rule vec_get_mem)
      then have cD: "c \<in> nodes D" "level D c < level D p" using p(2) inner by (auto simp: links_ok_def)
      then have lt: "pages s < 2 ^ 32" using less.prems(4) by simp
      show "ends (seq (load_node E c) (\<lambda>child. seq (make_way E key n ?i c child) (\<lambda>r.
        seq (insert_non_full E key val (fst (snd r)) (snd (snd r))) (\<lambda>_. save_node E p (fst r))))) s ?Q"
      proof (rule ends_load_seq [where Q = ?Q, OF s cD(1) stop],
          rule ends_seq [OF ends_make_way [OF s lt cD(1) _ p inner c]], assumption)
        fix e s' assume "\<exists>D'. stepped E s D 1 s' D' \<and> (\<forall>m q ch. (Inl e :: err + node \<times> u32 \<times> node) = Inr (m, q, ch) \<longrightarrow>
            node_type m = Internal \<and> links_ok D' (root_page_id s) p m \<and> q \<in> set (children m) \<and> disk_node E s' q = Some ch)"
        with cD(2) show "?Q (Inl e) s'" by (auto intro!: stepped_trans [OF _ stepped_refl] simp: stepped_def)
      next
        fix r s1
        assume "\<exists>D'. stepped E s D 1 s1 D' \<and> (\<forall>m q ch. Inr r = Inr (m, q, ch) \<longrightarrow>
            node_type m = Internal \<and> links_ok D' (root_page_id s) p m \<and> q \<in> set (children m) \<and> disk_node E s1 q = Some ch)"
        then obtain D1 where st: "stepped E s D 1 s1 D1" and r: "node_type (fst r) = Internal"
          "links_ok D1 (root_page_id s) p (fst r)" "fst (snd r) \<in> set (children (fst r))"
          "disk_node E s1 (fst (snd r)) = Some (snd (snd r))" by (cases r) auto
        show "ends (seq (insert_non_full E key val (fst (snd r)) (snd (snd r))) (\<lambda>_. save_node E p (fst r))) s1 ?Q"
        proof (rule ends_enter [OF st p(1) r(1-3) _ r(4)])
          assume q: "links_ok D1 (root_page_id s1) (fst (snd r)) (snd (snd r))" "fst (snd r) \<in> nodes D1"
            "level D1 (fst (snd r)) < level D p"
          show "ends (insert_non_full E key val (fst (snd r)) (snd (snd r))) s1
              (\<lambda>r' s'. \<exists>D'. stepped E s1 D1 (level D1 (fst (snd r))) s' D')"
            by (rule less.hyps [OF q(3) _ q(2,1)]) (use st q(3) less.prems(4) in \<open>auto simp: stepped_def\<close>)
        qed
      qed
    qed
  qed
qed

section \<open>Insertion at the root\<close>

text \<open>The order after the old root has moved to page \<open>q\<close>, one level below the root page \<open>r\<close>.\<close>

definition raise_root :: "ordering \<Rightarrow> u32 \<Rightarrow> u32 \<Rightarrow> ordering" where
  "raise_root D r q = \<lparr>nodes = insert q (nodes D), level = (level D)(r := Suc (level D r), q := level D r),
     place = (place D)(q := place D r)\<rparr>"

lemma raise_root_simps [simp]:
  "nodes (raise_root D r q) = insert q (nodes D)" "level (raise_root D r q) q = level D r"
  "q \<noteq> r \<Longrightarrow> level (raise_root D r q) r = Suc (level D r)"
  by (simp_all add: raise_root_def)

lemma links_raised:
  assumes "links_ok D r p n" and "p \<in> nodes D" and "q \<notin> nodes D"
  shows "links_ok (raise_root D r q) r p n"
  using assms by (auto simp: links_ok_def raise_root_def)

lemma links_moved:
  assumes "links_ok D r r n" and "r \<in> nodes D" and "q \<notin> nodes D"
  shows "links_ok (raise_root D r q) r q n"
  using assms by (auto simp: links_ok_def raise_root_def)

definition raised :: "btree_env \<Rightarrow> btree \<Rightarrow> ordering \<Rightarrow> nat \<Rightarrow> btree \<Rightarrow> bool" where
  "raised E s D k s' \<longleftrightarrow> (\<exists>D'. linked E s' D' \<and> level D' (root_page_id s) \<le> Suc (level D (root_page_id s))
     \<and> root_page_id s' = root_page_id s \<and> pages s \<le> pages s' \<and> pages s' \<le> pages s + k)"

lemma raised_refl: "linked E s D \<Longrightarrow> raised E s D k s"
  by (auto simp: raised_def)

lemma ends_grow:
  assumes s: "linked E s D" and lt: "pages s + 2 \<le> 2 ^ 32" and n: "links_ok D (root_page_id s) (root_page_id s) n"
  shows "ends (grow_root E (root_page_id s) n) s (\<lambda>_. raised E s D 2)"
  unfolding grow_root_def
proof (rule ends_seq [where P = "\<lambda>r s1. r = Inr (of_nat (pages s)) \<and> linked E s1 D \<and> pages s1 = Suc (pages s)
    \<and> root_page_id s1 = root_page_id s"])
  show "ends (allocate_page E) s (\<lambda>r s1. r = Inr (of_nat (pages s)) \<and> linked E s1 D \<and> pages s1 = Suc (pages s)
      \<and> root_page_id s1 = root_page_id s)"
    by (rule ends_allocate [OF s]) (use lt in auto)
next
  let ?r = "root_page_id s"
  fix q s1
  assume "Inr q = (Inr (of_nat (pages s)) :: err + u32) \<and> linked E s1 D \<and> pages s1 = Suc (pages s)
    \<and> root_page_id s1 = ?r"
  then have q: "q = of_nat (pages s)" and s1: "linked E s1 D" "pages s1 = Suc (pages s)" "root_page_id s1 = ?r"
    by auto
  have uq: "unat q = pages s" using lt by (simp add: q unsigned_of_nat take_bit_nat_eq_self)
  then have fresh: "q \<notin> nodes D" using linked_node [OF s, of q] by auto
  have rD: "?r \<in> nodes D" using s by (simp add: linked_def)
  with fresh have qr: "q \<noteq> ?r" by blast
  let ?D = "raise_root D ?r q"
  let ?P = "\<lambda>r s2. pages s2 = Suc (pages s) \<and> root_page_id s2 = ?r
    \<and> (case r of Inl e \<Rightarrow> linked E s2 D | Inr _ \<Rightarrow> linked E s2 ?D)"
  let ?new = "new_internal\<lparr>children := [q]\<rparr>"
  have "ends (save_node E q n) s1 ?P"
    by (rule ends_save_new [where D' = ?D, OF s1(1) _ _ _ _ fresh])
      (use uq s1 links_raised [OF _ _ fresh] links_moved [OF n rD fresh] in auto)
  then show "ends (seq (save_node E q n) (\<lambda>_. seq (split_child E ?new 0 q) (\<lambda>root. save_node E ?r root))) s1
      (\<lambda>_. raised E s D 2)"
  proof (rule ends_seq)
    fix e s2 assume "?P (Inl e) s2"
    then show "raised E s D 2 s2" by (auto simp: raised_def intro!: exI [of _ D])
  next
    fix x s2 assume "?P (Inr x) s2"
    then have s2: "linked E s2 ?D" "pages s2 = Suc (pages s)" "root_page_id s2 = ?r" by auto
    have new: "links_ok ?D (root_page_id s2) ?r ?new"
      using qr s2(3) by (simp add: links_ok_def new_internal_def)
    have fin: "raised E s D 2 s3" if "stepped E s2 ?D 1 s3 D'" for s3 D'
      using that s2 rD qr by (auto simp: raised_def stepped_def extends_def intro!: exI [of _ D'])
    show "ends (seq (split_child E ?new 0 q) (\<lambda>root. save_node E ?r root)) s2 (\<lambda>_. raised E s D 2)"
    proof (rule ends_seq [OF ends_split [OF s2(1) _ _ _ _ new]])
      fix root s3
      assume "\<exists>D'. stepped E s2 ?D 1 s3 D' \<and> (\<forall>n. Inr root = Inr n \<longrightarrow> node_type n = node_type ?new
        \<and> links_ok D' (root_page_id s2) ?r n)"
      then obtain D' where D': "stepped E s2 ?D 1 s3 D'" "links_ok D' (root_page_id s2) ?r root" by auto
      then have s3: "linked E s3 D'" "root_page_id s3 = root_page_id s2" by (auto simp: stepped_def)
      show "ends (save_node E ?r root) s3 (\<lambda>_. raised E s D 2)"
      proof (rule ends_save [OF s3(1)])
        show "?r \<in> nodes D'" using s3 s2(3) by (simp add: linked_def)
        show "links_ok D' (root_page_id s3) ?r root" using D'(2) s3(2) by simp
        fix s4 assume "linked E s4 D'" "pages s4 = pages s3" "root_page_id s4 = root_page_id s3"
        with D'(1) have "stepped E s2 ?D 1 s4 D'" by (simp add: stepped_def)
        then show "raised E s D 2 s4" by (rule fin)
      qed
    qed (use lt s2 rD qr fin in auto)
  qed
qed (auto simp: raised_def intro!: exI [of _ D])

lemma sync_linked: "linked E s D \<Longrightarrow> on_pager (pager_sync (penv E)) s = Some (Inr (), s)"
  by (simp add: zoom_def pager_sync_def serve_sync_def linked_def pager_inv_def posix_def)

lemma ends_sync:
  assumes "raised E s D k s1"
  shows "ends (on_pager (pager_sync (penv E))) s1 (\<lambda>_. raised E s D k)"
proof -
  obtain D' where "linked E s1 D'" using assms by (auto simp: raised_def)
  with assms show ?thesis by (intro endsI [OF sync_linked]) simp_all
qed

lemma ends_insert_root:
  assumes s1: "linked E s1 D1" "level D1 (root_page_id s) \<le> Suc (level D (root_page_id s))"
    "root_page_id s1 = root_page_id s" "pages s \<le> pages s1" "pages s1 \<le> pages s + 2"
    and n: "links_ok D1 (root_page_id s) (root_page_id s) n"
    and lt: "pages s + level D (root_page_id s) + 3 \<le> 2 ^ 32"
  shows "ends (insert_non_full E key val (root_page_id s) n) s1 (\<lambda>_. raised E s D (level D (root_page_id s) + 3))"
proof -
  have r: "root_page_id s \<in> nodes D1" using s1 by (simp add: linked_def)
  have "links_ok D1 (root_page_id s1) (root_page_id s) n" "pages s1 + level D1 (root_page_id s) \<le> 2 ^ 32"
    using s1 n lt by simp_all
  from ends_insert_node [OF s1(1) r this] show ?thesis
  proof (rule ends_mono)
    fix r' :: "err + unit" and s'
    assume "\<exists>D'. stepped E s1 D1 (level D1 (root_page_id s)) s' D'"
    then obtain D' where "stepped E s1 D1 (level D1 (root_page_id s)) s' D'" ..
    with s1 r show "raised E s D (level D (root_page_id s) + 3) s'"
      unfolding raised_def by (intro exI [of _ D']) (auto simp: stepped_def extends_def)
  qed
qed

lemma ends_bt_insert:
  assumes s: "linked E s D" and lt: "pages s + level D (root_page_id s) + 3 \<le> 2 ^ 32"
  shows "ends (bt_insert E key val) s (\<lambda>_. raised E s D (level D (root_page_id s) + 3))"
proof -
  let ?r = "root_page_id s" and ?Q = "\<lambda>_. raised E s D (level D (root_page_id s) + 3)"
  have rD: "?r \<in> nodes D" using s by (simp add: linked_def)
  have stop: "?Q r s" for r using raised_refl [OF s] .
  have "ends (if is_full E n then seq (grow_root E ?r n) (\<lambda>_. seq (load_node E ?r) (\<lambda>n. insert_non_full E key val ?r n))
      else insert_non_full E key val ?r n) s ?Q" if n: "links_ok D ?r ?r n" for n
  proof (cases "is_full E n")
    case False
    show ?thesis
      unfolding if_not_P [OF False]
      by (rule ends_insert_root [OF s _ _ _ _ n lt]) simp_all
  next
    case True
    have "ends (grow_root E ?r n) s (\<lambda>_. raised E s D 2)" by (rule ends_grow [OF s _ n]) (use lt in simp)
    then show ?thesis
      unfolding if_P [OF True]
    proof (rule ends_seq)
      fix x s1
      assume "raised E s D 2 s1"
      then obtain D1 where D1: "linked E s1 D1" "level D1 ?r \<le> Suc (level D ?r)" "root_page_id s1 = ?r"
        "pages s \<le> pages s1" "pages s1 \<le> pages s + 2" by (auto simp: raised_def)
      then have r1: "?r \<in> nodes D1" by (simp add: linked_def)
      show "ends (seq (load_node E ?r) (\<lambda>n. insert_non_full E key val ?r n)) s1 ?Q"
      proof (rule ends_load_seq [where Q = ?Q, OF D1(1) r1])
        show "raised E s D (level D ?r + 3) s1" using D1 by (auto simp: raised_def)
        fix n assume "links_ok D1 (root_page_id s1) ?r n"
        with D1(3) show "ends (insert_non_full E key val ?r n) s1 ?Q"
          by (intro ends_insert_root [OF D1 _ lt]) simp
      qed
    qed (auto simp: raised_def)
  qed
  note body = this
  have "ends (seq (load_node E ?r) (\<lambda>n. seq (if is_full E n
      then seq (grow_root E ?r n) (\<lambda>_. seq (load_node E ?r) (\<lambda>n. insert_non_full E key val ?r n))
      else insert_non_full E key val ?r n) (\<lambda>_. on_pager (pager_sync (penv E))))) s ?Q"
    by (rule ends_load_seq [where Q = ?Q, OF s rD stop], rule ends_seq [OF body]) (simp_all add: ends_sync)
  then show ?thesis by (rule ends_eq [rotated]) (simp add: bt_insert_def)
qed

section \<open>Lookup\<close>

lemma ends_get_from:
  assumes "linked E s D" and "p \<in> nodes D"
  shows "ends (get_from E key p) s (\<lambda>_ s'. s' = s)"
  using assms(2)
proof (induction "level D p" arbitrary: p rule: less_induct)
  case less
  let ?Q = "\<lambda>_ s'. s' = s"
  show ?case
  proof (rule ends_eq [OF get_from.simps], rule ends_load_seq [where Q = ?Q, OF assms(1) less.prems refl])
    fix n
    assume n: "links_ok D (root_page_id s) p n"
    show "ends (case node_type n of
        Leaf \<Rightarrow> (case binary_search (keys n) key of
             Inr idx \<Rightarrow> seq (of_result (vec_get (vals n) idx)) (\<lambda>v. ret (Some v))
           | Inl _ \<Rightarrow> ret None)
      | Internal \<Rightarrow> seq (of_result (vec_get (children n) (child_index n key))) (\<lambda>child. get_from E key child)) s ?Q"
    proof (cases "node_type n")
      case Leaf
      then show ?thesis by (auto split: sum.split intro!: ends_result)
    next
      case Internal
      with n have "ends (get_from E key c) s ?Q" if "c \<in> set (children n)" for c
        using that by (intro less.hyps) (auto simp: links_ok_def)
      with Internal show ?thesis by (auto intro!: ends_result dest: vec_get_mem)
    qed
  qed
qed

lemma linked_cong:
  "bt_pager s' = bt_pager s \<Longrightarrow> root_page_id s' = root_page_id s \<Longrightarrow> linked E s' D = linked E s D"
  by (simp add: linked_def disk_node_def)

lemma ends_bt_get:
  assumes "linked E s D"
  shows "ends (bt_get E key) s (\<lambda>_ s'. s' = s\<lparr>memory_tier := snd (mt_get key (memory_tier s))\<rparr>)"
proof -
  obtain c m where g: "mt_get key (memory_tier s) = (c, m)" by fastforce
  have "linked E (s\<lparr>memory_tier := m\<rparr>) D" "root_page_id s \<in> nodes D"
    using assms by (auto simp: linked_def disk_node_def)
  from ends_get_from [OF this, of key] show ?thesis
    by (cases c) (simp_all add: bt_get_def g ends_def)
qed

section \<open>Stored trees are linked\<close>

primrec levels :: "ptree \<Rightarrow> (u32 \<times> nat) list" where
  "levels (PLeaf p ks vs nx) = [(p, 0)]"
| "levels (PNode p ks ts) = (p, height (PNode p ks ts)) # concat (map levels ts)"

fun places :: "leaf list \<Rightarrow> (u32 \<times> nat) list" where
  "places [] = []"
| "places (l # ls) = (leaf_page l, length ls) # places ls"

lemma fst_levels: "map fst (levels t) = pages_of t"
  by (induction t) (auto simp: map_concat intro!: arg_cong [of _ _ concat])

lemma fst_places: "map fst (places ls) = map leaf_page ls"
  by (induction ls) auto

lemma tid_level: "(tid t, height t) \<in> set (levels t)"
  by (cases t) auto

lemma level_children:
  assumes "holds t f" and "distinct (pages_of t)" and "(p, l) \<in> set (levels t)"
  shows "\<exists>n. f p = Some n
    \<and> (node_type n = Internal \<longrightarrow> (\<forall>c \<in> set (children n). c \<noteq> tid t \<and> (\<exists>k < l. (c, k) \<in> set (levels t))))
    \<and> (\<forall>q. next_leaf n = Some q \<longrightarrow> l = 0 \<and> (\<exists>ks vs. (p, ks, vs, Some q) \<in> set (leaves t)))"
  using assms
proof (induction t)
  case (PLeaf q ks vs nx)
  then show ?case by (auto simp: new_leaf_def)
next
  case (PNode q ks ts)
  show ?case
  proof (cases "(p, l) = (q, height (PNode q ks ts))")
    case True
    have "c \<noteq> q \<and> (\<exists>k < l. (c, k) \<in> set (levels (PNode q ks ts)))" if "c \<in> tid ` set ts" for c
    proof -
      obtain u where u: "u \<in> set ts" "c = tid u" using \<open>c \<in> tid ` set ts\<close> by auto
      have "c \<noteq> q" using PNode.prems(2) u tid_in_pages [of u] by auto
      moreover have "height u < l" using height_child [OF u(1), of q ks] True by simp
      moreover have "(c, height u) \<in> set (levels (PNode q ks ts))" using u tid_level [of u] by auto
      ultimately show ?thesis by blast
    qed
    then have "\<forall>c \<in> tid ` set ts. c \<noteq> tid (PNode q ks ts) \<and> (\<exists>k < l. (c, k) \<in> set (levels (PNode q ks ts)))"
      unfolding tid.simps by blast
    then have "\<forall>c \<in> set (children (node_of (PNode q ks ts))). c \<noteq> tid (PNode q ks ts)
        \<and> (\<exists>k < l. (c, k) \<in> set (levels (PNode q ks ts)))" by (simp del: levels.simps)
    moreover have "f p = Some (node_of (PNode q ks ts))" using True PNode.prems(1) by (simp add: holds_node)
    moreover have "next_leaf (node_of (PNode q ks ts)) = None" by (simp add: new_internal_def)
    ultimately show ?thesis
      by (intro exI [of _ "node_of (PNode q ks ts)"]) (intro conjI impI allI, simp_all only: option.distinct)
  next
    case False
    with PNode.prems(3) obtain u where u: "u \<in> set ts" "(p, l) \<in> set (levels u)" by auto
    have "holds u f" "distinct (pages_of u)"
      using PNode.prems u(1) by (auto simp: holds_node distinct_concat_iff)
    from PNode.IH [OF u(1) this u(2)] obtain n where n: "f p = Some n"
      "node_type n = Internal \<Longrightarrow> \<forall>c \<in> set (children n). \<exists>k < l. (c, k) \<in> set (levels u)"
      "\<And>r. next_leaf n = Some r \<Longrightarrow> l = 0 \<and> (\<exists>ks vs. (p, ks, vs, Some r) \<in> set (leaves u))" by blast
    have "c \<noteq> q" if "(c, k) \<in> set (levels u)" for c k
    proof -
      have "c \<in> set (pages_of u)" using that by (simp flip: fst_levels) force
      with PNode.prems(2) u(1) show ?thesis by auto
    qed
    with n u(1) show ?thesis by (intro exI [of _ n]) fastforce
  qed
qed

lemma place_next:
  assumes "chained ls None" and "(p, ks, vs, Some q) \<in> set ls"
  shows "\<exists>i j. (p, i) \<in> set (places ls) \<and> (q, j) \<in> set (places ls) \<and> j < i \<and> q \<in> set (map leaf_page (tl ls))"
  using assms
proof (induction ls)
  case (Cons l ls)
  show ?case
  proof (cases "l = (p, ks, vs, Some q)")
    case True
    with Cons.prems(1) obtain m ms where "ls = m # ms" "q = leaf_page m" by (cases ls) auto
    with True show ?thesis by (intro exI [of _ "length ls"] exI [of _ "length ms"]) auto
  next
    case False
    with Cons show ?thesis by (cases ls) fastforce+
  qed
qed simp

lemma leaf_level: "l \<in> set (leaves t) \<Longrightarrow> (leaf_page l, 0) \<in> set (levels t)"
  by (induction t) auto

lemma not_root_leaf: "distinct (pages_of t) \<Longrightarrow> l \<in> set (tl (leaves t)) \<Longrightarrow> leaf_page l \<noteq> tid t"
proof (cases t)
  case (PNode p ks ts)
  assume "distinct (pages_of t)" "l \<in> set (tl (leaves t))"
  moreover from this have "l \<in> set (leaves t)" by (cases "leaves t") auto
  ultimately show ?thesis using leaves_pages [of l] PNode by (auto simp del: split_paired_All)
qed simp

lemma linked_tree:
  assumes rep: "tree_rep E p0 s t" and chain: "chain_ok t"
  obtains D where "linked E s D" and "level D (root_page_id s) = height t"
proof -
  have inv: "binv E s" and h: "holds t (node_at E p0 s)" and d: "distinct (pages_of t)"
    and lt: "\<And>p. p \<in> set (pages_of t) \<Longrightarrow> unat p < pages s" and root: "root_page_id s = tid t"
    using rep by (auto simp: tree_rep_def trees_at_def)
  let ?D = "\<lparr>nodes = set (pages_of t), level = \<lambda>p. the (map_of (levels t) p),
     place = \<lambda>p. the (map_of (places (leaves t)) p)\<rparr>"
  have lv: "level ?D p = l" if "(p, l) \<in> set (levels t)" for p l
    using that d by (simp add: map_of_is_SomeI fst_levels)
  have pl: "place ?D p = l" if "(p, l) \<in> set (places (leaves t))" for p l
    using that distinct_leaf_pages [OF d] by (simp add: map_of_is_SomeI fst_places)
  have links: "links_ok ?D (tid t) p n" if p: "p \<in> set (pages_of t)" and n: "disk_node E s p = Some n" for p n
  proof -
    have "p \<in> fst ` set (levels t)" using p by (metis fst_levels set_map)
    then obtain l where l: "(p, l) \<in> set (levels t)" by auto
    from level_children [OF h d l] obtain m where m: "node_at E p0 s p = Some m"
      "node_type m = Internal \<Longrightarrow> \<forall>c \<in> set (children m). c \<noteq> tid t \<and> (\<exists>k < l. (c, k) \<in> set (levels t))"
      "\<And>q. next_leaf m = Some q \<Longrightarrow> l = 0 \<and> (\<exists>ks vs. (p, ks, vs, Some q) \<in> set (leaves t))" by blast
    have [simp]: "m = n" using node_at_page [OF m(1)] n by (simp add: disk_node_def)
    have nxt: "q \<in> set (pages_of t) \<and> q \<noteq> tid t \<and> level ?D q \<le> level ?D p \<and> place ?D q < place ?D p"
      if q: "next_leaf n = Some q" for q
    proof -
      from m(3) q obtain ks vs where lf: "l = 0" "(p, ks, vs, Some q) \<in> set (leaves t)" by auto
      with place_next chain obtain i j where ij: "(p, i) \<in> set (places (leaves t))" "(q, j) \<in> set (places (leaves t))"
        "j < i" "q \<in> set (map leaf_page (tl (leaves t)))" unfolding chain_ok_def by meson
      from ij(4) obtain lf' where lf': "lf' \<in> set (tl (leaves t))" "q = leaf_page lf'" by auto
      then have "lf' \<in> set (leaves t)" by (cases "leaves t") auto
      then have "(q, 0) \<in> set (levels t)" unfolding lf'(2) by (rule leaf_level)
      then have "level ?D q = 0" by (rule lv)
      moreover have "place ?D q < place ?D p" by (simp only: pl [OF ij(1)] pl [OF ij(2)] ij(3))
      moreover have "q \<noteq> tid t" using not_root_leaf [OF d lf'(1)] lf'(2) by simp
      moreover have "q \<in> set (pages_of t)" using lf' \<open>lf' \<in> set (leaves t)\<close> leaves_pages by blast
      ultimately show ?thesis by simp
    qed
    have child: "c \<in> set (pages_of t) \<and> c \<noteq> tid t \<and> level ?D c < level ?D p"
      if c: "node_type n = Internal" "c \<in> set (children n)" for c
    proof -
      from m(2) c obtain k where "k < l" "(c, k) \<in> set (levels t)" "c \<noteq> tid t" by auto
      moreover from this have "c \<in> set (pages_of t)" unfolding fst_levels [symmetric] by force
      ultimately show ?thesis by (simp only: lv [OF l] lv simp_thms)
    qed
    show ?thesis using nxt child by (simp add: links_ok_def)
  qed
  show thesis
    by (rule that [of ?D])
      (use inv lt root links tid_in_pages [of t] lv [OF tid_level] in \<open>auto simp: linked_def binv_def\<close>)
qed

text \<open>
  C11 (B+tree, insertion returns): on a linked file with page numbers left for the insertion,
  \<open>insert\<close> returns, with success, an error or a panic, and the file is linked again, even when
  the insertion failed half way; it adds at most one level and one page per level and three.
\<close>

theorem bt_insert_returns:
  assumes "linked E s D" and "pages s + level D (root_page_id s) + 3 \<le> 2 ^ 32"
  shows "\<exists>r s' D'. bt_insert E key val s = Some (r, s') \<and> linked E s' D'
    \<and> level D' (root_page_id s') \<le> Suc (level D (root_page_id s)) \<and> root_page_id s' = root_page_id s
    \<and> pages s \<le> pages s' \<and> pages s' \<le> pages s + level D (root_page_id s) + 3"
  using ends_bt_insert [OF assms, of key val] by (auto simp: ends_def raised_def)

theorem bt_insert_returns_witness:
  "\<exists>s D r s'. linked sample_tree_env s D \<and> pages s + level D (root_page_id s) + 3 \<le> 2 ^ 32
    \<and> bt_insert sample_tree_env [1] [2] s = Some (r, s')"
proof -
  obtain s where s: "tree_rep sample_tree_env (bt_pager s) s empty_tree" "pages s = 1" by (rule sample_open)
  have "chain_ok empty_tree" by (simp add: chain_ok_def)
  with s(1) obtain D where D: "linked sample_tree_env s D" "level D (root_page_id s) = height empty_tree"
    by (rule linked_tree)
  with s(2) have "pages s + level D (root_page_id s) + 3 \<le> 2 ^ 32" by simp
  with bt_insert_returns [OF D(1) this, of "[1]" "[2]"] D(1) show ?thesis by blast
qed

end
