(* ===== verification/Engine_Total.thy ===== *)
theory Engine_Total
  imports Engine_Store Btree_Total
begin

text \<open>
  Termination of the engine. The locale \<open>steady\<close> states what an invariant of the engine needs
  so that the operations return and keep it: it implies linked pages and is kept by changes of
  memory tier and queue. Under it lookups, scans, searches, every statement but CREATE TABLE and
  the retry loop return. It is interpreted on stored databases, which stay stored.
\<close>

section \<open>Walking a linked file\<close>

lemma ends_leftmost:
  assumes s: "linked E s D" and "p \<in> nodes D"
  shows "ends (leftmost_leaf E p) s (\<lambda>r s'. s' = s \<and> (\<forall>q. r = Inr q \<longrightarrow> q \<in> nodes D))"
  using assms(2)
proof (induction "level D p" arbitrary: p rule: less_induct)
  case less
  let ?Q = "\<lambda>r s'. s' = s \<and> (\<forall>q. r = Inr q \<longrightarrow> q \<in> nodes D)"
  show ?case
  proof (rule ends_eq [OF leftmost_leaf.simps], rule ends_load_seq [where Q = ?Q, OF s less.prems])
    fix n
    assume n: "links_ok D (root_page_id s) p n"
    show "ends (case node_type n of Leaf \<Rightarrow> ret p
      | Internal \<Rightarrow> (case vec_get (children n) 0 of Inl _ \<Rightarrow> ret p | Inr child \<Rightarrow> leftmost_leaf E child)) s ?Q"
    proof (cases "node_type n")
      case Internal
      with n have "ends (leftmost_leaf E c) s ?Q" if "c \<in> set (children n)" for c
        using that by (intro less.hyps) (auto simp: links_ok_def)
      with Internal less.prems show ?thesis by (auto split: sum.split dest: vec_get_mem)
    qed (use less.prems in simp)
  qed simp
qed

lemma ends_scan_leaves:
  assumes s: "linked (benv E) s D" and "p \<in> nodes D"
  shows "ends (scan_leaves E tbl ver p acc) s (\<lambda>_ s'. s' = s)"
  using assms(2)
proof (induction "place D p" arbitrary: p acc rule: less_induct)
  case less
  let ?Q = "\<lambda>_ s'. s' = s"
  show ?case
  proof (rule ends_eq [OF scan_leaves.simps], rule ends_load_seq [where Q = ?Q, OF s less.prems refl])
    fix n
    assume n: "links_ok D (root_page_id s) p n"
    have nxt: "ends (scan_leaves E tbl ver q acc') s ?Q" if "next_page p n = Some q" for q acc'
    proof -
      have "next_leaf n = Some q" using that by (auto simp: next_page_def split: option.splits if_splits)
      with n show ?thesis by (intro less.hyps) (auto simp: links_ok_def)
    qed
    show "ends (seq (of_result (scan_leaf E tbl ver (vals n) 0 (keys n) acc)) (\<lambda>acc.
        case next_page p n of Some nx \<Rightarrow> scan_leaves E tbl ver nx acc | None \<Rightarrow> ret acc)) s ?Q"
      by (rule ends_result [where Q = ?Q, OF refl]) (auto split: option.split intro: nxt)
  qed
qed

lemma ends_read_or_stop:
  assumes s: "linked E s D"
    and "\<And>e. Q (Inl e) s" and "Q (Inr None) s" and "\<And>n. disk_node E s p = Some n \<Longrightarrow> Q (Inr (Some n)) s"
  shows "ends (read_or_stop E p) s Q"
proof -
  have "on_pager (read_page (penv E) p) s = Some (if checksum_ok (penv E) (page_of (disk (bt_pager s)) p)
      then Inr (page_of (disk (bt_pager s)) p) else Inl (Checksum_mismatch p), s)"
    using s by (simp add: zoom_def read_page_posix linked_def)
  with assms(2-) show ?thesis
    by (auto simp: ends_def read_or_stop_def disk_node_def page_node_def from_bytes_def split: option.split)
qed

lemma ends_search_pages:
  assumes s: "linked (benv E) s D" and "p \<in> nodes D"
  shows "ends (search_pages E q p results) s (\<lambda>_ s'. s' = s)"
  using assms(2)
proof (induction "level D p" arbitrary: p results rule: less_induct)
  case outer: less
  from outer.prems outer.hyps show ?case
  proof (induction "place D p" arbitrary: p results rule: less_induct)
    case inner: less
    let ?Q = "\<lambda>_ s'. s' = s"
    let ?go = "\<lambda>n. case n of None \<Rightarrow> ret results | Some node \<Rightarrow>
        seq (of_result (if node_type node = Leaf
               then search_leaf E q (vals node) 0 (keys node) results else Inr results)) (\<lambda>results.
        (case search_next node of None \<Rightarrow> ret results | Some nx \<Rightarrow> search_pages E q nx results))"
    have go: "ends (?go (Some n)) s ?Q" if n: "disk_node (benv E) s p = Some n" for n
    proof -
      have n: "links_ok D (root_page_id s) p n" by (rule linked_links [OF s inner.prems(1) n])
      have nxt: "ends (search_pages E q nx results') s ?Q" if "search_next n = Some nx" for nx results'
      proof -
        have nx: "nx \<in> nodes D" "level D nx < level D p \<or> level D nx = level D p \<and> place D nx < place D p"
          using n that by (auto simp: search_next_def links_ok_def split: node_type.splits list.splits)
        from nx(2) show ?thesis
        proof
          assume "level D nx < level D p"
          then show ?thesis by (rule inner.prems(2) [OF _ nx(1)])
        next
          assume "level D nx = level D p \<and> place D nx < place D p"
          then show ?thesis by (intro inner.hyps [OF _ nx(1)] inner.prems(2)) simp_all
        qed
      qed
      show ?thesis
        unfolding option.case
        by (rule ends_result [where Q = ?Q, OF refl]) (auto split: option.split intro: nxt)
    qed
    show ?case
      by (rule ends_eq [OF search_pages.simps],
          rule ends_seq [where P = "\<lambda>r s'. s' = s \<and> (\<forall>n. r = Inr (Some n) \<longrightarrow> disk_node (benv E) s p = Some n)"],
          rule ends_read_or_stop [OF s])
        (use go in \<open>auto split: option.split\<close>)
  qed
qed

section \<open>Statements that insert into the tree\<close>

definition creates_table :: "statement \<Rightarrow> bool" where
  "creates_table st \<longleftrightarrow> (case st of CreateTable _ _ \<Rightarrow> True | _ \<Rightarrow> False)"

section \<open>Invariants under which the engine returns\<close>

locale steady =
  fixes E :: engine_env and I :: "engine \<Rightarrow> bool"
  assumes linked: "I s \<Longrightarrow> \<exists>D. linked (benv E) (tree s) D"
    and same_tree: "I s \<Longrightarrow> tree s' = tree s \<Longrightarrow> I s'"
    and looked_up: "I s \<Longrightarrow> I (s\<lparr>tree := (tree s)\<lparr>memory_tier := snd (mt_get key (tier s))\<rparr>\<rparr>)"
    and cached: "I s \<Longrightarrow> I (s\<lparr>tree := (tree s)\<lparr>memory_tier := mt_insert now key val (tier s)\<rparr>\<rparr>)"
    and enqueues: "returns I (enqueue E key data)"
    and flushes: "returns I (flush E)"
    and dequeued: "I s \<Longrightarrow> I (s\<lparr>tree := (tree s)\<lparr>bt_wal := (bt_wal (tree s))\<lparr>queue := drop n (log_queue s)\<rparr>\<rparr>\<rparr>)"
begin

declare enqueues [returns] flushes [returns]

lemma returns_set: "(\<And>s. tree (f s) = tree s) \<Longrightarrow> returns I (modify_st f)"
  by (rule returns_modify) (rule same_tree)

lemma returns_bincode [returns]: "returns I (bincode x)"
  by (simp add: bincode_def returns_of_result)

lemma returns_tick [returns]: "returns I tick"
  unfolding tick_def by (intro returns returns_set) simp

lemma returns_tier_get [returns]: "returns I (tier_get key)"
proof (rule returnsI)
  fix s assume "I s"
  with looked_up [of s key] show "\<exists>r s'. tier_get key s = Some (r, s') \<and> I s'"
    by (cases "mt_get key (tier s)") (simp add: tier_get_def)
qed

lemma returns_bt_get [returns]: "returns I (on_tree (bt_get (benv E) key))"
proof (rule returnsI)
  fix s assume I: "I s"
  then obtain D where "linked (benv E) (tree s) D" using linked by blast
  from ends_bt_get [OF this, of key] obtain r
    where "bt_get (benv E) key (tree s) = Some (r, (tree s)\<lparr>memory_tier := snd (mt_get key (tier s))\<rparr>)"
    by (auto simp: ends_def)
  with looked_up [OF I, of key] show "\<exists>r s'. on_tree (bt_get (benv E) key) s = Some (r, s') \<and> I s'"
    by (simp add: zoom_def)
qed

lemma returns_cached_or_stored [returns]: "returns I (cached_or_stored E key)"
  unfolding cached_or_stored_def by (intro returns)

lemma returns_cached_else_stored [returns]: "returns I (cached_else_stored E key)"
  unfolding cached_else_stored_def by (auto intro!: returns split: option.split)

lemma returns_index_lookup [returns]: "returns I (index_lookup E tbl ver cond)"
  unfolding index_lookup_def index_row_def Let_def
  by (auto intro!: returns split: option.split prod.split)

text \<open>The leaves are walked without changing the state.\<close>

lemma returns_walk:
  "returns I (seq (read_st (\<lambda>s. root_page_id (tree s))) (\<lambda>root.
     seq (on_tree (leftmost_leaf (benv E) root)) (\<lambda>leaf.
     seq (on_tree (scan_leaves E tbl ver leaf acc)) (\<lambda>(rows, processed). ret rows))))"
  unfolding returns_def
proof (intro allI impI)
  fix s assume I: "I s"
  then obtain D where D: "linked (benv E) (tree s) D" using linked by blast
  then have root: "root_page_id (tree s) \<in> nodes D" by (simp add: linked_def)
  let ?Q = "\<lambda>(_ :: err + row list) s'. s' = s"
  have "ends (on_tree (leftmost_leaf (benv E) (root_page_id (tree s)))) s
      (\<lambda>r s'. s' = s \<and> (\<forall>q. r = Inr q \<longrightarrow> q \<in> nodes D))"
    unfolding ends_zoom by (rule ends_mono [OF ends_leftmost [OF D root]]) simp
  moreover have "ends (on_tree (scan_leaves E tbl ver q acc)) s (\<lambda>_ s'. s' = s)" if "q \<in> nodes D" for q
    unfolding ends_zoom by (rule ends_mono [OF ends_scan_leaves [OF D that]]) simp
  ultimately have "ends (seq (on_tree (leftmost_leaf (benv E) (root_page_id (tree s)))) (\<lambda>leaf.
     seq (on_tree (scan_leaves E tbl ver leaf acc)) (\<lambda>(rows, processed). ret rows))) s ?Q"
    by (elim ends_seq) (auto intro!: ends_seq [where P = "\<lambda>_ s'. s' = s"])
  with I show "ends (seq (read_st (\<lambda>s. root_page_id (tree s))) (\<lambda>root.
     seq (on_tree (leftmost_leaf (benv E) root)) (\<lambda>leaf.
     seq (on_tree (scan_leaves E tbl ver leaf acc)) (\<lambda>(rows, processed). ret rows)))) s (\<lambda>_. I)"
    by (auto simp: ends_def)
qed

lemma returns_scan [returns]: "returns I (scan_table_with_filter E tbl ver cond)"
  unfolding scan_table_with_filter_def
  by (auto intro!: returns returns_walk split: option.split)

lemma returns_scan_table [returns]: "returns I (scan_table E tbl ver)"
  unfolding scan_table_def by (rule returns_scan)

lemma returns_search [returns]: "returns I (universal_search E q)"
  unfolding returns_def
proof (intro allI impI)
  fix s assume I: "I s"
  then obtain D where D: "linked (benv E) (tree s) D" using linked by blast
  then have root: "root_page_id (tree s) \<in> nodes D" by (simp add: linked_def)
  have "ends (on_tree (search_pages E q (root_page_id (tree s)) h)) s (\<lambda>_ s'. s' = s)" for h
    unfolding ends_zoom by (rule ends_mono [OF ends_search_pages [OF D root]]) simp
  then have "ends (seq (on_tree (search_pages E q (root_page_id (tree s)) h)) (\<lambda>results.
      ret (join [CHR 0x0A] results))) s (\<lambda>_. I)" for h
    by (rule ends_seq) (use I in auto)
  then show "ends (universal_search E q) s (\<lambda>_. I)"
    by (rule ends_eq [rotated]) (simp add: universal_search_def)
qed

section \<open>Statements\<close>

lemma returns_tier_insert [returns]: "returns I (tier_insert E k v)"
  unfolding tier_insert_def by (intro returns returns_modify cached)

lemma returns_stage [returns]: "returns I (stage c tx k v)"
  unfolding stage_def by (rule returns_set) simp

lemma returns_bump [returns]: "returns I bump_version"
  unfolding bump_version_def by (intro returns returns_set) simp

lemma returns_load_record [returns]: "returns I (load_record E what key)"
  unfolding load_record_def by (auto intro!: returns split: option.split)

lemma returns_put_record [returns]: "returns I (put_record E c k r)"
  unfolding put_record_def by (auto intro!: returns split: option.split)

lemma returns_flush_outside_tx [returns]: "returns I (flush_outside_tx E c)"
  unfolding flush_outside_tx_def by (auto intro!: returns)

lemma returns_update [returns]: "returns I (handle_update E tbl asg cond c)"
  unfolding handle_update_def update_row_def Let_def by (intro returns)

lemma returns_delete [returns]: "returns I (handle_delete E tbl cond c)"
  unfolding handle_delete_def delete_row_def Let_def by (intro returns)

lemma returns_insert_rows [returns]: "returns I (insert_rows E c tbl sc rows nid)"
  by (induction rows arbitrary: nid) (auto simp: Let_def intro!: returns split: option.split)

lemma returns_schemas_record [returns]: "returns I (schemas_record E)"
  unfolding schemas_record_def by (intro returns)

lemma returns_insert [returns]: "returns I (handle_insert E tbl q c)"
  unfolding handle_insert_def
  by (auto intro!: returns returns_set split: option.split set_expr.split prod.split)

lemma returns_create_index [returns]: "returns I (create_index E n tbl cols)"
  unfolding create_index_def index_existing_def Let_def
  by (auto intro!: returns returns_set split: option.split)

lemma returns_query [returns]: "returns I (handle_query E q c)"
  unfolding handle_query_def join_step_def get_schema_def Let_def
  by (auto intro!: returns split: option.split set_expr.split list.split prod.split)

lemma returns_call [returns]: "returns I (call_module E path)"
  unfolding call_module_def by (auto intro!: returns split: option.split)

lemma returns_dispatch: "\<not> creates_table st \<Longrightarrow> returns I (dispatch E st c)"
  by (cases st) (auto simp: dispatch_def creates_table_def intro!: returns split: option.split)

lemma returns_statement: "\<not> creates_table st \<Longrightarrow> returns I (execute_statement E st c)"
  unfolding execute_statement_def Let_def by (auto intro!: returns returns_dispatch)

lemma returns_retry:
  assumes "returns I (execute_statement E st c)"
  shows "returns I (run_statement E st c n)"
proof (rule returnsI)
  fix s assume "I s"
  then show "\<exists>r s'. run_statement E st c n s = Some (r, s') \<and> I s'"
  proof (induction "5 - n" arbitrary: n s rule: less_induct)
    case less
    with assms obtain r s1 where x: "execute_statement E st c s = Some (r, s1)" "I s1" by (blast elim: returnsE)
    have "\<exists>r s'. run_statement E st c (Suc n) s1 = Some (r, s') \<and> I s'" if "n < 5"
      using that by (intro less.hyps x(2)) simp
    with x show ?case by (subst run_statement.simps) (auto split: sum.split)
  qed
qed

lemma returns_statements:
  "\<forall>st \<in> set sts. \<not> creates_table st \<Longrightarrow> returns I (run_statements E sts c)"
  by (induction sts) (auto intro!: returns returns_retry returns_statement)

section \<open>Transactions and the other commands\<close>

lemma returns_flush_command [returns]: "returns I (flush_command E)"
  unfolding flush_command_def
proof (intro returns)
  show "returns I (modify_st (\<lambda>s. s\<lparr>tree := (tree s)\<lparr>bt_wal := (bt_wal (tree s))\<lparr>queue := []\<rparr>\<rparr>\<rparr>))"
  proof (rule returns_modify)
    fix s assume "I s"
    from dequeued [OF this, of "length (log_queue s)"]
    show "I (s\<lparr>tree := (tree s)\<lparr>bt_wal := (bt_wal (tree s))\<lparr>queue := []\<rparr>\<rparr>\<rparr>)" by simp
  qed
qed

lemma returns_commit [returns]: "returns I (commit_tx E c)"
  unfolding commit_tx_def drop_tx_def occ_check_def install_def
  by (auto intro!: returns returns_set split: option.split)

lemma returns_begin [returns]: "returns I (begin_tx E c)" "returns I (rollback_tx c)"
  unfolding begin_tx_def rollback_tx_def drop_tx_def by (auto intro!: returns returns_set)

lemma returns_undo [returns]: "returns I undo" "returns I redo"
  unfolding undo_def redo_def by (auto intro!: returns returns_set)

lemma returns_execute:
  assumes "\<And>sts st. parse_sql E sql = Inr sts \<Longrightarrow> st \<in> set sts \<Longrightarrow> \<not> creates_table st"
  shows "returns I (execute E sql c)"
proof -
  have "returns I (seq (of_result (parse_sql E sql)) (\<lambda>ast. seq (run_statements E ast c) (\<lambda>rs. ret (join [CHR 0x0A] rs))))"
  proof (cases "parse_sql E sql")
    case (Inl e)
    then show ?thesis by (simp add: returns_def ends_def)
  next
    case (Inr sts)
    then have "returns I (run_statements E sts c)" using assms by (intro returns_statements) auto
    then have "returns I (seq (run_statements E sts c) (\<lambda>rs. ret (join [CHR 0x0A] rs)))"
      by (intro returns_seq returns_ret)
    with Inr show ?thesis by (simp add: returns_def ends_def)
  qed
  then show ?thesis unfolding execute_def Let_def by (auto intro!: returns)
qed

end

section \<open>Stored databases stay stored\<close>

text \<open>
  What the other tasks may do to the queue while \<open>enqueue\<close> waits for room: take entries from
  its front and add record updates.
\<close>

definition fair_queue :: "engine_env \<Rightarrow> bool" where
  "fair_queue E \<longleftrightarrow> (\<forall>n q. length q \<le> QUEUE_CAP \<longrightarrow> (\<exists>p q' es. q = p @ q' \<and> page_updates es = []
     \<and> backoff (wenv (benv E)) n q = q' @ es \<and> length (q' @ es) \<le> QUEUE_CAP))"

abbreviation with_log :: "engine \<Rightarrow> wal \<Rightarrow> engine" where
  "with_log s w \<equiv> s\<lparr>tree := (tree s)\<lparr>bt_wal := w\<rparr>\<rparr>"

lemma stored_taken:
  assumes "stored E s t" and "log_queue s = p @ queue w"
  shows "stored E (with_log s w) t"
proof -
  obtain p0 where "tree_rep (benv E) p0 (tree s) t" using assms(1) by (auto simp: stored_def)
  then have "tree_rep (benv E) (bt_pager (tree s)) (tree (with_log s w)) t"
    by (rule tree_rep_suffix [where es = p]) (use assms(2) in simp_all)
  with assms(1) show ?thesis by (auto simp: stored_def)
qed

lemma stored_added:
  assumes "stored E s t" and "queue w = log_queue s @ es" and "page_updates es = []"
    and "length (queue w) \<le> QUEUE_CAP"
  shows "stored E (with_log s w) t"
proof -
  obtain p0 where "tree_rep (benv E) p0 (tree s) t" using assms(1) by (auto simp: stored_def)
  then have "tree_rep (benv E) p0 (tree (with_log s w)) t"
    by (rule tree_rep_records [where es = es]) (use assms in \<open>simp_all add: room_def\<close>)
  with assms(1) show ?thesis by (auto simp: stored_def)
qed

lemma stored_backoff:
  assumes "fair_queue E" and "stored E (with_log s w) t"
  shows "stored E (with_log s (w\<lparr>queue := backoff (wenv (benv E)) n (queue w)\<rparr>)) t"
proof -
  have "length (queue w) \<le> QUEUE_CAP" using stored_room [OF assms(2)] by simp
  with assms(1) obtain p q' es where q: "queue w = p @ q'" "page_updates es = []"
    "backoff (wenv (benv E)) n (queue w) = q' @ es" "length (q' @ es) \<le> QUEUE_CAP"
    unfolding fair_queue_def by blast
  have 1: "stored E (with_log (with_log s w) (w\<lparr>queue := q'\<rparr>)) t"
    by (rule stored_taken [OF assms(2), where p = p]) (simp add: q)
  have "stored E (with_log (with_log (with_log s w) (w\<lparr>queue := q'\<rparr>)) (w\<lparr>queue := q' @ es\<rparr>)) t"
    by (rule stored_added [OF 1, where es = es]) (use q in simp_all)
  then show ?thesis by (simp add: q(3))
qed

lemma enqueue_from_stored:
  assumes "fair_queue E" and "stored E (with_log s w) t"
  shows "\<exists>r w'. enqueue_from (wenv (benv E)) (RecordUpdate k d) n w = Some (r, w') \<and> stored E (with_log s w') t"
  using assms(2)
proof (induction "1001 - n" arbitrary: n w rule: less_induct)
  case less
  show ?case
  proof (cases "length (queue w) < QUEUE_CAP")
    case True
    have "stored E (with_log (with_log s w) (w\<lparr>queue := queue w @ [RecordUpdate k d]\<rparr>)) t"
      by (rule stored_added [OF less.prems, where es = "[RecordUpdate k d]"])
        (use True in \<open>simp_all add: page_updates_def\<close>)
    with True show ?thesis by (subst enqueue_from.simps) (simp add: q_push_def)
  next
    case False
    show ?thesis
    proof (cases "1000 < n")
      case True
      with False less.prems show ?thesis by (subst enqueue_from.simps) (simp add: q_push_def)
    next
      case small: False
      have "\<exists>r w'. enqueue_from (wenv (benv E)) (RecordUpdate k d) (n + 1)
            (w\<lparr>queue := backoff (wenv (benv E)) n (queue w)\<rparr>) = Some (r, w') \<and> stored E (with_log s w') t"
        by (rule less.hyps [OF _ stored_backoff [OF assms(1) less.prems]]) (use small in simp)
      with False small show ?thesis by (subst enqueue_from.simps) (simp add: q_push_def)
    qed
  qed
qed


interpretation on_stored: steady E "\<lambda>s. stored E s t \<and> fair_queue E" for E t
proof
  fix s assume s: "stored E s t \<and> fair_queue E"
  then obtain p0 where "tree_rep (benv E) p0 (tree s) t" "chain_ok t" by (auto simp: stored_def)
  then show "\<exists>D. linked (benv E) (tree s) D" by (rule linked_tree) blast
next
  fix s assume s: "stored E s t \<and> fair_queue E"
  then have "mt_inv (tier s)" by (simp add: stored_def)
  then show "stored E (s\<lparr>tree := (tree s)\<lparr>memory_tier := snd (mt_get key (tier s))\<rparr>\<rparr>) t \<and> fair_queue E"
    "stored E (s\<lparr>tree := (tree s)\<lparr>memory_tier := mt_insert now key val (tier s)\<rparr>\<rparr>) t \<and> fair_queue E"
    for key now val
    using s by (auto simp: stored_def tree_rep_tier)
next
  show "returns (\<lambda>s. stored E s t \<and> fair_queue E) (enqueue E k d)" for k d
  proof (rule returnsI)
    fix s assume s: "stored E s t \<and> fair_queue E"
    then obtain r w' where "enqueue_from (wenv (benv E)) (RecordUpdate k d) 0 (bt_wal (tree s)) = Some (r, w')"
      and "stored E (with_log s w') t"
      using enqueue_from_stored [where s = s and w = "bt_wal (tree s)" and n = 0 and k = k and d = d] by auto blast
    with s show "\<exists>r s'. enqueue E k d s = Some (r, s') \<and> stored E s' t \<and> fair_queue E"
      by (simp add: enqueue_def zoom_def wal_enqueue_def)
  qed
  show "returns (\<lambda>s. stored E s t \<and> fair_queue E) (flush E)"
    by (rule returnsI) (metis flush_ok)
next
  fix s n assume s: "stored E s t \<and> fair_queue E"
  show "stored E (s\<lparr>tree := (tree s)\<lparr>bt_wal := (bt_wal (tree s))\<lparr>queue := drop n (log_queue s)\<rparr>\<rparr>\<rparr>) t
      \<and> fair_queue E"
    using s stored_taken [of E s t "take n (log_queue s)"] by simp
qed (auto intro: stored_tree)

text \<open>
  C12 (engine, termination): on a stored database, whatever the memory tier, the queue and the
  open transactions are, \<open>execute\<close> returns, with a result or an error, for every text that
  contains no CREATE TABLE, and the database is stored afterwards. This covers the descent and
  the chain of leaves in scans and searches, which the code follows without a bound, the
  waiting of \<open>enqueue\<close> and the retry loop of a statement.
\<close>

theorem execute_returns:
  assumes "stored E s t" and "fair_queue E"
    and "\<And>sts st. parse_sql E sql = Inr sts \<Longrightarrow> st \<in> set sts \<Longrightarrow> \<not> creates_table st"
  shows "\<exists>r s'. execute E sql c s = Some (r, s') \<and> stored E s' t"
proof -
  have "returns (\<lambda>s. stored E s t \<and> fair_queue E) (execute E sql c)"
    using assms(3) by (rule on_stored.returns_execute)
  with assms(1,2) show ?thesis by (blast elim: returnsE)
qed

end
