(* ===== verification/Engine_Select.thy ===== *)
theory Engine_Select
  imports Engine_Samples Engine_Total
begin

text \<open>
  Queries and conditions: what SELECT prints on a stored database, conditions that the engine
  does not evaluate, and the lookup of an index.
\<close>

section \<open>SELECT\<close>

abbreviation stored_rows :: "engine_env \<Rightarrow> u64 \<Rightarrow> engine \<Rightarrow> ptree \<Rightarrow> str \<Rightarrow> row list" where
  "stored_rows E ver s t tbl \<equiv> table_rows E tbl ver (cached_entries s) (entries t)"

abbreviation rows_readable :: "engine_env \<Rightarrow> u64 \<Rightarrow> engine \<Rightarrow> ptree \<Rightarrow> str \<Rightarrow> bool" where
  "rows_readable E ver s t tbl \<equiv> table_readable E tbl ver (cached_entries s) (entries t)"

text \<open>The rows and columns of FROM with at most one join of \<open>tbl\<close> with \<open>jt\<close>.\<close>

fun from_rows :: "engine_env \<Rightarrow> row list \<Rightarrow> (str \<Rightarrow> row list) \<Rightarrow> (str \<times> join_operator) option \<Rightarrow> row list" where
  "from_rows E left rows_of_table None = left"
| "from_rows E left rows_of_table (Some (jt, jo)) = join_rows E jo left (rows_of_table jt)"

fun from_columns :: "(str \<times> table_schema) list \<Rightarrow> str \<Rightarrow> (str \<times> join_operator) option \<Rightarrow> str list" where
  "from_columns m tbl None = with_prefix tbl (the (map_of m tbl))"
| "from_columns m tbl (Some (jt, jo)) = with_prefix tbl (the (map_of m tbl)) @ with_prefix jt (the (map_of m jt))"

text \<open>The FROM clause is the table \<open>tbl\<close>, joined with a table or not, and both have schemas.\<close>

definition from_clause :: "select \<Rightarrow> (str \<times> table_schema) list \<Rightarrow> str \<Rightarrow> (str \<times> join_operator) option \<Rightarrow> bool" where
  "from_clause sel m tbl j \<longleftrightarrow> (\<exists>js rest.
     from_tables sel = \<lparr>relation = Table tbl, joins = js\<rparr> # rest \<and> map_of m tbl \<noteq> None
     \<and> (case j of None \<Rightarrow> js = []
        | Some (jt, jo) \<Rightarrow> map_of m jt \<noteq> None \<and> (\<exists>js'. js = (Table jt, jo) # js')))"

definition render :: "engine_env \<Rightarrow> select \<Rightarrow> str list \<Rightarrow> row list \<Rightarrow> str" where
  "render E sel cols rows = (if is_aggregate E (projection sel)
     then render_aggregates E (projection sel) rows else render_rows cols rows)"

lemma same_all_simps:
  assumes "same_all s s'"
  shows "cached_entries s' = cached_entries s" "schemas s' = schemas s"
  using assms by (simp_all add: same_all_def same_db_def same_store_def)

lemma seq_schema: "map_of (schemas s) name = Some sc \<Longrightarrow> seq (get_schema name) f s = f sc s"
  by (simp add: get_schema_def seq_def)

lemma handle_query_steps:
  assumes "query_body q = Select sel" and "from_tables sel = tw # rest" and "relation tw = Table tbl"
    and "map_of (schemas s) tbl = Some sc"
  shows "handle_query E q c s = seq (scan_table_with_filter E tbl (read_version c s) (selection sel))
      (\<lambda>rows. seq (join_step E (read_version c s) tw rows (with_prefix tbl sc)) (\<lambda>(rows, cols).
        ret (render E sel cols (limit_rows (query_limit q) (where_rows E (selection sel) rows))))) s"
  unfolding handle_query_def render_def
  by (simp only: seq_simps assms vec_get_def list.size nth_Cons_0 zero_less_Suc if_True add_Suc_right add_0
      factor_table_def set_expr.case table_factor.case seq_schema [OF assms(4)] Let_def)

lemma join_step_ok:
  assumes "stored E s t" and "from_clause sel (schemas s) tbl j"
    and "\<And>jt jo. j = Some (jt, jo) \<Longrightarrow> rows_readable E ver s t jt"
  obtains tw rest s' where "from_tables sel = tw # rest" and "relation tw = Table tbl"
    and "join_step E ver tw left (with_prefix tbl (the (map_of (schemas s) tbl))) s
      = Some (Inr (from_rows E left (stored_rows E ver s t) j, from_columns (schemas s) tbl j), s')"
    and "stored E s' t" and "same_all s s'"
proof (cases j)
  case None
  with assms(2) obtain rest where "from_tables sel = \<lparr>relation = Table tbl, joins = []\<rparr> # rest"
    by (auto simp: from_clause_def)
  then show ?thesis by (rule that [of _ _ s]) (simp_all add: join_step_def None assms(1) al.refl)
next
  case (Some jtjo)
  obtain jt jo where j: "j = Some (jt, jo)" using Some by (cases jtjo) auto
  with assms(2) obtain sc js rest where f: "from_tables sel = \<lparr>relation = Table tbl, joins = (Table jt, jo) # js\<rparr> # rest"
    and sc: "map_of (schemas s) jt = Some sc"
    by (auto simp: from_clause_def)
  obtain s' where s': "scan_table E jt ver s = Some (Inr (stored_rows E ver s t jt), s')" "stored E s' t" "same_all s s'"
    by (rule table_scan_sim [OF assms(1) assms(3) [OF j]])
  show ?thesis
    by (rule that [OF f _ _ s'(2,3)])
      (simp_all add: join_step_def factor_table_def seq_schema [OF sc] seq_Inr [where m = "scan_table E jt ver"] s'(1) j sc)
qed

lemma filtered_scan_ok:
  assumes "stored E s t" and "unindexed E s t tbl cond" and "rows_readable E ver s t tbl"
  obtains s' where "scan_table_with_filter E tbl ver cond s = Some (Inr (stored_rows E ver s t tbl), s')"
    and "stored E s' t" and "same_all s s'"
proof -
  obtain s' where "scan_table_with_filter E tbl ver cond s = Some (full_scan E tbl ver (cached_entries s @ entries t), s')"
    "stored E s' t" "same_all s s'"
    by (rule scan_unindexed [OF assms(1,2)])
  with assms(3) show ?thesis
    unfolding full_scan_eq [OF stored_distinct [OF assms(1)]] by (intro that [of s']) simp_all
qed

text \<open>The text of a SELECT in the terms of the code, with the scans of its tables spelled out.\<close>

lemma select_rows:
  assumes "stored E s t" and "query_body q = Select sel" and "from_clause sel (schemas s) tbl j"
    and "unindexed E s t tbl (selection sel)"
    and "rows_readable E (read_version c s) s t tbl"
    and "\<And>jt jo. j = Some (jt, jo) \<Longrightarrow> rows_readable E (read_version c s) s t jt"
  shows "\<exists>s'. handle_query E q c s = Some (Inr (render E sel (from_columns (schemas s) tbl j)
      (limit_rows (query_limit q) (where_rows E (selection sel)
        (from_rows E (stored_rows E (read_version c s) s t tbl) (stored_rows E (read_version c s) s t) j)))), s')
    \<and> stored E s' t \<and> same_all s s'"
proof -
  let ?v = "read_version c s"
  obtain s1 where s1: "scan_table_with_filter E tbl ?v (selection sel) s = Some (Inr (stored_rows E ?v s t tbl), s1)"
    "stored E s1 t" "same_all s s1"
    by (rule filtered_scan_ok [OF assms(1,4,5)])
  note eq = same_all_simps [OF s1(3)]
  have f: "from_clause sel (schemas s1) tbl j" using assms(3) by (simp add: eq)
  have r: "rows_readable E ?v s1 t jt" if "j = Some (jt, jo)" for jt jo using assms(6) [OF that] by (simp add: eq)
  obtain tw rest s2 where s2: "from_tables sel = tw # rest" "relation tw = Table tbl"
    "join_step E ?v tw (stored_rows E ?v s t tbl) (with_prefix tbl (the (map_of (schemas s) tbl))) s1
      = Some (Inr (from_rows E (stored_rows E ?v s t tbl) (stored_rows E ?v s t) j, from_columns (schemas s) tbl j), s2)"
    "stored E s2 t" "same_all s1 s2"
    by (rule join_step_ok [OF s1(2) f r, where left = "stored_rows E ?v s t tbl", unfolded eq])
  obtain sc where sc: "map_of (schemas s) tbl = Some sc" using assms(3) by (auto simp: from_clause_def)
  have "same_all s s2" using s1(3) s2(5) by (rule al.trans)
  moreover have "handle_query E q c s = Some (Inr (render E sel (from_columns (schemas s) tbl j)
      (limit_rows (query_limit q) (where_rows E (selection sel)
        (from_rows E (stored_rows E ?v s t tbl) (stored_rows E ?v s t) j)))), s2)" (is "_ = Some (Inr ?out, s2)")
    unfolding handle_query_steps [OF assms(2) s2(1,2) sc]
    by (rule trans [OF seq_Inr], rule s1(1), rule trans [OF seq_Inr], rule s2(3) [unfolded sc option.sel], simp only: prod.case run_ret)
  ultimately show ?thesis using s2(4) by blast
qed

section \<open>Conditions that are not evaluated\<close>

text \<open>Expressions other than binary operations: LIKE, IN, BETWEEN, IS NULL, NOT and the like.\<close>

fun opaque :: "expr \<Rightarrow> bool" where
  "opaque (BinaryOp l op r) = False"
| "opaque (Nested e) = opaque e"
| "opaque e = True"

lemma evaluate_opaque: "opaque e \<Longrightarrow> evaluate_where P e row"
  by (induction P e row rule: evaluate_where.induct) auto

lemma probe_opaque: "opaque e \<Longrightarrow> index_probe E (Some e) = index_probe E None"
  by (cases e) (auto simp: index_probe_def)

lemma scan_probe: "index_probe E c1 = index_probe E c2 \<Longrightarrow>
    scan_table_with_filter E tbl ver c1 = scan_table_with_filter E tbl ver c2"
  by (simp add: fun_eq_iff scan_table_with_filter_def index_lookup_def)

text \<open>
  C35 (engine, ignored conditions): UPDATE and DELETE with a condition that is not a binary
  operation do what they do without any condition, on every state: they change all rows.
\<close>

theorem opaque_condition_ignored:
  assumes "opaque e"
  shows "handle_delete E tbl (Some e) c = handle_delete E tbl None c
    \<and> handle_update E tbl asg (Some e) c = handle_update E tbl asg None c"
proof -
  have "selected_keys E (Some e) = selected_keys E None"
    using assms by (simp add: fun_eq_iff selected_keys_def evaluate_opaque)
  then show ?thesis using scan_probe [OF probe_opaque [OF assms]]
    by (simp add: handle_delete_def handle_update_def)
qed

section \<open>Index lookup\<close>

text \<open>
  C34 (engine, index): when the index entry of the compared value leads to a visible row, the
  scan returns this row alone, whatever other rows match: an index holds one row per value.
\<close>

theorem index_returns_one_row:
  assumes "stored E s t" and "index_probe E cond = Some (col, val)"
    and "current_data s t (index_key tbl col val) = Some key" and "de_record E key = None"
    and "current_data s t key = Some d" and "visible_row E tbl ver key d = Inr (Some row)"
  shows "\<exists>s'. scan_table_with_filter E tbl ver cond s = Some (Inr [row], s') \<and> same_all s s'"
proof -
  obtain s1 where s1: "cached_or_stored E (index_key tbl col val) s = Some (Inr (Some key), s1)"
    "stored E s1 t" "same_all s s1"
    using cached_or_stored_ok [OF assms(1)] assms(3) by metis
  then obtain s2 where s2: "cached_or_stored E key s1 = Some (Inr (Some d), s2)" "same_all s1 s2"
    using cached_or_stored_ok [OF s1(2)] assms(5) same_all_data by metis
  have "index_lookup E tbl ver cond s = Some (Inr (Some row), s2)"
    by (simp add: index_lookup_def assms(2,4,6) index_row_def seq_Inr s1(1) s2(1))
  then have "scan_table_with_filter E tbl ver cond s = Some (Inr [row], s2)"
    by (simp add: scan_table_with_filter_def seq_Inr)
  with s1(3) s2(2) al.trans show ?thesis by blast
qed

section \<open>Witnesses\<close>

definition sample_delete_env :: engine_env where
  "sample_delete_env = SE\<lparr>parse_sql := (\<lambda>_. Inr [Delete [Table ''t''] None])\<rparr>"

lemma fair_sample: "benv E = sample_tree_env \<Longrightarrow> fair_queue E"
proof -
  assume "benv E = sample_tree_env"
  then have "backoff (wenv (benv E)) n q = q" for n q by (simp add: sample_tree_env_def sample_wal_env_def)
  then have "\<exists>p q' es. q = p @ q' \<and> page_updates es = [] \<and> backoff (wenv (benv E)) n q = q' @ es
      \<and> length (q' @ es) \<le> QUEUE_CAP" if "length q \<le> QUEUE_CAP" for n q
    using that by (intro exI [of _ "[]"] exI [of _ q]) (simp add: page_updates_def)
  then show ?thesis by (simp add: fair_queue_def)
qed

theorem execute_returns_witness:
  "\<exists>b r s'. stored SE (fresh_engine b) one_tree
    \<and> execute sample_delete_env ''DELETE FROM t'' 1 (fresh_engine b) = Some (r, s') \<and> stored SE s' one_tree"
proof -
  obtain b where b: "stored SE (fresh_engine b) one_tree" by (rule sample_row)
  have e: "benv sample_delete_env = sample_tree_env" by (simp add: sample_delete_env_def)
  then have st: "stored sample_delete_env s one_tree = stored SE s one_tree" for s by (simp add: stored_def)
  have "\<exists>r s'. execute sample_delete_env ''DELETE FROM t'' 1 (fresh_engine b) = Some (r, s')
      \<and> stored sample_delete_env s' one_tree"
    by (rule execute_returns [OF _ fair_sample [OF e]])
      (simp_all add: st b, simp add: sample_delete_env_def creates_table_def, force simp: creates_table_def)
  with b st show ?thesis by blast
qed

theorem opaque_condition_ignored_witness:
  "\<exists>b s'. memory_tier b = mt_new 64
    \<and> handle_delete SE ''t'' (Some (Other_expr ''a IN (1)'')) 1 (fresh_engine b) = Some (Inr ''Deleted 1 rows'', s')"
proof -
  obtain b where b: "stored SE (fresh_engine b) one_tree" "memory_tier b = mt_new 64" "1000 \<le> room b"
    by (rule sample_row)
  have "ready_to_write SE 1 ''t'' None (deleted_record (current_version (fresh_engine b))) (fresh_engine b)
      one_tree [one_key]"
    by (rule sample_ready [OF b]) (simp add: deleted_record_def record_ok_def one_record_ok [unfolded record_ok_def])
  from handle_delete_ok [OF this] obtain s' where
    "handle_delete SE ''t'' None 1 (fresh_engine b) = Some (Inr ''Deleted 1 rows'', s')"
    by auto
  with b(2) opaque_condition_ignored [of "Other_expr ''a IN (1)''" SE "''t''" 1 "[]"] show ?thesis by auto
qed

text \<open>Two rows with the value 5 in column \<open>a\<close>; the index leads to the first.\<close>

lemma show_number: "show_value (sqlp SE) (Number n) = n"
  by (simp add: sql_print.truncate_def sample_engine_env_def)

abbreviation five :: "expr option" where
  "five \<equiv> Some (BinaryOp (Identifier ''a'') Eq (Value (Number ''5'')))"

theorem index_returns_one_row_witness:
  "\<exists>s s' k1 k2 r1 r2. k1 \<noteq> k2
    \<and> current_data s one_tree k1 = Some (put_rec one_record) \<and> current_data s one_tree k2 = Some (put_rec one_record)
    \<and> visible_row SE ''t'' 0 k1 (put_rec one_record) = Inr (Some r1) \<and> visible_row SE ''t'' 0 k2 (put_rec one_record) = Inr (Some r2)
    \<and> evaluate_where (sqlp SE) (the five) r1 \<and> evaluate_where (sqlp SE) (the five) r2
    \<and> scan_table_with_filter SE ''t'' 0 five s = Some (Inr [r1], s')"
proof -
  obtain b where b: "stored SE (fresh_engine b) one_tree" "memory_tier b = mt_new 64"
    by (rule sample_row)
  let ?k1 = "to_bytes_of ''t:1''" and ?k2 = "to_bytes_of ''t:2''" and ?ix = "index_key ''t'' ''a'' ''5''"
  let ?m = "mt_insert 2 ?ix ?k1 (mt_insert 1 ?k2 (put_rec one_record) (mt_insert 0 ?k1 (put_rec one_record) (mt_new 64)))"
  let ?s = "(fresh_engine b)\<lparr>tree := b\<lparr>memory_tier := ?m\<rparr>\<rparr>"
  have st: "stored SE ?s one_tree" by (rule stored_tier [OF b(1), of ?m]) auto
  have ne: "?k1 \<noteq> ?k2" "?k1 \<noteq> ?ix" "?k2 \<noteq> ?ix" by (simp_all add: inj_to_bytes index_key_def)
  have "room_for (Suc (Suc (Suc 0))) (mt_new 64)" by (rule room_new) simp
  note ins1 = no_evict [OF this] note ins2 = no_evict [OF ins1(2)] note ins3 = no_evict [OF ins2(2)]
  have cur: "current_data ?s one_tree ?k1 = Some (put_rec one_record)"
    "current_data ?s one_tree ?k2 = Some (put_rec one_record)" "current_data ?s one_tree ?ix = Some ?k1"
    using ne by (auto simp: current_data_def ins1(1) ins2(1) ins3(1))
  have vis: "visible_row SE ''t'' 0 k (put_rec one_record) = Inr (Some (make_row ''t'' (from_utf8_lossy k) one_row))" for k
    using de_row_SE [OF one_row_ok] by (simp add: visible_row_def visible_def del: de_row_SE) (simp add: one_record_def)
  have ev: "evaluate_where (sqlp SE) (the five) (make_row ''t'' k one_row)" for k
    by (simp add: get_data_def make_row_def one_row_def show_number unquote_def)
  have "de_record SE ?k1 = None"
    by (simp add: sample_engine_env_def get_rec_def get_vec_def get_nat_def)
  moreover have "index_probe SE five = Some (''a'', ''5'')"
    by (simp add: index_probe_def get_id_def get_val_def or_else_def sample_engine_env_def unquote_def)
  ultimately have "\<exists>s'. scan_table_with_filter SE ''t'' 0 five ?s
      = Some (Inr [make_row ''t'' (from_utf8_lossy ?k1) one_row], s') \<and> same_all ?s s'"
    by (intro index_returns_one_row [OF st _ cur(3) _ cur(1)]) (simp_all add: vis)
  with cur ne(1) vis ev show ?thesis by blast
qed

end
