(* ===== verification/Engine_Drain.thy ===== *)
theory Engine_Drain
  imports Engine_Samples
begin

text \<open>
  The drain thread moves the records on the queue into the B+tree, keeping the chain of
  leaves that scans walk.
\<close>

section \<open>One round\<close>

definition record_updates :: "wal_entry list \<Rightarrow> (bytes \<times> bytes) list" where
  "record_updates es = concat (map (\<lambda>e. case e of RecordUpdate k d \<Rightarrow> [(k, d)] | _ \<Rightarrow> []) es)"

lemma record_updates_simps [simp]:
  "record_updates [] = []" "record_updates (RecordUpdate k d # es) = (k, d) # record_updates es"
  by (simp_all add: record_updates_def)

lemma record_updates_skip: "(\<forall>k d. e \<noteq> RecordUpdate k d) \<Longrightarrow> record_updates (e # es) = record_updates es"
  by (cases e) (simp_all add: record_updates_def)

lemma drain_entries:
  "for_each (record_updates es) (\<lambda>(k, v). bt_insert (benv E) k v) (tree s) = Some (Inr (), b) \<Longrightarrow>
   for_each es (drain_entry E) s = Some (Inr (), s\<lparr>tree := b\<rparr>)"
proof (induction es arbitrary: s)
  case Nil
  then show ?case by simp
next
  case (Cons e es)
  show ?case
  proof (cases "\<exists>k d. e = RecordUpdate k d")
    case True
    then obtain k d where e: "e = RecordUpdate k d" by blast
    from Cons.prems obtain u b1 where b1: "bt_insert (benv E) k d (tree s) = Some (Inr u, b1)"
      "for_each (record_updates es) (\<lambda>(k, v). bt_insert (benv E) k v) b1 = Some (Inr (), b)"
      by (auto simp: e elim: seq_InrE)
    have "drain_entry E e s = Some (Inr (), s\<lparr>tree := b1\<rparr>)"
      using b1(1) by (simp add: e drain_entry_def ignore_error_def zoom_def)
    with Cons.IH [of "s\<lparr>tree := b1\<rparr>"] b1(2) show ?thesis by (simp add: seq_Inr)
  next
    case False
    then have "drain_entry E e s = Some (Inr (), s)" by (cases e) (simp_all add: drain_entry_def)
    with False Cons.IH [of s] Cons.prems show ?thesis by (simp add: record_updates_skip seq_Inr)
  qed
qed

lemma inserts_chain: "chain_ok t \<Longrightarrow> chain_ok (pt_inserts B n t kvs)"
proof (induction kvs arbitrary: n t)
  case (Cons kv kvs)
  obtain k v where kv: "kv = (k, v)" by (cases kv)
  obtain t' n' where p: "pt_insert (is_full B) k v n t = (t', n')" by fastforce
  with insert_chain [OF Cons.prems, of "is_full B" k v n] have "chain_ok t'" by simp
  with Cons.IH p show ?case by (simp add: kv)
qed simp

text \<open>
  C20 (drain thread): on a stored database one round of the drain thread takes up to 1000
  entries off the queue and inserts their records into the tree, in order. When each of these
  insertions meets the conditions of C3 in its turn (no split on its way takes its key as the
  separator, the nodes fit their pages, page numbers and queue have room: \<open>inserts_ok\<close>), the
  round returns, the database stays stored with its leaves chained, its map is the old one
  updated with the records, and memory tier, schemas, versions and transactions are untouched.
  Outside these conditions an insertion can succeed and be lost (C37).
\<close>

theorem drain_round_spec:
  assumes "stored E s t" and "kvs = record_updates (take 1000 (log_queue s))"
    and "inserts_ok (benv E) (pages (tree s)) (log_room s) t kvs"
  shows "\<exists>s' t'. drain_round E s = Some (Inr (), s') \<and> stored E s' t'
    \<and> map_of (entries t') = map_of (entries t) ++ map_of (rev kvs)
    \<and> tier s' = tier s \<and> same_meta s s'"
proof -
  let ?b = "(tree s)\<lparr>bt_wal := (bt_wal (tree s))\<lparr>queue := drop 1000 (log_queue s)\<rparr>\<rparr>"
  obtain p0 where p0: "tree_rep (benv E) p0 (tree s) t" using assms(1) by (auto simp: stored_def)
  have rep: "tree_rep (benv E) (bt_pager (tree s)) ?b t"
    by (rule tree_rep_suffix [OF p0, where es = "take 1000 (log_queue s)"]) simp_all
  have rm: "log_room s \<le> room ?b" by (simp add: room_def)
  have ok: "inserts_ok (benv E) (pages ?b) (log_room s) t kvs" using assms(3) by simp
  obtain b where b: "for_each kvs (\<lambda>(k, v). bt_insert (benv E) k v) ?b = Some (Inr (), b)"
    "tree_rep (benv E) (bt_pager (tree s)) b (pt_inserts (benv E) (pages ?b) t kvs)" "frame_of b = frame_of ?b"
    "map_of (entries (pt_inserts (benv E) (pages ?b) t kvs)) = map_of (entries t) ++ map_of (rev kvs)"
    using inserts_sim [OF rep ok rm] by blast
  let ?t = "pt_inserts (benv E) (pages ?b) t kvs"
  have mt: "memory_tier b = tier s" using b(3) by (simp add: frame_of_def)
  have "for_each (take 1000 (log_queue s)) (drain_entry E) (s\<lparr>tree := ?b\<rparr>) = Some (Inr (), s\<lparr>tree := b\<rparr>)"
    using drain_entries [of "take 1000 (log_queue s)" E "s\<lparr>tree := ?b\<rparr>" b] b(1) assms(2) by simp
  then have "drain_round E s = Some (Inr (), s\<lparr>tree := b\<rparr>)" by (simp add: drain_round_def)
  moreover have "stored E (s\<lparr>tree := b\<rparr>) ?t"
    using assms(1) b(2) mt inserts_chain [of t "benv E" "pages ?b" kvs] by (auto simp: stored_def)
  ultimately show ?thesis
    using b(4) mt by (intro exI [of _ "s\<lparr>tree := b\<rparr>"] exI [of _ ?t]) (simp add: same_meta_def)
qed

theorem drain_round_spec_witness:
  "\<exists>s s' t'. log_queue s = [RecordUpdate one_key (put_rec one_record)] \<and> stored SE s empty_tree
    \<and> drain_round SE s = Some (Inr (), s') \<and> stored SE s' t'
    \<and> map_of (entries t') one_key = Some (put_rec one_record)"
proof -
  obtain b where b: "memory_tier b = mt_new 64" "tree_rep sample_tree_env (bt_pager b) b empty_tree"
    "pages b = 1" "room b = QUEUE_CAP" "queue (bt_wal b) = []"
    by (rule sample_open)
  let ?e = "fresh_engine b" and ?s = "queued [RecordUpdate one_key (put_rec one_record)] (fresh_engine b)"
  let ?kvs = "[(one_key, put_rec one_record)]"
  have st: "stored SE ?e empty_tree" using b(1,2) by (auto simp: stored_def chain_ok_def)
  have "0 < log_room ?e" using b(4) by (simp add: QUEUE_CAP_def)
  then have st': "stored SE ?s empty_tree" by (rule enqueue_ok(2) [OF st])
  have q: "log_queue ?s = [RecordUpdate one_key (put_rec one_record)]" using b(5) by simp
  have rm: "log_room ?s = QUEUE_CAP - 1" using q by (simp add: room_def)
  have pg: "pages (tree ?s) = 1" using b(3) by (simp add: queued_def)
  have len: "length (put_rec one_record) \<le> 1000" "length one_key \<le> 1000"
    by (simp_all add: length_one_record length_one_key)
  have "inserts_ok (benv SE) (pages (tree ?s)) (log_room ?s) empty_tree ?kvs"
    unfolding pg rm using sample_insert_one(1) [of one_key] sample_insert_one(2) [OF len]
    by (simp add: insert_room_def QUEUE_CAP_def del: fits_tree.simps)
  moreover have "?kvs = record_updates (take 1000 (log_queue ?s))" unfolding q by simp
  ultimately obtain s' t' where "drain_round SE ?s = Some (Inr (), s')" "stored SE s' t'"
    "map_of (entries t') = map_of (entries empty_tree) ++ map_of (rev ?kvs)"
    using drain_round_spec [OF st'] by blast
  with st' q show ?thesis by (intro exI [of _ ?s] exI [of _ s'] exI [of _ t']) simp
qed

end
