(* ===== verification/Engine_Wf.thy ===== *)
theory Engine_Wf
  imports Engine_Store
begin

text \<open>
  The type invariant of the engine: the maps it keeps as association lists have every key
  once. Every entry point keeps it; the frame rules of \<open>Engine_Frame\<close> carry the proofs from the
  few primitive updates to the statements.
\<close>

definition tx_wf :: "transaction \<Rightarrow> bool" where
  "tx_wf tx \<longleftrightarrow> distinct (map fst (updates tx))"

definition engine_wf :: "engine \<Rightarrow> bool" where
  "engine_wf s \<longleftrightarrow> distinct (map fst (schemas s)) \<and> distinct (map fst (indices s))
     \<and> distinct (map fst (active_transactions s)) \<and> (\<forall>p \<in> set (active_transactions s). tx_wf (snd p))
     \<and> mt_inv (tier s)"

definition wf_step :: "engine \<Rightarrow> engine \<Rightarrow> bool" where
  "wf_step s s' \<longleftrightarrow> (engine_wf s \<longrightarrow> engine_wf s')"

interpretation wf: frame_rel wf_step
  by unfold_locales (auto simp: wf_step_def)

section \<open>The tree operations and the memory tier\<close>

definition same_frame :: "btree \<Rightarrow> btree \<Rightarrow> bool" where
  "same_frame t t' \<longleftrightarrow> frame_of t' = frame_of t"

interpretation ft: frame_rel same_frame
  by unfold_locales (auto simp: same_frame_def)

lemma frame_pager: "keeps same_frame (on_pager m)" and frame_wal: "keeps same_frame (on_wal m')"
  by (auto simp: keeps_def zoom_def same_frame_def frame_of_def)

lemma frame_load: "keeps same_frame (load_node B p)"
  unfolding load_node_def by (intro ft.keeps_intros frame_pager)

lemma frame_save: "keeps same_frame (save_node B p n)"
  unfolding save_node_def by (intro ft.keeps_intros frame_pager frame_wal)

lemma frame_alloc: "keeps same_frame (allocate_page B)"
  unfolding allocate_page_def by (intro ft.keeps_intros frame_pager)

lemmas frame_intros = ft.keeps_intros frame_pager frame_wal frame_load frame_save frame_alloc

lemma frame_split: "keeps same_frame (split_child B parent i child_id)"
  unfolding split_child_def Let_def
  by (auto intro!: frame_intros split: prod.split)

lemma frame_make_way: "keeps same_frame (make_way B key node i child_id child)"
  unfolding make_way_def Let_def by (auto intro!: frame_intros frame_split)

lemma frame_insert_non_full: "keeps same_frame (insert_non_full B key val p node)"
proof (rule keepsI')
  fix s y
  assume "insert_non_full B key val p node s = Some y"
  then show "same_frame s (snd y)"
  proof (rule insert_non_full.raw_induct [rotated])
    fix rec E key val p node s y
    assume IH: "\<And>E key val p node s y. rec E key val p node s = Some y \<Longrightarrow> same_frame s (snd y)"
      and body: "(if node_type node = Leaf then
          (case binary_search (keys node) key of
             Inr idx \<Rightarrow> seq (of_result (vec_set idx val (vals node))) (\<lambda>vs. save_node E p (node\<lparr>vals := vs\<rparr>))
           | Inl idx \<Rightarrow> seq (of_result (vec_insert idx key (keys node))) (\<lambda>ks.
               seq (of_result (vec_insert idx val (vals node))) (\<lambda>vs.
               save_node E p (node\<lparr>keys := ks, vals := vs\<rparr>)))) s
        else let i = child_index node key in
          seq (of_result (vec_get (children node) i)) (\<lambda>child_id.
          seq (load_node E child_id) (\<lambda>child.
          seq (make_way E key node i child_id child) (\<lambda>r.
          seq (rec E key val (fst (snd r)) (snd (snd r))) (\<lambda>_. save_node E p (fst r))))) s) = Some y"
    have r: "keeps same_frame (rec E key val p node)" for E key val p node
      by (rule keepsI') (rule IH)
    have l: "keeps same_frame (case binary_search (keys node) key of
             Inr idx \<Rightarrow> seq (of_result (vec_set idx val (vals node))) (\<lambda>vs. save_node E p (node\<lparr>vals := vs\<rparr>))
           | Inl idx \<Rightarrow> seq (of_result (vec_insert idx key (keys node))) (\<lambda>ks.
               seq (of_result (vec_insert idx val (vals node))) (\<lambda>vs.
               save_node E p (node\<lparr>keys := ks, vals := vs\<rparr>))))"
      by (auto intro!: frame_intros split: sum.split)
    have i: "keeps same_frame (seq (of_result (vec_get (children node) (child_index node key))) (\<lambda>child_id.
          seq (load_node E child_id) (\<lambda>child.
          seq (make_way E key node (child_index node key) child_id child) (\<lambda>r.
          seq (rec E key val (fst (snd r)) (snd (snd r))) (\<lambda>_. save_node E p (fst r))))))"
      by (intro frame_intros frame_make_way r)
    show "same_frame s (snd y)"
      using body by (auto simp: Let_def dest: keepsD' [OF l] keepsD' [OF i] split: if_splits)
  qed
qed

lemma frame_insert: "keeps same_frame (bt_insert B key val)"
  unfolding bt_insert_def grow_root_def
  by (auto intro!: frame_intros frame_split frame_insert_non_full)

lemma keeps_on_tree_wf: "keeps same_frame m \<Longrightarrow> keeps wf_step (on_tree m)"
  by (auto simp: keeps_def zoom_def same_frame_def frame_of_def wf_step_def engine_wf_def)

section \<open>The primitive updates\<close>

lemma keeps_all_wf: "keeps same_all m \<Longrightarrow> keeps wf_step m"
  by (erule keeps_mono)
    (auto simp: same_all_def same_db_def same_store_def wf_step_def engine_wf_def mt_inv_def)

lemma keeps_log_wf: "keeps same_but_log m \<Longrightarrow> keeps wf_step m"
  by (erule keeps_mono) (auto simp: same_but_log_def wf_step_def engine_wf_def)

lemma wf_tick: "keeps wf_step tick"
  by (auto simp: keeps_def tick_def wf_step_def engine_wf_def)

lemma wf_tier_insert: "keeps wf_step (tier_insert E k v)"
  by (auto simp: keeps_def tier_insert_def wf_step_def engine_wf_def)

lemma keeps_read_dep:
  "(\<And>s r s'. f (g s) s = Some (r, s') \<Longrightarrow> R s s') \<Longrightarrow> keeps R (seq (read_st g) f)"
  by (auto simp: keeps_def)

lemma delete_in: "set (AList.delete k xs) \<subseteq> set xs"
  by (auto simp: delete_filter)

lemma wf_stage:
  assumes "tx_of c s = Some tx" and "stage c tx k v s = Some (r, s')"
  shows "wf_step s s'"
  unfolding wf_step_def
proof
  assume wf: "engine_wf s"
  let ?tx = "tx\<lparr>updates := AList.update k v (updates tx)\<rparr>"
  have "(c, tx) \<in> set (active_transactions s)" using assms(1) by (auto simp: tx_of_def dest: map_of_SomeD)
  with wf have "tx_wf ?tx" by (force simp: engine_wf_def tx_wf_def AList.distinct_update)
  with wf assms(2) update_in [of c ?tx "active_transactions s"] show "engine_wf s'"
    by (auto simp: stage_def engine_wf_def AList.distinct_update)
qed

lemmas wf_intros = wf.keeps_intros wf.keeps_throw wf_tier_insert wf_tick
  keeps_log_wf [OF keeps_enqueue] keeps_log_wf [OF keeps_flush]

lemma wf_bump: "keeps wf_step bump_version"
  unfolding bump_version_def
  by (intro wf_intros wf.keeps_modify) (simp add: wf_step_def engine_wf_def)

lemma wf_put_record: "keeps wf_step (put_record E c k r)"
proof -
  have auto_commit: "keeps wf_step (seq bump_version (\<lambda>v. seq (bincode (de_record E val)) (\<lambda>m.
      seq (bincode (ser_record E (m\<lparr>version := v\<rparr>))) (\<lambda>f. seq (tier_insert E k f) (\<lambda>_. enqueue E k f)))))" for val
    by (intro wf_intros wf_bump)
  have "keeps wf_step (seq (read_st (tx_of c)) (\<lambda>t. case t of
      Some tx \<Rightarrow> stage c tx k val
    | None \<Rightarrow> seq bump_version (\<lambda>v. seq (bincode (de_record E val)) (\<lambda>m.
        seq (bincode (ser_record E (m\<lparr>version := v\<rparr>))) (\<lambda>f. seq (tier_insert E k f) (\<lambda>_. enqueue E k f))))))" for val
    using keepsD [OF auto_commit] wf_stage
    by (intro keeps_read_dep) (auto split: option.splits)
  then show ?thesis unfolding put_record_def by (rule wf.keeps_seq [OF wf.keeps_bincode])
qed

section \<open>Statements\<close>

lemma wf_update: "keeps wf_step (handle_update E tbl asg cond c)"
  and wf_delete: "keeps wf_step (handle_delete E tbl cond c)"
  unfolding handle_update_def handle_delete_def update_row_def delete_row_def flush_outside_tx_def Let_def
  by (auto intro!: wf_intros wf_put_record keeps_all_wf [OF keeps_scan] keeps_all_wf [OF keeps_load_record])

lemma wf_insert_rows: "keeps wf_step (insert_rows E c tbl sc rows nid)"
proof (induction rows arbitrary: nid)
  case (Cons exprs rows)
  have store: "keeps wf_step (seq (tier_insert E k v) (\<lambda>_. seq (read_st indices) (\<lambda>idxs.
      ret ((k, v) # index_entries tbl k row idxs))))" for k v row
    by (intro wf_intros)
  have "keeps wf_step (seq (read_st (tx_of c)) (\<lambda>t.
      seq (case t of Some tx \<Rightarrow> seq (stage c tx k v) (\<lambda>_. ret [])
         | None \<Rightarrow> seq (tier_insert E k v) (\<lambda>_. seq (read_st indices) (\<lambda>idxs.
             ret ((k, v) # index_entries tbl k row idxs)))) (\<lambda>entries.
      seq (insert_rows E c tbl sc rows nid) (\<lambda>(nid'', rest). ret (nid'', entries @ rest)))))" for k v row nid
  proof (rule keeps_read_dep)
    fix s r s'
    let ?rest = "\<lambda>entries. seq (insert_rows E c tbl sc rows nid) (\<lambda>(nid'', rest). ret (nid'', entries @ rest))"
    assume run: "seq (case tx_of c s of Some tx \<Rightarrow> seq (stage c tx k v) (\<lambda>_. ret [])
         | None \<Rightarrow> seq (tier_insert E k v) (\<lambda>_. seq (read_st indices) (\<lambda>idxs.
             ret ((k, v) # index_entries tbl k row idxs)))) ?rest s = Some (r, s')"
    have rest: "keeps wf_step (?rest es)" for es
      using Cons.IH by (auto intro!: wf_intros split: prod.split)
    show "wf_step s s'"
    proof (cases "tx_of c s")
      case None
      with run keepsD [OF wf.keeps_seq [OF store rest]] show ?thesis by simp
    next
      case (Some tx)
      let ?s = "s\<lparr>active_transactions := AList.update c (tx\<lparr>updates := AList.update k v (updates tx)\<rparr>)
        (active_transactions s)\<rparr>"
      have st: "stage c tx k v s = Some (Inr (), ?s)" by (simp add: stage_def)
      have "?rest [] ?s = Some (r, s')" using run Some st by (simp add: seq_Inr seq_assoc)
      with wf_stage [OF Some st] keepsD [OF rest] show ?thesis by (blast intro: wf.trans)
    qed
  qed
  then show ?case
    unfolding insert_rows.simps Let_def
    by (rule wf.keeps_seq [OF wf_tick wf.keeps_seq [OF wf.keeps_read
        wf.keeps_seq [OF wf.keeps_bincode wf.keeps_seq [OF wf_tick
        wf.keeps_seq [OF wf.keeps_bincode]]]]])
qed (simp add: wf.keeps_ret)

lemma wf_schemas: "keeps wf_step (modify_st (\<lambda>s. s\<lparr>schemas := AList.update tbl sc (schemas s)\<rparr>))"
  by (intro wf.keeps_modify) (simp add: wf_step_def engine_wf_def AList.distinct_update)

lemma wf_schemas_record: "keeps wf_step (schemas_record E)"
  unfolding schemas_record_def by (intro wf_intros)

lemma wf_insert: "keeps wf_step (handle_insert E tbl q c)"
  unfolding handle_insert_def
  by (auto intro!: wf_intros wf_insert_rows wf_schemas wf_schemas_record split: option.split set_expr.split prod.split)

lemma wf_create_table: "keeps wf_step (create_table E name cols)"
  unfolding create_table_def Let_def
  by (intro wf_intros wf_schemas wf_schemas_record keeps_on_tree_wf frame_insert)

lemma wf_create_index: "keeps wf_step (create_index E name tbl cols)"
proof -
  have "keeps wf_step (modify_st (\<lambda>s. s\<lparr>indices := AList.update n ix (indices s)\<rparr>))" for n ix
    by (intro wf.keeps_modify) (simp add: wf_step_def engine_wf_def AList.distinct_update)
  moreover have "keeps wf_step (index_existing E ix row)" for ix row
    unfolding index_existing_def by (auto intro!: wf_intros split: option.split)
  moreover have "keeps wf_step (scan_table E tbl ver)" for ver
    unfolding scan_table_def by (rule keeps_all_wf [OF keeps_scan])
  ultimately show ?thesis unfolding create_index_def Let_def by (intro wf_intros)
qed

lemma wf_execute_statement: "keeps wf_step (execute_statement E st c)"
  unfolding execute_statement_def Let_def dispatch_def call_module_def
  by (auto intro!: wf_intros wf_create_table wf_create_index wf_insert wf_update wf_delete
      keeps_all_wf [OF keeps_handle_query] split: statement.split option.split)

section \<open>Entry points\<close>

lemma wf_transactions:
  "keeps wf_step (begin_tx E c)" "keeps wf_step (drop_tx c)" "keeps wf_step (rollback_tx c)"
proof -
  show drop: "keeps wf_step (drop_tx c)"
    unfolding drop_tx_def
    by (intro wf.keeps_modify)
      (use delete_in in \<open>force simp: wf_step_def engine_wf_def AList.distinct_delete\<close>)
  have add: "keeps wf_step (modify_st (\<lambda>s. s\<lparr>active_transactions :=
      AList.update c \<lparr>tx_id = i, snapshot_version = v s, updates = []\<rparr> (active_transactions s)\<rparr>))" for i v
    by (intro wf.keeps_modify)
      (use update_in in \<open>force simp: wf_step_def engine_wf_def tx_wf_def AList.distinct_update\<close>)
  show "keeps wf_step (begin_tx E c)" unfolding begin_tx_def by (intro wf_intros add)
  show "keeps wf_step (rollback_tx c)" unfolding rollback_tx_def by (intro wf_intros drop)
qed

lemma wf_commit: "keeps wf_step (commit_tx E c)"
proof -
  have "keeps wf_step (install E ver kv)" for ver kv
    unfolding install_def by (intro wf_intros)
  then show ?thesis
    unfolding commit_tx_def
    by (auto intro!: wf_intros wf_bump wf_transactions(2) keeps_all_wf [OF keeps_occ_check] split: option.split)
qed

lemma wf_flush_command: "keeps wf_step (flush_command E)"
  unfolding flush_command_def
  by (intro wf_intros wf.keeps_modify) (simp add: wf_step_def engine_wf_def)

lemma wf_execute: "keeps wf_step (execute E sql c)"
  unfolding execute_def Let_def
  by (auto intro!: wf_intros wf_flush_command wf_transactions wf_commit keeps_all_wf [OF keeps_universal_search]
      keeps_statements wf.frame_rel_axioms wf_execute_statement)

lemma wf_drain: "keeps wf_step (drain_round E)"
proof -
  have "keeps wf_step (drain_entry E e)" for e
    unfolding drain_entry_def
    by (auto intro!: wf_intros wf.keeps_ignore_error keeps_on_tree_wf frame_insert split: wal_entry.split)
  then show ?thesis
    unfolding drain_round_def
    by (intro wf_intros wf.keeps_modify) (simp_all add: wf_step_def engine_wf_def)
qed

lemma wf_undo: "keeps wf_step undo" and wf_redo: "keeps wf_step redo"
  unfolding undo_def redo_def
  by (intro wf.keeps_modify; simp add: wf_step_def engine_wf_def)+

lemma wf_fresh: "mt_inv (memory_tier b) \<Longrightarrow> engine_wf (fresh_engine b)"
  by (simp add: engine_wf_def fresh_engine_def)

lemma wf_engine_new: "keeps wf_step (engine_new E)"
proof -
  have load: "keeps wf_step (load_meta E k)" for k
    unfolding load_meta_def
    by (auto intro!: wf_intros keeps_all_wf [OF keeps_on_tree [OF keeps_bt_get]] split: option.split)
  have "distinct (map fst (foldl (\<lambda>l (k, v). AList.update k v l) xs m))" if "distinct (map fst xs)" for xs m :: "(str \<times> table_schema) list"
    using that by (induction m arbitrary: xs) (auto simp: AList.distinct_update)
  then have sch: "keeps wf_step (modify_st (\<lambda>s. s\<lparr>schemas := foldl (\<lambda>l (k, v). AList.update k v l) [] m\<rparr>))"
    for m :: "(str \<times> table_schema) list"
    by (intro wf.keeps_modify) (simp add: wf_step_def engine_wf_def)
  have ver: "keeps wf_step (modify_st (current_version_update (\<lambda>_. v)))" for v
    by (intro wf.keeps_modify) (simp add: wf_step_def engine_wf_def)
  show ?thesis
    unfolding engine_new_def by (auto intro!: wf_intros load sch ver split: option.split)
qed

end
