(* ===== verification/Hardware.thy ===== *)
theory Hardware
  imports Engine
begin

text \<open>
  The figures of the machine, \<open>HardwareManager\<close> of \<open>src/src/storage/mod.rs\<close>, and the hit ratio
  of the memory tier. What \<open>sysinfo\<close> reads and floating-point arithmetic are the record
  \<open>machine\<close>; sizes are \<open>u64\<close> and wrap around as in the release build.
\<close>

text \<open>One reading of the machine; \<open>tenth\<close> is \<open>(x as f64 * 0.1) as u64\<close>, \<open>percentage a b\<close> is
  \<open>(a as f64 / b as f64) * 100.0\<close>.\<close>

record machine =
  cpus :: nat
  total_memory :: u64
  available_memory :: u64
  used_memory :: u64
  cpu_usage :: f64
  above_90 :: "f64 \<Rightarrow> bool"
  one_digit :: "f64 \<Rightarrow> string"
  two_digits :: "f64 \<Rightarrow> string"
  tenth :: "u64 \<Rightarrow> u64"
  percentage :: "u64 \<Rightarrow> u64 \<Rightarrow> f64"
  zero_percent :: f64

record hardware_specs =
  cpu_cores :: nat
  total_ram_mb :: u64
  available_ram_mb :: u64
  jet_buffer_size_mb :: u64
  writers :: nat
  readers :: nat

definition hardware_scan :: "machine \<Rightarrow> hardware_specs" where
  "hardware_scan M = (let available = available_memory M div 1024 div 1024 in
     \<lparr>cpu_cores = cpus M, total_ram_mb = total_memory M div 1024 div 1024, available_ram_mb = available,
      jet_buffer_size_mb = tenth M available, writers = cpus M, readers = cpus M * 4\<rparr>)"

datatype alert = Cpu_critical string | Ram_critical u64

definition check_alerts :: "machine \<Rightarrow> hardware_specs \<Rightarrow> alert list" where
  "check_alerts M specs = (let used_ram = (total_memory M - available_memory M) div 1024 div 1024 in
     (if above_90 M (cpu_usage M) then [Cpu_critical (two_digits M (cpu_usage M))] else [])
     @ (if total_ram_mb specs * 90 div 100 < used_ram then [Ram_critical used_ram] else []))"

definition get_hit_ratio :: "machine \<Rightarrow> mem_tier \<Rightarrow> f64" where
  "get_hit_ratio M m = (let total = hits m + misses m in
     if total = 0 then zero_percent M else percentage M (hits m) total)"

section \<open>When the alerts are right\<close>

lemma unat_mega: "unat (x div 1024 div 1024 :: u64) = unat x div 1048576"
  by (simp add: unat_div div_mult2_eq [symmetric])

text \<open>
  The memory alert against the machine's own figures is exact: it names the megabytes in use and
  appears when they are more than nine tenths of all, rounded down. No product overflows, for
  any size of memory; available memory above the total would wrap around.
\<close>

lemma ram_alert_exact:
  assumes "available_memory M \<le> total_memory M"
  shows "Ram_critical used \<in> set (check_alerts M (hardware_scan M)) \<longleftrightarrow>
    unat used = (unat (total_memory M) - unat (available_memory M)) div 1048576
    \<and> unat (total_memory M) div 1048576 * 90 div 100 < unat used"
proof -
  let ?t = "total_memory M div 1024 div 1024"
  have "unat (total_memory M) < 2 ^ 64" using unsigned_less [of "total_memory M"] by simp
  then have t: "unat ?t < 2 ^ 44" unfolding unat_mega by simp
  have "unat (w * 90 div 100) = unat w * 90 div 100" if "unat w < 2 ^ 44" for w :: u64
    using that by (simp add: unat_div unat_word_ariths)
  from this [OF t] have "unat (?t * 90 div 100) = unat (total_memory M) div 1048576 * 90 div 100"
    by (simp only: unat_mega)
  moreover have "unat ((total_memory M - available_memory M) div 1024 div 1024)
      = (unat (total_memory M) - unat (available_memory M)) div 1048576"
    unfolding unat_mega using assms by (simp add: unat_sub_if' word_le_nat_alt)
  ultimately show ?thesis
    by (auto simp: check_alerts_def hardware_scan_def Let_def word_less_nat_alt word_unat_eq_iff)
qed

end
