(* ===== verification/Server.thy ===== *)
theory Server
  imports Engine_Wf Engine_Tx_Samples Hardware
begin

text \<open>
  The server of \<open>src/src/network/server.rs\<close>: the line protocol of a TCP connection with its
  AUTH state, the HTTP handlers with their Authorization check, the status feed of \<open>/ws\<close>, and
  the drain thread of the engine as a concurrent step. The tasks interleave between events: one
  line of one connection, one request, one message of a feed, one drain round. A panic aborts
  the process (\<open>panic = 'abort'\<close>), in the drain thread too.

  JSON, the HTTP client, the readings of the machine, the number of messages the broadcast
  channel keeps (100 are asked for, and the tokio crate may keep more) and the file operations
  of \<open>hotswap\<close> and \<open>backup\<close> are fields of \<open>server_env\<close>. A backup reads the file that the pager
  has open; that is the file at \<open>db_path\<close> except after a hot swap that could not reopen it.
  Replies are returned; a reply that cannot be sent is ignored by the code.
\<close>

section \<open>State\<close>

text \<open>\<open>sent\<close> are the messages broadcast so far, \<open>subs\<close> the feeds with their position in them.\<close>

record server =
  eng :: engine
  sent :: "str list"
  subs :: "(nat \<times> nat) list"
  feed_ticks :: nat
  conns :: "(u32 \<times> bool) list"
  next_conn_id :: u32
  admin_user :: str
  admin_pass :: str
  db_path :: str
  alive :: bool

text \<open>The figures a feed shows.\<close>

record metric =
  m_cpu_cores :: nat
  m_cpu_load :: str
  m_ram_total :: u64
  m_ram_usage :: u64
  m_jet_buffer_mb :: u64
  m_rps :: u32
  m_is_saturated :: bool
  m_redis_mode :: bool
  m_cache_hit_ratio :: f64

record server_env =
  eenv :: engine_env
  machine_at :: "nat \<Rightarrow> machine"
  random_u32 :: "nat \<Rightarrow> u32"
  channel_slots :: nat
  json_log :: "str \<Rightarrow> str"
  json_metric :: "metric \<Rightarrow> str"
  json_bool :: "str \<Rightarrow> str \<Rightarrow> bool option"
  json_u64 :: "str \<Rightarrow> str \<Rightarrow> u64 option"
  json_str :: "str \<Rightarrow> str \<Rightarrow> str option"
  http_get :: "str \<Rightarrow> bytes option"
  can_write :: "str \<Rightarrow> bool"
  can_rename :: "str \<Rightarrow> str \<Rightarrow> bool"
  can_read :: "str \<Rightarrow> bool"

record response =
  status :: nat
  content :: bytes

definition server_new :: "engine \<Rightarrow> str \<Rightarrow> str \<Rightarrow> str \<Rightarrow> server" where
  "server_new e user pass path = \<lparr>eng = e, sent = [], subs = [], feed_ticks = 1, conns = [], next_conn_id = 1000,
     admin_user = user, admin_pass = pass, db_path = path, alive = True\<rparr>"

definition credentials :: "server \<Rightarrow> str" where
  "credentials s = admin_user s @ '':'' @ admin_pass s"

abbreviation on_tier :: "(mem_tier \<Rightarrow> mem_tier) \<Rightarrow> server \<Rightarrow> server" where
  "on_tier f \<equiv> eng_update (tree_update (memory_tier_update f))"

section \<open>TCP connections\<close>

definition accept :: "server \<Rightarrow> server" where
  "accept s = s\<lparr>conns := AList.update (next_conn_id s) False (conns s), next_conn_id := next_conn_id s + 1\<rparr>"

definition result_text :: "engine_env \<Rightarrow> err + str \<Rightarrow> str" where
  "result_text E r = (case r of Inr res \<Rightarrow> res | Inl e \<Rightarrow> ''Error: '' @ message E e)"

text \<open>\<open>engine.execute\<close> for one client; \<open>None\<close> when it does not return.\<close>

definition run_query :: "server_env \<Rightarrow> str \<Rightarrow> u32 \<Rightarrow> server \<Rightarrow> ((err + str) \<times> server) option" where
  "run_query E query conn_id s =
     map_option (\<lambda>(r, e). (r, s\<lparr>eng := e, sent := sent s @ [query], alive := (r \<noteq> Inl Panicked)\<rparr>))
       (execute (eenv E) query conn_id (eng s))"

text \<open>One line of a connection: the reply, and the server afterwards.\<close>

definition tcp_line :: "server_env \<Rightarrow> u32 \<Rightarrow> str \<Rightarrow> server \<Rightarrow> (str \<times> server) option" where
  "tcp_line E conn_id line s = (case map_of (conns s) conn_id of
      None \<Rightarrow> None
    | Some authenticated \<Rightarrow>
        let input = trim line in
        if \<not> authenticated then
          if prefix ''AUTH '' input \<and> trim (strip_prefixes ''AUTH '' input) = credentials s
          then Some (''AUTHENTICATED'' @ [CHR 0x0A], s\<lparr>conns := AList.update conn_id True (conns s)\<rparr>)
          else Some (''ERROR: Authentication Required. Send '' @ [CHR 0x27] @ ''AUTH <user>:<pass>'' @ [CHR 0x27, CHR 0x0A],
                 s\<lparr>conns := AList.delete conn_id (conns s)\<rparr>)
        else map_option (\<lambda>(r, s). (result_text (eenv E) r @ [CHR 0x0A], s)) (run_query E input conn_id s))"

section \<open>HTTP handlers\<close>

definition check_auth :: "server \<Rightarrow> str option \<Rightarrow> bool" where
  "check_auth s header = (case header of Some h \<Rightarrow> h = credentials s | None \<Rightarrow> False)"

definition reply :: "nat \<Rightarrow> str \<Rightarrow> response" where
  "reply st txt = \<lparr>status = st, content = to_bytes_of txt\<rparr>"

definition query_handler :: "server_env \<Rightarrow> str option \<Rightarrow> str \<Rightarrow> server \<Rightarrow> (response \<times> server) option" where
  "query_handler E header body s =
     (if \<not> check_auth s header then Some (reply 401 ''Unauthorized'', s)
      else map_option (\<lambda>(r, s). (case r of Inr res \<Rightarrow> reply 200 res
             | Inl e \<Rightarrow> reply 400 (''Error: '' @ message (eenv E) e), s)) (run_query E body 999 s))"

definition run_engine :: "(engine, unit) act \<Rightarrow> server \<Rightarrow> server option" where
  "run_engine m s = map_option (\<lambda>(r, e). s\<lparr>eng := e, alive := (r \<noteq> Inl Panicked)\<rparr>) (m (eng s))"

definition undo_handler :: "str option \<Rightarrow> server \<Rightarrow> (response \<times> server) option" where
  "undo_handler header s = (if \<not> check_auth s header then Some (reply 401 [], s)
     else map_option (Pair (reply 200 [])) (run_engine undo s))"

definition redo_handler :: "str option \<Rightarrow> server \<Rightarrow> (response \<times> server) option" where
  "redo_handler header s = (if \<not> check_auth s header then Some (reply 401 [], s)
     else map_option (Pair (reply 200 [])) (run_engine redo s))"

definition backup_handler :: "server_env \<Rightarrow> str option \<Rightarrow> server \<Rightarrow> (response \<times> server) option" where
  "backup_handler E header s = (if \<not> check_auth s header then Some (reply 401 [], s)
     else Some (\<lparr>status = 200,
       content = (if can_read E (db_path s) then disk (bt_pager (tree (eng s))) else [])\<rparr>, s))"

definition memory_mode_handler :: "server_env \<Rightarrow> str option \<Rightarrow> str \<Rightarrow> server \<Rightarrow> (response \<times> server) option" where
  "memory_mode_handler E header body s = (if \<not> check_auth s header then Some (reply 401 [], s)
     else case json_bool E body ''turbo'' of
       Some turbo \<Rightarrow> Some (reply 200 [], on_tier (turbo_mode_update (\<lambda>_. if turbo then 1 else 0)) s)
     | None \<Rightarrow> Some (reply 400 [], s))"

definition memory_limit_handler :: "server_env \<Rightarrow> str option \<Rightarrow> str \<Rightarrow> server \<Rightarrow> (response \<times> server) option" where
  "memory_limit_handler E header body s = (if \<not> check_auth s header then Some (reply 401 [], s)
     else case json_u64 E body ''limit_mb'' of
       Some limit \<Rightarrow> Some (reply 200 [], on_tier (max_ram_mb_update (\<lambda>_. limit)) s)
     | None \<Rightarrow> Some (reply 400 [], s))"

definition memory_purge_handler :: "str option \<Rightarrow> server \<Rightarrow> (response \<times> server) option" where
  "memory_purge_handler header s = (if \<not> check_auth s header then Some (reply 401 [], s)
     else Some (reply 200 [], on_tier mt_clear s))"

text \<open>The device after the downloaded file replaced the database file, or did not.\<close>

definition swapped :: "server_env \<Rightarrow> bytes \<Rightarrow> server \<Rightarrow> pager_env" where
  "swapped E data s = (let P = penv (benv (eenv E)) in
     P\<lparr>open_path := (\<lambda>p. if p = db_path s \<and> open_path P p \<noteq> None
       then Some (if can_rename E (db_path s @ ''.tmp'') (db_path s) then data else disk (bt_pager (tree (eng s))))
       else open_path P p)\<rparr>)"

definition hotswap_handler :: "server_env \<Rightarrow> str option \<Rightarrow> str \<Rightarrow> server \<Rightarrow> (response \<times> server) option" where
  "hotswap_handler E header body s = (if \<not> check_auth s header then Some (reply 401 [], s)
     else case Option.bind (json_str E body ''url'') (http_get E) of
       None \<Rightarrow> Some (reply 400 [], s)
     | Some data \<Rightarrow>
         if can_write E (db_path s @ ''.tmp'') then
           map_option (Pair (reply 200 []))
            (Option.bind (run_engine (flush (eenv E)) s) (\<lambda>s.
             Option.bind (run_engine (on_tree (on_pager (pager_sync (penv (benv (eenv E)))))) s)
               (run_engine (on_tree (on_pager (pager_reload (swapped E data s) (db_path s)))))))
         else Some (reply 400 [], s))"

datatype request =
    Query_req str
  | Undo_req
  | Redo_req
  | Backup_req
  | Mode_req str
  | Limit_req str
  | Purge_req
  | Hotswap_req str

definition handle_request :: "server_env \<Rightarrow> str option \<Rightarrow> request \<Rightarrow> server \<Rightarrow> (response \<times> server) option" where
  "handle_request E header req = (case req of
      Query_req b \<Rightarrow> query_handler E header b
    | Undo_req \<Rightarrow> undo_handler header
    | Redo_req \<Rightarrow> redo_handler header
    | Backup_req \<Rightarrow> backup_handler E header
    | Mode_req b \<Rightarrow> memory_mode_handler E header b
    | Limit_req b \<Rightarrow> memory_limit_handler E header b
    | Purge_req \<Rightarrow> memory_purge_handler header
    | Hotswap_req b \<Rightarrow> hotswap_handler E header b)"

section \<open>The status feed\<close>

text \<open>
  A feed starts behind the last message. When it is more than the channel's slots behind, the
  receive fails and the position moves to the oldest message kept.
\<close>

definition feed_open :: "nat \<Rightarrow> server \<Rightarrow> server option" where
  "feed_open w s = (if map_of (subs s) w = None then Some (s\<lparr>subs := (w, length (sent s)) # subs s\<rparr>) else None)"

definition feed_recv :: "server_env \<Rightarrow> nat \<Rightarrow> server \<Rightarrow> (str option \<times> server) option" where
  "feed_recv E w s = (case map_of (subs s) w of
      None \<Rightarrow> None
    | Some pos \<Rightarrow>
        if length (sent s) \<le> pos then None
        else if pos + channel_slots E < length (sent s)
        then Some (None, s\<lparr>subs := AList.update w (length (sent s) - channel_slots E) (subs s)\<rparr>)
        else Some (Some (json_log E (sent s ! pos)), s\<lparr>subs := AList.update w (pos + 1) (subs s)\<rparr>))"

text \<open>The figures sent after 100 ms without a message; the fixed ones were read at the start.\<close>

definition feed_metric :: "server_env \<Rightarrow> server \<Rightarrow> metric" where
  "feed_metric E s = (let hw = hardware_scan (machine_at E 0); M = machine_at E (feed_ticks s);
       mem = memory_tier (tree (eng s)) in
     \<lparr>m_cpu_cores = cpu_cores hw, m_cpu_load = one_digit M (cpu_usage M), m_ram_total = total_ram_mb hw,
      m_ram_usage = used_memory M div 1024 div 1024, m_jet_buffer_mb = jet_buffer_size_mb hw,
      m_rps = 10000 + random_u32 E (feed_ticks s) mod 5000, m_is_saturated = above_90 M (cpu_usage M),
      m_redis_mode = (turbo_mode mem = 1), m_cache_hit_ratio = get_hit_ratio M mem\<rparr>)"

definition feed_tick :: "server_env \<Rightarrow> nat \<Rightarrow> server \<Rightarrow> (str \<times> server) option" where
  "feed_tick E w s = (if map_of (subs s) w = None then None
     else Some (json_metric E (feed_metric E s), s\<lparr>feed_ticks := Suc (feed_ticks s)\<rparr>))"

text \<open>A message that cannot be sent ends the feed.\<close>

definition feed_close :: "nat \<Rightarrow> server \<Rightarrow> server" where
  "feed_close w s = s\<lparr>subs := AList.delete w (subs s)\<rparr>"

section \<open>Events\<close>

datatype event =
    Accepted
  | Line u32 str
  | Closed u32
  | Http "str option" request
  | Feed_open nat
  | Feed_recv nat
  | Feed_tick nat
  | Feed_closed nat
  | Drained

definition serve :: "server_env \<Rightarrow> event \<Rightarrow> server \<Rightarrow> server option" where
  "serve E ev s = (if \<not> alive s then None else case ev of
      Accepted \<Rightarrow> Some (accept s)
    | Line c line \<Rightarrow> map_option snd (tcp_line E c line s)
    | Closed c \<Rightarrow> Some (s\<lparr>conns := AList.delete c (conns s)\<rparr>)
    | Http header req \<Rightarrow> map_option snd (handle_request E header req s)
    | Feed_open w \<Rightarrow> feed_open w s
    | Feed_recv w \<Rightarrow> map_option snd (feed_recv E w s)
    | Feed_tick w \<Rightarrow> map_option snd (feed_tick E w s)
    | Feed_closed w \<Rightarrow> Some (feed_close w s)
    | Drained \<Rightarrow> run_engine (drain_round (eenv E)) s)"

inductive runs :: "server_env \<Rightarrow> server \<Rightarrow> event list \<Rightarrow> server \<Rightarrow> bool" for E s where
  start: "runs E s [] s"
| step: "runs E s evs t \<Longrightarrow> serve E ev t = Some u \<Longrightarrow> runs E s (evs @ [ev]) u"

inductive_cases runs_snocE: "runs E s (evs @ [ev]) u"

section \<open>Without credentials nothing happens\<close>

text \<open>The event carries the right user and password.\<close>

definition presents :: "str \<Rightarrow> event \<Rightarrow> bool" where
  "presents cred ev = (case ev of
      Line c line \<Rightarrow> prefix ''AUTH '' (trim line) \<and> trim (strip_prefixes ''AUTH '' (trim line)) = cred
    | Http header req \<Rightarrow> header = Some cred
    | _ \<Rightarrow> False)"

definition drain_step :: "engine_env \<Rightarrow> engine \<Rightarrow> engine \<Rightarrow> bool" where
  "drain_step E e e' \<longleftrightarrow> (\<exists>r. drain_round E e = Some (r, e'))"

definition outsider :: "server \<Rightarrow> bool" where
  "outsider s \<longleftrightarrow> (\<forall>p \<in> set (conns s). \<not> snd p)"

lemma outsider_conn: "outsider s \<Longrightarrow> map_of (conns s) c = Some a \<Longrightarrow> \<not> a"
  by (fastforce simp: outsider_def dest: map_of_SomeD)

lemma handle_unauthorized:
  assumes "\<not> check_auth s header" and "handle_request E header req s = Some (r, s')"
  shows "s' = s \<and> status r = 401"
  using assms
  by (cases req)
    (auto simp: handle_request_def query_handler_def undo_handler_def redo_handler_def backup_handler_def
      memory_mode_handler_def memory_limit_handler_def memory_purge_handler_def hotswap_handler_def reply_def)

definition is_feed :: "event \<Rightarrow> bool" where
  "is_feed ev \<longleftrightarrow> (case ev of Feed_open _ \<Rightarrow> True | Feed_recv _ \<Rightarrow> True | Feed_tick _ \<Rightarrow> True | Feed_closed _ \<Rightarrow> True
     | _ \<Rightarrow> False)"

text \<open>Feeds change nothing but their own positions and the count of readings.\<close>

lemma serve_feed:
  assumes "serve E ev s = Some s'" and "is_feed ev"
  obtains ps n where "s' = s\<lparr>subs := ps, feed_ticks := n\<rparr>"
proof -
  have "\<exists>ps n. s' = s\<lparr>subs := ps, feed_ticks := n\<rparr>"
  proof (cases ev)
    case (Feed_open w)
    with assms(1) show ?thesis
      by (intro exI [of _ "subs s'"] exI [of _ "feed_ticks s"]) (auto simp: serve_def feed_open_def split: if_splits)
  next
    case (Feed_recv w)
    with assms(1) show ?thesis
      by (intro exI [of _ "subs s'"] exI [of _ "feed_ticks s"])
        (auto simp: serve_def feed_recv_def split: if_splits option.splits)
  next
    case (Feed_tick w)
    with assms(1) show ?thesis
      by (intro exI [of _ "subs s"] exI [of _ "feed_ticks s'"]) (auto simp: serve_def feed_tick_def split: if_splits)
  next
    case (Feed_closed w)
    with assms(1) show ?thesis
      by (intro exI [of _ "subs s'"] exI [of _ "feed_ticks s"]) (auto simp: serve_def feed_close_def split: if_splits)
  qed (use assms(2) in \<open>simp_all add: is_feed_def\<close>)
  with that show thesis by blast
qed

lemma serve_outsider:
  assumes "serve E ev s = Some s'" and "outsider s" and "\<not> presents (credentials s) ev"
  shows "outsider s' \<and> credentials s' = credentials s \<and> sent s' = sent s
    \<and> (eng s' = eng s \<or> drain_step (eenv E) (eng s) (eng s'))"
proof (cases "is_feed ev")
  case True
  with assms(1) obtain ps n where "s' = s\<lparr>subs := ps, feed_ticks := n\<rparr>" by (rule serve_feed)
  with assms(2) show ?thesis by (simp add: outsider_def credentials_def)
next
  case plain: False
  show ?thesis
  proof (cases ev)
    case Accepted
    with assms update_in [of "next_conn_id s" False "conns s"] show ?thesis
      by (auto simp: serve_def accept_def outsider_def credentials_def split: if_splits)
  next
    case (Line c line)
    with assms obtain out where t: "tcp_line E c line s = Some (out, s')"
      by (auto simp: serve_def split: if_splits)
    then obtain a where a: "map_of (conns s) c = Some a" by (auto simp: tcp_line_def split: option.splits)
    with outsider_conn [OF assms(2)] t assms(3) Line have "s' = s\<lparr>conns := AList.delete c (conns s)\<rparr>"
      by (auto simp: tcp_line_def presents_def Let_def split: if_splits)
    with assms(2) delete_in [of c "conns s"] show ?thesis by (auto simp: outsider_def credentials_def)
  next
    case (Closed c)
    with assms delete_in [of c "conns s"] show ?thesis
      by (auto simp: serve_def outsider_def credentials_def split: if_splits)
  next
    case (Http header req)
    with assms have "\<not> check_auth s header" by (auto simp: check_auth_def presents_def split: option.splits)
    moreover from assms Http obtain r where "handle_request E header req s = Some (r, s')"
      by (auto simp: serve_def split: if_splits)
    ultimately have "s' = s" using handle_unauthorized by blast
    with assms show ?thesis by simp
  next
    case Drained
    with assms show ?thesis
      by (auto simp: serve_def run_engine_def drain_step_def outsider_def credentials_def split: if_splits)
  qed (use plain in \<open>simp_all add: is_feed_def\<close>)
qed

lemma outsider_runs:
  assumes "runs E s evs s'" and "outsider s" and "\<forall>ev \<in> set evs. \<not> presents (credentials s) ev"
  shows "outsider s' \<and> credentials s' = credentials s \<and> sent s' = sent s
    \<and> (drain_step (eenv E))\<^sup>*\<^sup>* (eng s) (eng s')"
  using assms
proof (induction rule: runs.induct)
  case (step evs t ev u)
  then have IH: "outsider t" "credentials t = credentials s" "sent t = sent s"
    "(drain_step (eenv E))\<^sup>*\<^sup>* (eng s) (eng t)" by auto
  have "\<not> presents (credentials t) ev" using step.prems IH(2) by simp
  from serve_outsider [OF step.hyps(2) IH(1) this] IH show ?case
    by (auto intro: rtranclp.rtrancl_into_rtrancl)
qed simp

text \<open>
  C15 (server, authentication): from a server without authenticated connections, as long as no
  event presents the right credentials, in a correct AUTH line or a correct Authorization
  header, no query of any client is executed or broadcast and the engine changes only by
  rounds of its own drain thread, whatever is sent and however the tasks interleave.
\<close>

theorem no_credentials_no_effect:
  assumes "runs E (server_new e user pass path) evs s'"
    and "\<forall>ev \<in> set evs. \<not> presents (user @ '':'' @ pass) ev"
  shows "sent s' = [] \<and> (\<forall>p \<in> set (conns s'). \<not> snd p) \<and> (drain_step (eenv E))\<^sup>*\<^sup>* e (eng s')"
proof -
  have "outsider (server_new e user pass path)" "credentials (server_new e user pass path) = user @ '':'' @ pass"
    by (simp_all add: outsider_def server_new_def credentials_def)
  with outsider_runs [OF assms(1)] assms(2) show ?thesis
    by (auto simp: outsider_def server_new_def)
qed

section \<open>The engine's invariant while the server runs\<close>

lemma frame_wf: "wf_step e (tree_update (\<lambda>t. t\<lparr>bt_pager := p\<rparr>) e)"
  by (simp add: wf_step_def engine_wf_def)

lemma run_engine_wf: "keeps wf_step m \<Longrightarrow> run_engine m s = Some s' \<Longrightarrow> wf_step (eng s) (eng s')"
  by (auto simp: run_engine_def dest: keepsD)

lemma run_query_wf: "run_query E q c s = Some (r, s') \<Longrightarrow> wf_step (eng s) (eng s')"
  by (auto simp: run_query_def dest: keepsD [OF wf_execute])

lemma wf_pager: "keeps wf_step (on_tree (on_pager m))"
  by (rule keeps_on_tree_wf [OF frame_pager])

lemma hotswap_wf:
  assumes "hotswap_handler E header b s = Some (r, s')"
  shows "wf_step (eng s) (eng s')"
proof (cases "s' = s")
  case False
  with assms obtain data s1 s2 where s1: "run_engine (flush (eenv E)) s = Some s1"
    and s2: "run_engine (on_tree (on_pager (pager_sync (penv (benv (eenv E)))))) s1 = Some s2"
    and s3: "run_engine (on_tree (on_pager (pager_reload (swapped E data s1) (db_path s1)))) s2 = Some s'"
    by (auto simp: hotswap_handler_def bind_eq_Some_conv split: if_splits option.splits)
  show ?thesis
    using run_engine_wf [OF keeps_log_wf [OF keeps_flush] s1] run_engine_wf [OF wf_pager s2]
      run_engine_wf [OF wf_pager s3]
    by (blast intro: wf.trans)
qed (simp add: wf.refl)

lemma query_wf: "query_handler E header b s = Some (r, s') \<Longrightarrow> wf_step (eng s) (eng s')"
  by (auto simp: query_handler_def wf.refl split: if_splits dest: run_query_wf)

lemma undo_redo_wf:
  "undo_handler header s = Some (r, s') \<Longrightarrow> wf_step (eng s) (eng s')"
  "redo_handler header s = Some (r, s') \<Longrightarrow> wf_step (eng s) (eng s')"
  by (auto simp: undo_handler_def redo_handler_def wf.refl split: if_splits
      dest: run_engine_wf [OF wf_undo] run_engine_wf [OF wf_redo])

lemma mt_inv_settings [simp]:
  "mt_inv (m\<lparr>turbo_mode := x\<rparr>) = mt_inv m" "mt_inv (m\<lparr>max_ram_mb := x\<rparr>) = mt_inv m"
  by (simp_all add: mt_inv_def)

lemma memory_wf:
  "memory_mode_handler E header b s = Some (r, s') \<Longrightarrow> wf_step (eng s) (eng s')"
  "memory_limit_handler E header b s = Some (r, s') \<Longrightarrow> wf_step (eng s) (eng s')"
  "memory_purge_handler header s = Some (r, s') \<Longrightarrow> wf_step (eng s) (eng s')"
  "backup_handler E header s = Some (r, s') \<Longrightarrow> wf_step (eng s) (eng s')"
  by (auto simp: memory_mode_handler_def memory_limit_handler_def memory_purge_handler_def backup_handler_def
      wf_step_def engine_wf_def split: if_splits option.splits)

lemma handle_request_wf: "handle_request E header req s = Some (r, s') \<Longrightarrow> wf_step (eng s) (eng s')"
  by (cases req) (simp_all add: handle_request_def query_wf undo_redo_wf memory_wf hotswap_wf)

lemma tcp_line_wf: "tcp_line E c line s = Some (out, s') \<Longrightarrow> wf_step (eng s) (eng s')"
  by (auto simp: tcp_line_def Let_def wf.refl split: if_splits option.splits dest: run_query_wf)

lemma serve_wf:
  assumes "serve E ev s = Some s'"
  shows "wf_step (eng s) (eng s')"
proof (cases "is_feed ev")
  case True
  with assms obtain ps n where "s' = s\<lparr>subs := ps, feed_ticks := n\<rparr>" by (rule serve_feed)
  then show ?thesis by (simp add: wf.refl)
next
  case False
  with assms show ?thesis
    by (cases ev)
      (auto simp: serve_def accept_def wf.refl is_feed_def
        split: if_splits dest: tcp_line_wf handle_request_wf run_engine_wf [OF wf_drain])
qed

lemma runs_wf: "runs E s evs s' \<Longrightarrow> engine_wf (eng s) \<Longrightarrow> engine_wf (eng s')"
proof (induction rule: runs.induct)
  case (step evs t ev u)
  then show ?case using serve_wf by (auto simp: wf_step_def)
qed

section \<open>Purging the memory tier\<close>

text \<open>
  A purge loses rows for readers: an authorized purge request on a stored database answers and empties the
  memory tier; scans then show the rows of the tree only. The rows of records that the drain
  thread has not yet inserted into the tree are no longer shown.
\<close>

lemma purge_hides_undrained:
  assumes "stored (eenv E) (eng s) t" and "alive s" and "header = Some (credentials s)"
    and "\<forall>kv \<in> set (entries t). readable (eenv E) tbl (current_version (eng s)) kv"
  shows "\<exists>s' e. serve E (Http header Purge_req) s = Some s'
    \<and> scan_table (eenv E) tbl (current_version (eng s')) (eng s')
      = Some (Inr (rows_of (eenv E) tbl (current_version (eng s')) (entries t)), e)"
proof -
  let ?s = "on_tier mt_clear s"
  have s': "serve E (Http header Purge_req) s = Some ?s"
    using assms(2,3) by (simp add: serve_def handle_request_def memory_purge_handler_def check_auth_def)
  have st: "stored (eenv E) (eng ?s) t"
    by (rule stored_tier [OF assms(1), of "mt_clear (tier (eng s))"]) simp_all
  have c: "cached_entries (eng ?s) = []" by (simp add: mt_clear_def)
  have "table_readable (eenv E) tbl (current_version (eng ?s)) (cached_entries (eng ?s)) (entries t)"
    using assms(4) unfolding c by (simp add: table_readable_def)
  then obtain e where e: "scan_table (eenv E) tbl (current_version (eng ?s)) (eng ?s)
      = Some (Inr (table_rows (eenv E) tbl (current_version (eng ?s)) (cached_entries (eng ?s)) (entries t)), e)"
    by (rule table_scan_sim [OF st])
  have "table_rows (eenv E) tbl ver [] es = rows_of (eenv E) tbl ver es" for ver es
    by (simp add: table_rows_def shown_def List.map_filter_simps)
  with e c s' show ?thesis by metis
qed

section \<open>A query that stops the server\<close>

text \<open>SQL text that is none of the commands \<open>execute\<close> handles before parsing.\<close>

definition plain_sql :: "engine_env \<Rightarrow> str \<Rightarrow> bool" where
  "plain_sql E sql \<longleftrightarrow> (let u = to_upper E (trim sql) in
     u \<notin> {''FLUSH'', ''BEGIN'', ''BEGIN TRANSACTION'', ''COMMIT'', ''ROLLBACK''} \<and> \<not> prefix ''SEARCH'' u)"

text \<open>
  C38 (server, panic): a SELECT without FROM, sent by an authenticated connection, panics on
  \<open>from[0]\<close>; the process aborts and no event is served any more, for any client.
\<close>

theorem select_without_from_stops_server:
  assumes "alive s" and "map_of (conns s) c = Some True" and "trim line = sql"
    and "plain_sql (eenv E) sql" and "parse_sql (eenv E) sql = Inr (Query q # stmts)"
    and "\<not> prefix ''CALL'' (show_statement (eenv E) (Query q))"
    and "query_body q = Select sel" and "from_tables sel = []"
  shows "\<exists>s'. serve E (Line c line) s = Some s' \<and> (\<forall>ev. serve E ev s' = None)"
proof -
  have "execute_statement (eenv E) (Query q) c (eng s) = Some (Inl Panicked, eng s)"
    using assms(6-8)
    by (simp add: execute_statement_def dispatch_def handle_query_def vec_get_def Let_def)
  then have "run_statement (eenv E) (Query q) c 0 (eng s) = Some (Inl Panicked, eng s)"
    by (subst run_statement.simps) simp
  then have "execute (eenv E) sql c (eng s) = Some (Inl Panicked, eng s)"
    using assms(4,5) by (simp add: execute_def plain_sql_def Let_def seq_Inl)
  then have "serve E (Line c line) s = Some (s\<lparr>eng := eng s, sent := sent s @ [sql], alive := False\<rparr>)"
    using assms(1-3) by (simp add: serve_def tcp_line_def run_query_def Let_def)
  then show ?thesis by (auto simp: serve_def)
qed

section \<open>Witnesses\<close>

definition sample_machine :: machine where
  "sample_machine = \<lparr>cpus = 4, total_memory = 8589934592, available_memory = 4294967296, used_memory = 4294967296,
     cpu_usage = 0, above_90 = (\<lambda>_. False), one_digit = (\<lambda>_. ''0.0''), two_digits = (\<lambda>_. ''0.00''),
     tenth = (\<lambda>x. x div 10), percentage = (\<lambda>_ _. 0), zero_percent = 0\<rparr>"

definition sample_server_env :: server_env where
  "sample_server_env = \<lparr>eenv = SE\<lparr>parse_sql := (\<lambda>_. Inr [Query \<lparr>query_body = Select \<lparr>from_tables = [],
       projection = [], selection = None\<rparr>, query_limit = None\<rparr>])\<rparr>,
     machine_at = (\<lambda>_. sample_machine), random_u32 = (\<lambda>_. 0), channel_slots = 128, json_log = (\<lambda>q. q),
     json_metric = (\<lambda>_. ''metric''), json_bool = (\<lambda>_ _. None), json_u64 = (\<lambda>_ _. None), json_str = (\<lambda>_ _. None), http_get = (\<lambda>_. None),
     can_write = (\<lambda>_. False), can_rename = (\<lambda>_ _. False), can_read = (\<lambda>_. True)\<rparr>"

lemma sample_texts [simp]:
  "trim ''AUTH admin:x'' = ''AUTH admin:x''" "trim ''admin:x'' = ''admin:x''" "trim ''SELECT 1'' = ''SELECT 1''"
  by (rule trim_id, simp add: trimmed_def white_space_def suffix_to_prefix)+

lemma sample_upper [simp]: "to_uppercase other ''SELECT 1'' = ''SELECT 1''"
  by (simp add: to_uppercase_def ascii_upper_def less_eq_char_def)

definition sample_events :: "event list" where
  "sample_events = [Accepted, Line 1000 ''AUTH admin:x'', Http None Purge_req]"

lemma strip_sample: "strip_prefixes ''AUTH '' ''AUTH admin:x'' = ''admin:x''"
  by (simp add: strip_prefixes.simps)

lemma sample_serving:
  "runs sample_server_env (server_new e ''admin'' ''pw'' ''db'') sample_events
    ((server_new e ''admin'' ''pw'' ''db'')\<lparr>next_conn_id := 1001\<rparr>)"
proof -
  let ?s = "server_new e ''admin'' ''pw'' ''db''"
  let ?s1 = "?s\<lparr>conns := [(1000, False)], next_conn_id := 1001\<rparr>"
  have "serve sample_server_env Accepted ?s = Some ?s1"
    by (simp add: serve_def server_new_def accept_def)
  then have 1: "runs sample_server_env ?s ([] @ [Accepted]) ?s1" by (rule runs.step [OF runs.start])
  have "serve sample_server_env (Line 1000 ''AUTH admin:x'') ?s1 = Some (?s\<lparr>next_conn_id := 1001\<rparr>)"
    by (simp add: serve_def server_new_def tcp_line_def strip_sample credentials_def)
  then have 2: "runs sample_server_env ?s (([] @ [Accepted]) @ [Line 1000 ''AUTH admin:x'']) (?s\<lparr>next_conn_id := 1001\<rparr>)"
    by (rule runs.step [OF 1])
  have "serve sample_server_env (Http None Purge_req) (?s\<lparr>next_conn_id := 1001\<rparr>) = Some (?s\<lparr>next_conn_id := 1001\<rparr>)"
    by (simp add: serve_def server_new_def handle_request_def memory_purge_handler_def check_auth_def)
  from runs.step [OF 2 this] show ?thesis by (simp add: sample_events_def)
qed

theorem no_credentials_no_effect_witness:
  "\<exists>e s'. runs sample_server_env (server_new e ''admin'' ''pw'' ''db'') sample_events s'
    \<and> stored SE e empty_tree \<and> sent s' = [] \<and> (drain_step (eenv sample_server_env))\<^sup>*\<^sup>* e (eng s')"
proof -
  obtain b where b: "stored SE (fresh_engine b) empty_tree" by (rule sample_empty)
  have "\<forall>ev \<in> set sample_events. \<not> presents (''admin'' @ '':'' @ ''pw'') ev"
    by (simp add: sample_events_def presents_def strip_sample)
  from no_credentials_no_effect [OF sample_serving [of "fresh_engine b"] this] sample_serving b show ?thesis by blast
qed

text \<open>The inserted record is in the tier only; after the purge the table is empty.\<close>

lemma sample_purge_env: "benv (eenv sample_server_env) = sample_tree_env"
  by (simp add: sample_server_env_def)

lemma purge_hides_undrained_sample:
  "\<exists>s s' e. mt_lookup (tier (eng s)) one_key = Some (put_rec one_record)
    \<and> serve sample_server_env (Http (Some ''admin:pw'') Purge_req) s = Some s'
    \<and> scan_table (eenv sample_server_env) ''t'' (current_version (eng s')) (eng s') = Some (Inr [], e)"
proof -
  obtain b where b: "stored SE (fresh_engine b) empty_tree" "memory_tier b = mt_new 64"
    by (rule sample_empty)
  let ?m = "mt_insert 0 one_key (put_rec one_record) (mt_new 64)"
  let ?e = "(fresh_engine b)\<lparr>tree := b\<lparr>memory_tier := ?m\<rparr>\<rparr>"
  let ?s = "server_new ?e ''admin'' ''pw'' ''db''"
  have "stored SE ?e empty_tree" by (rule stored_tier [OF b(1), of ?m]) auto
  then have "stored (eenv sample_server_env) (eng ?s) empty_tree"
    by (simp add: stored_def sample_purge_env server_new_def)
  moreover have "Some ''admin:pw'' = Some (credentials ?s)" by (simp add: credentials_def server_new_def)
  ultimately have "\<exists>s' e. serve sample_server_env (Http (Some ''admin:pw'') Purge_req) ?s = Some s'
      \<and> scan_table (eenv sample_server_env) ''t'' (current_version (eng s')) (eng s')
        = Some (Inr (rows_of (eenv sample_server_env) ''t'' (current_version (eng s')) (entries empty_tree)), e)"
    by (intro purge_hides_undrained) (simp_all add: server_new_def)
  moreover have "mt_lookup (tier (eng ?s)) one_key = Some (put_rec one_record)"
    by (simp add: server_new_def mt_lookup_insert)
  ultimately show ?thesis by (auto simp: List.map_filter_simps)
qed

theorem select_without_from_stops_server_witness:
  "\<exists>s s'. alive s \<and> serve sample_server_env (Line 1000 ''SELECT 1'') s = Some s'
    \<and> serve sample_server_env Accepted s' = None"
proof -
  let ?q = "\<lparr>query_body = Select \<lparr>from_tables = [], projection = [], selection = None\<rparr>, query_limit = None\<rparr>"
  obtain b where "stored SE (fresh_engine b) empty_tree" by (rule sample_empty)
  let ?s = "(server_new (fresh_engine b) ''admin'' ''pw'' ''db'')\<lparr>conns := [(1000, True)]\<rparr>"
  have "\<exists>s'. serve sample_server_env (Line 1000 ''SELECT 1'') ?s = Some s' \<and> (\<forall>ev. serve sample_server_env ev s' = None)"
    by (rule select_without_from_stops_server [where sql = "''SELECT 1''" and q = ?q and stmts = "[]"])
      (simp_all add: server_new_def plain_sql_def, simp_all add: sample_server_env_def sample_engine_env_def)
  moreover have "alive ?s" by (simp add: server_new_def)
  ultimately show ?thesis by blast
qed

end
