(* ===== verification/Restart.thy ===== *)
theory Restart
  imports Engine_Drain Engine_Wf
begin

text \<open>
  Opening a database again after a crash, \<open>Engine::new\<close> on the file and the log: the tree, the
  memory tier with the records of the log, and what is not stored anywhere.
\<close>

section \<open>The memory tier after the replay\<close>

fun replay_tier :: "(nat \<Rightarrow> int) \<Rightarrow> nat \<Rightarrow> wal_entry list \<Rightarrow> mem_tier \<Rightarrow> mem_tier" where
  "replay_tier clock i [] m = m"
| "replay_tier clock i (e # es) m = replay_tier clock (Suc i) es
     (case e of RecordUpdate k d \<Rightarrow> mt_insert (clock i) k d m | _ \<Rightarrow> m)"

abbreviation same_mem :: "btree \<Rightarrow> btree \<Rightarrow> bool" where
  "same_mem s s' \<equiv> memory_tier s' = memory_tier s"

interpretation mem: frame_rel same_mem
  by unfold_locales auto

lemma keeps_pager_mem: "keeps same_mem (on_pager m)"
  by (auto simp: keeps_def zoom_def)

lemma replay_mem:
  "replay E now e s = Some (r, s') \<Longrightarrow>
   memory_tier s' = (case e of RecordUpdate k d \<Rightarrow> mt_insert now k d (memory_tier s) | _ \<Rightarrow> memory_tier s)"
  by (cases e) (auto simp: replay_def dest: keepsD [OF keeps_pager_mem])

lemma replays_mem:
  "for_each (enumerate i es) (\<lambda>(i, e). replay E (clock i) e) s = Some (Inr (), s') \<Longrightarrow>
   memory_tier s' = replay_tier clock i es (memory_tier s)"
proof (induction es arbitrary: i s)
  case (Cons e es)
  from Cons.prems obtain u s1 where "replay E (clock i) e s = Some (Inr u, s1)"
    "for_each (enumerate (Suc i) es) (\<lambda>(i, e). replay E (clock i) e) s1 = Some (Inr (), s')"
    by (auto elim: seq_InrE)
  with Cons.IH [of "Suc i" s1] replay_mem [of E "clock i" e s "Inr u" s1] show ?case by simp
qed simp

lemma open_tier:
  assumes "bt_open E clock boots f wc m = Some (Inr (), s')"
  shows "memory_tier s' = replay_tier clock 0 (recovered_entries (wal_open (wenv E) wc)) m"
proof -
  let ?es = "recovered_entries (wal_open (wenv E) wc)"
  obtain w where w: "wal_read_all (wal_open (wenv E) wc) = (?es, w)" by (simp add: wal_read_all_def)
  let ?init = "\<lparr>bt_pager = pager_open f, bt_wal = w, root_page_id = 0, memory_tier = m\<rparr>"
  let ?replay = "if ?es \<noteq> [] then seq (for_each (enumerate 0 ?es) (\<lambda>(i, e). replay E (clock i) e))
      (\<lambda>_. on_pager (pager_sync (penv E))) else ret ()"
  let ?rest = "seq (modify_st (\<lambda>s. if boots then s\<lparr>bt_pager := pager_boot (bt_pager s)\<rparr> else s)) (\<lambda>_.
      seq (read_st (\<lambda>s. num_pages (bt_pager s))) (\<lambda>n. if n = 0 then
        seq (of_result (to_bytes E new_leaf)) (\<lambda>bs. seq (on_pager (write_page (penv E) 0 bs))
          (\<lambda>_. on_pager (pager_sync (penv E)))) else ret ()))"
  have "seq ?replay (\<lambda>_. ?rest) ?init = Some (Inr (), s')"
    using assms unfolding bt_open_def w by simp
  then obtain u s1 where s1: "?replay ?init = Some (Inr u, s1)" "?rest s1 = Some (Inr (), s')"
    by (rule seq_InrE)
  have "keeps same_mem ?rest"
    by (auto intro!: mem.keeps_intros mem.keeps_modify keeps_pager_mem)
  then have "memory_tier s' = memory_tier s1" using s1(2) by (rule keepsD)
  moreover have "memory_tier s1 = replay_tier clock 0 ?es m"
  proof (cases "?es = []")
    case True
    with s1(1) show ?thesis by auto
  next
    case False
    with s1(1) obtain u' s2 where s2: "for_each (enumerate 0 ?es) (\<lambda>(i, e). replay E (clock i) e) ?init = Some (Inr u', s2)"
      "on_pager (pager_sync (penv E)) s2 = Some (Inr u, s1)"
      by (auto elim: seq_InrE)
    with replays_mem [of 0 ?es E clock ?init s2] keepsD [OF keeps_pager_mem s2(2)] show ?thesis by simp
  qed
  ultimately show ?thesis by simp
qed

lemma replay_tier_lookup:
  "mt_inv m \<Longrightarrow> room_for (length (record_updates es)) m \<Longrightarrow> mt_inv (replay_tier clock i es m)
    \<and> mt_lookup (replay_tier clock i es m) = mt_lookup m ++ map_of (rev (record_updates es))"
proof (induction es arbitrary: i m)
  case (Cons e es)
  show ?case
  proof (cases "\<exists>k d. e = RecordUpdate k d")
    case True
    then obtain k d where e: "e = RecordUpdate k d" by blast
    with Cons.prems(2) have "room_for (Suc (length (record_updates es))) m" by simp
    note ins = no_evict [OF this, of "clock i" k d]
    have "mt_inv (mt_insert (clock i) k d m)" using Cons.prems(1) by auto
    with Cons.IH [OF this ins(2), of "Suc i"] ins(1) show ?thesis
      by (simp add: e fun_eq_iff map_add_def split: option.split)
  next
    case False
    then have e: "record_updates (e # es) = record_updates es" by (simp add: record_updates_skip)
    with Cons.prems have "mt_inv m" "room_for (length (record_updates es)) m" by simp_all
    from Cons.IH [OF this, of "Suc i"] e False show ?thesis by (cases e) auto
  qed
qed simp

lemma replay_tier_inv: "mt_inv m \<Longrightarrow> mt_inv (replay_tier clock i es m)"
  by (induction es arbitrary: i m) (auto split: wal_entry.split)

lemma engine_open_wf:
  assumes "engine_open E clock boots db wc = Some (Inr (), s)"
  shows "engine_wf s"
proof -
  obtain b where b: "bt_open (benv E) clock boots db wc (mt_new 1024) = Some (Inr (), b)"
    "engine_new E (fresh_engine b) = Some (Inr (), s)"
    using assms by (auto simp: engine_open_def split: option.splits sum.splits)
  have "engine_wf (fresh_engine b)" by (simp add: wf_fresh open_tier [OF b(1)] replay_tier_inv)
  with keepsD [OF wf_engine_new b(2)] show ?thesis by (simp add: wf_step_def)
qed

section \<open>Opening the engine\<close>

text \<open>The record of a key in the log, or else in the tree.\<close>

definition recovered_data :: "wal_entry list \<Rightarrow> ptree \<Rightarrow> bytes \<Rightarrow> bytes option" where
  "recovered_data es t k = (case map_of (rev (record_updates es)) k of Some d \<Rightarrow> Some d | None \<Rightarrow> map_of (entries t) k)"

lemma load_meta_ok:
  assumes "stored E s t" and "\<And>d. current_data s t key = Some d \<Longrightarrow> de_record E d \<noteq> None"
  obtains s' where "load_meta E key s = Some (Inr (Option.bind (current_data s t key) (de_record E)), s')"
    and "stored E s' t" and "same_all s s'"
proof -
  obtain s1 where s1: "on_tree (bt_get (benv E) key) s = Some (Inr (current_data s t key), s1)" "stored E s1 t" "same_all s s1"
    by (rule bt_get_ok [OF assms(1)])
  show ?thesis
    by (rule that [OF _ s1(2,3)])
      (use assms(2) s1(1) in \<open>auto simp: load_meta_def seq_Inr split: option.split\<close>)
qed

lemma map_of_updates: "map_of (foldl (\<lambda>l (k, v). AList.update k v l) l m) = map_of l ++ map_of (rev m)"
proof (induction m arbitrary: l)
  case (Cons kv m)
  then show ?case by (cases kv) (auto simp: update_conv' fun_eq_iff map_add_def split: option.split)
qed simp

definition decoded_schemas :: "engine_env \<Rightarrow> bytes \<Rightarrow> (str \<times> table_schema) list option" where
  "decoded_schemas E d = Option.bind (de_record E d) (\<lambda>r. de_schemas E (rec_value r))"

lemma engine_new_ok:
  assumes "stored E s t" and "current_data s t version_key = None"
    and "\<And>d. current_data s t schemas_key = Some d \<Longrightarrow> decoded_schemas E d \<noteq> None"
  obtains s' where "engine_new E s = Some (Inr (), s')" and "stored E s' t"
    and "current_data s' t = current_data s t" and "current_version s' = current_version s"
    and "active_transactions s' = active_transactions s" and "indices s' = indices s"
    and "map_of (schemas s') = (case current_data s t schemas_key of
      None \<Rightarrow> map_of (schemas s) | Some d \<Rightarrow> map_of (rev (the (decoded_schemas E d))))"
proof -
  have dr: "de_record E d \<noteq> None" if "current_data s t schemas_key = Some d" for d
    using assms(3) [OF that] by (auto simp: decoded_schemas_def bind_eq_Some_conv)
  obtain s1 where s1: "load_meta E schemas_key s = Some (Inr (Option.bind (current_data s t schemas_key) (de_record E)), s1)"
    "stored E s1 t" "same_all s s1"
    by (rule load_meta_ok [OF assms(1) dr])
  let ?m = "case current_data s t schemas_key of None \<Rightarrow> schemas s1
    | Some d \<Rightarrow> foldl (\<lambda>l (k, v). AList.update k v l) [] (the (decoded_schemas E d))"
  let ?s2 = "s1\<lparr>schemas := ?m\<rparr>"
  have cd: "current_data ?s2 t = current_data s t"
    using same_all_data [OF s1(3), of t] by (simp add: fun_eq_iff current_data_def)
  have st2: "stored E ?s2 t" by (rule stored_tree [OF s1(2)]) simp
  then obtain s3 where s3: "load_meta E version_key ?s2 = Some (Inr None, s3)" "stored E s3 t" "same_all ?s2 s3"
    using load_meta_ok [OF st2, of version_key] assms(2) unfolding cd by auto
  have "engine_new E s = Some (Inr (), s3)"
  proof (cases "current_data s t schemas_key")
    case None
    with s1(1) s3(1) show ?thesis by (simp add: engine_new_def seq_Inr)
  next
    case (Some d)
    with assms(3) obtain r m where "de_record E d = Some r" "de_schemas E (rec_value r) = Some m"
      by (auto simp: decoded_schemas_def bind_eq_Some_conv)
    with Some s1(1) s3(1) show ?thesis by (simp add: engine_new_def seq_Inr decoded_schemas_def)
  qed
  moreover have "current_data s3 t = current_data s t" using same_all_data [OF s3(3)] cd by simp
  ultimately show ?thesis
    using s1(3) s3(2,3) by (intro that [of s3])
      (auto simp: same_all_def same_db_def map_of_updates split: option.split)
qed

text \<open>
  C6 (engine, restart): let a database be stored with the updates since the file \<open>p0\<close> in the
  log, as batches with room for the end marker, and let a crash leave the pages without an
  update as they were. If the tier has room for the records of the log, \<open>Engine::new\<close> on that
  file and log succeeds: the tree is the stored tree, every key has its last record in the log
  or else the one in the tree, and the schemas are those of their last record. Transactions and
  indices are gone, and as no version was stored the version is 0: no row of a record with
  another version is shown by a scan.
\<close>

theorem restart_spec:
  assumes "tree_rep (benv E) p0 s t" and "chain_ok t" and "root_page_id s = 0" and "pages s < 2 ^ 32"
    and "wal_codec (wenv (benv E))" and "concat bs = queue (bt_wal s)"
    and "\<forall>es \<in> set bs. \<forall>e \<in> set es. loggable (wenv (benv E)) e"
    and "\<forall>es \<in> set bs. gap_ok (batch_bytes (wenv (benv E)) es)"
    and "whole_file f" and "f \<noteq> []" and "page_count p0 * PAGE_SIZE \<le> length f"
    and "length f \<le> pages s * PAGE_SIZE"
    and "\<forall>j. unat j < page_count p0 \<longrightarrow> logged (queue (bt_wal s)) j = None \<longrightarrow>
      page_of f j = page_of (disk p0) j"
    and "queue (bt_wal s) = [] \<longrightarrow> boots"
    and "room_for (length (record_updates (queue (bt_wal s)))) (mt_new 1024)"
    and "recovered_data (queue (bt_wal s)) t version_key = None"
    and "\<And>d. recovered_data (queue (bt_wal s)) t schemas_key = Some d \<Longrightarrow> decoded_schemas E d \<noteq> None"
  shows "\<exists>s'. engine_open E clock boots f (Some (log_of (wenv (benv E)) bs)) = Some (Inr (), s')
    \<and> stored E s' t \<and> current_data s' t = recovered_data (queue (bt_wal s)) t
    \<and> map_of (schemas s') = (case recovered_data (queue (bt_wal s)) t schemas_key of
        None \<Rightarrow> Map.empty | Some d \<Rightarrow> map_of (rev (the (decoded_schemas E d))))
    \<and> active_transactions s' = [] \<and> indices s' = [] \<and> current_version s' = 0
    \<and> (\<forall>tbl k d r. de_record E d = Some r \<longrightarrow> version r \<noteq> 0 \<longrightarrow>
        row_of E tbl (current_version s') (k, d) = None)"
proof -
  let ?q = "queue (bt_wal s)" and ?wc = "Some (log_of (wenv (benv E)) bs)"
  obtain b where b: "bt_open (benv E) clock boots f ?wc (mt_new 1024) = Some (Inr (), b)"
    "tree_rep (benv E) (bt_pager b) b t"
    using crash_ok [OF assms(1,3-14)] by blast
  have "recovered_entries (wal_open (wenv (benv E)) ?wc) = ?q"
    using wal_recover_batches [OF assms(5,7,8)] assms(6) by (simp add: wal_open_def)
  then have "memory_tier b = replay_tier clock 0 ?q (mt_new 1024)" using open_tier [OF b(1)] by simp
  then have m: "mt_inv (memory_tier b)" "mt_lookup (memory_tier b) = map_of (rev (record_updates ?q))"
    using replay_tier_lookup [OF mt_inv_new assms(15), where clock = clock and i = 0] by (auto simp: fun_eq_iff map_add_def split: option.split)
  let ?e = "fresh_engine b"
  have st: "stored E ?e t" using b(2) m(1) assms(2) by (auto simp: stored_def fresh_engine_def)
  have cd: "current_data ?e t = recovered_data ?q t"
    by (simp add: fun_eq_iff current_data_def recovered_data_def m(2) fresh_engine_def)
  obtain s' where s': "engine_new E ?e = Some (Inr (), s')" "stored E s' t" "current_data s' t = recovered_data ?q t"
    "current_version s' = 0" "active_transactions s' = []" "indices s' = []"
    "map_of (schemas s') = (case recovered_data ?q t schemas_key of
        None \<Rightarrow> Map.empty | Some d \<Rightarrow> map_of (rev (the (decoded_schemas E d))))"
    by (rule engine_new_ok [OF st, unfolded cd tier_fresh, OF assms(16,17)]) (auto split: option.split)
  have "engine_open E clock boots f ?wc = Some (Inr (), s')" by (simp add: engine_open_def b(1) s'(1))
  moreover have "row_of E tbl 0 (k, d) = None" if "de_record E d = Some r" "version r \<noteq> 0" for tbl k d r
    using that by (simp add: row_of_def visible_row_def visible_def)
  ultimately show ?thesis using s'(2-) by (intro exI [of _ s']) simp
qed

section \<open>Witness\<close>

text \<open>An updated row, in the log only: it is in the memory tier after the restart but not shown.\<close>

definition updated_one :: db_record where
  "updated_one = one_record\<lparr>version := 1\<rparr>"

lemma updated_one_ok: "record_ok updated_one" "length (put_rec updated_one) = 51"
  using one_record_ok length_one_record
  by (simp_all add: updated_one_def record_ok_def put_rec_def put_word_def put_i64_def)

theorem restart_spec_witness:
  "\<exists>s s'. stored SE s empty_tree \<and> log_queue s = [RecordUpdate one_key (put_rec updated_one)]
    \<and> engine_open SE (\<lambda>_. 0) False (disk (bt_pager (tree s)))
        (Some (log_of sample_wal_env [log_queue s])) = Some (Inr (), s')
    \<and> current_data s' empty_tree one_key = Some (put_rec updated_one)
    \<and> row_of SE ''t'' (current_version s') (one_key, put_rec updated_one) = None"
proof -
  let ?r = "RecordUpdate one_key (put_rec updated_one)"
  obtain b where b: "memory_tier b = mt_new 64" "tree_rep sample_tree_env (bt_pager b) b empty_tree"
    "pages b = 1" "room b = QUEUE_CAP" "queue (bt_wal b) = []" "root_page_id b = 0"
    by (rule sample_open)
  let ?b = "b\<lparr>bt_wal := (bt_wal b)\<lparr>queue := [?r]\<rparr>\<rparr>"
  have rep: "tree_rep sample_tree_env (bt_pager b) ?b empty_tree"
    by (rule tree_rep_records [OF b(2), where es = "[?r]"])
      (simp_all add: b page_updates_def QUEUE_CAP_def)
  have ser: "ser_entry sample_wal_env ?r = Some (put_entry ?r)"
    using updated_one_ok(2) length_one_key by (simp add: sample_wal_env_def entry_ok_def vec_ok_def)
  have "length (put_entry ?r) = 89"
    using updated_one_ok(2) length_one_key by (simp add: put_entry_def put_vec_def put_word_def)
  then have lg: "loggable sample_wal_env ?r" "gap_ok (batch_bytes sample_wal_env [?r])"
    by (simp_all add: loggable_def gap_ok_def batch_bytes_def frame_def ser)
  have inv: "pager_inv (bt_pager b)" using b(2) by (simp add: tree_rep_def binv_def)
  have wf: "whole_file (disk (bt_pager b))" using b(3) by (intro disk_whole [OF inv]) simp
  have ne: "disk (bt_pager b) \<noteq> []" using b(3) by (auto simp: page_count_def)
  obtain k where "length (disk (bt_pager b)) = 4096 * k"
    using inv by (auto simp: pager_inv_def PAGE_SIZE_def elim: dvdE)
  with b(3) have len: "length (disk (bt_pager b)) = PAGE_SIZE" by (simp add: page_count_def PAGE_SIZE_def)
  have keys: "version_key \<noteq> one_key" "schemas_key \<noteq> one_key"
    by (simp_all add: version_key_def schemas_key_def one_key_def row_key_def inj_to_bytes)
  have rd: "recovered_data [?r] empty_tree k = (if k = one_key then Some (put_rec updated_one) else None)" for k
    by (simp add: recovered_data_def)
  have room: "room_for (length (record_updates (queue (bt_wal ?b)))) (mt_new 1024)"
    by (simp add: room_for_def mt_new_def mt_max_bytes_def)
  have st: "stored SE (fresh_engine ?b) empty_tree"
    using rep b(1) by (auto simp: stored_def fresh_engine_def chain_ok_def)
  have "\<exists>s'. engine_open SE (\<lambda>_. 0) False (disk (bt_pager b)) (Some (log_of (wenv (benv SE)) [[?r]])) = Some (Inr (), s')
      \<and> stored SE s' empty_tree \<and> current_data s' empty_tree = recovered_data (queue (bt_wal ?b)) empty_tree
      \<and> map_of (schemas s') = (case recovered_data (queue (bt_wal ?b)) empty_tree schemas_key of
          None \<Rightarrow> Map.empty | Some d \<Rightarrow> map_of (rev (the (decoded_schemas SE d))))
      \<and> active_transactions s' = [] \<and> indices s' = [] \<and> current_version s' = 0
      \<and> (\<forall>tbl k d r. de_record SE d = Some r \<longrightarrow> version r \<noteq> 0 \<longrightarrow>
          row_of SE tbl (current_version s') (k, d) = None)"
    by (rule restart_spec [where s = ?b and ?p0.0 = "bt_pager b"])
      (use rep b lg wf ne len keys rd room in \<open>simp_all add: chain_ok_def\<close>)
  then obtain s' where s': "engine_open SE (\<lambda>_. 0) False (disk (bt_pager b)) (Some (log_of sample_wal_env [[?r]])) = Some (Inr (), s')"
    "current_data s' empty_tree one_key = Some (put_rec updated_one)"
    "\<forall>tbl k d r. de_record SE d = Some r \<longrightarrow> version r \<noteq> 0 \<longrightarrow> row_of SE tbl (current_version s') (k, d) = None"
    using rd [of one_key] by auto
  have "de_record SE (put_rec updated_one) = Some updated_one" using updated_one_ok(1) by simp
  then have "row_of SE ''t'' (current_version s') (one_key, put_rec updated_one) = None"
    using s'(3) by (simp add: updated_one_def)
  with s'(1,2) st show ?thesis by (intro exI [of _ "fresh_engine ?b"] exI [of _ s']) simp
qed

end
