(* ===== verification/Startup.thy ===== *)
theory Startup
  imports Server Restart
begin

text \<open>
  The program start of \<open>src/src/main.rs\<close>: the port arguments, the path of the log, the engine
  opened on both files and the server on the engine. The command line itself is parsed by the
  clap crate, which gives the record \<open>args\<close>.
\<close>

section \<open>Arguments\<close>

record args =
  port_args :: "str list"
  db_arg :: str
  user_arg :: str
  password_arg :: str

record ports =
  web_port :: nat
  use_ssl :: bool
  main_port :: nat

definition default_ports :: ports where
  "default_ports = \<lparr>web_port = 8080, use_ssl = False, main_port = 5432\<rparr>"

text \<open>One argument; \<open>None\<close> for the error of \<open>parse\<close>.\<close>

definition port_arg :: "(str \<Rightarrow> str) \<Rightarrow> str \<Rightarrow> ports \<Rightarrow> ports option" where
  "port_arg other p ps =
     (if prefix ''w:'' p then
        (let parts = split_on CHR '':'' (drop 2 p) in
         case parse_nat (2 ^ 16) (parts ! 0) of
           None \<Rightarrow> None
         | Some n \<Rightarrow> Some (ps\<lparr>web_port := n,
             use_ssl := (use_ssl ps \<or> 1 < length parts \<and> to_lowercase other (parts ! 1) = ''ssl'')\<rparr>))
      else if prefix ''m:'' p then
        (case parse_nat (2 ^ 16) (drop 2 p) of None \<Rightarrow> None | Some n \<Rightarrow> Some (ps\<lparr>main_port := n\<rparr>))
      else Some ps)"

fun parse_ports :: "(str \<Rightarrow> str) \<Rightarrow> str list \<Rightarrow> ports \<Rightarrow> ports option" where
  "parse_ports other [] ps = Some ps"
| "parse_ports other (p # rest) ps = Option.bind (port_arg other p ps) (parse_ports other rest)"

definition wal_path :: "str \<Rightarrow> str" where
  "wal_path path = (if suffix ''.ksql'' path then take (length path - 5) path else path) @ ''.wal''"

section \<open>Start\<close>

text \<open>
  \<open>files\<close> are the contents of the existing files. A missing database file is created empty.
\<close>

definition start :: "engine_env \<Rightarrow> (str \<Rightarrow> str) \<Rightarrow> (nat \<Rightarrow> int) \<Rightarrow> bool \<Rightarrow> (str \<Rightarrow> bytes option) \<Rightarrow> args
    \<Rightarrow> ((err + ports) \<times> server option) option" where
  "start E other clock boots files a = (case parse_ports other (port_args a) default_ports of
      None \<Rightarrow> Some (Inl (Msg ''invalid port''), None)
    | Some ps \<Rightarrow>
        map_option (\<lambda>(r, e). case r of
            Inl err \<Rightarrow> (Inl err, None)
          | Inr _ \<Rightarrow> (Inr ps, Some (server_new e (user_arg a) (password_arg a) (db_arg a))))
          (engine_open E clock boots (case files (db_arg a) of Some f \<Rightarrow> f | None \<Rightarrow> []) (files (wal_path (db_arg a)))))"

section \<open>Port arguments\<close>

lemma colon_free: "CHR '':'' \<notin> set (show_nat n)"
  using show_nat_digits [of n] by (auto simp: less_eq_char_def)

text \<open>
  The port arguments round trip: for any two port numbers the arguments
  written as documented are accepted and give back the numbers and the switch.
\<close>

lemma ports_roundtrip:
  assumes "n < 2 ^ 16" and "k < 2 ^ 16"
  shows "parse_ports other [''w:'' @ show_nat n @ (if ssl then '':ssl'' else []), ''m:'' @ show_nat k] default_ports
    = Some \<lparr>web_port = n, use_ssl = ssl, main_port = k\<rparr>"
proof -
  have "to_lowercase other ''ssl'' = ''ssl''" by (simp add: to_lowercase_def ascii_lower_def less_eq_char_def)
  then show ?thesis
    using parse_show [OF assms(1)] parse_show [OF assms(2)] split_on_none [OF colon_free, of n]
      split_on_sep [OF colon_free, of n "''ssl''"]
    by (simp add: port_arg_def default_ports_def Let_def)
qed

section \<open>The running program\<close>

lemma started_wf:
  assumes "start E other clock boots files a = Some (Inr ps, Some s)"
  shows "engine_wf (eng s)"
proof -
  obtain r e where o: "engine_open E clock boots (case files (db_arg a) of Some f \<Rightarrow> f | None \<Rightarrow> [])
      (files (wal_path (db_arg a))) = Some (r, e)"
    using assms by (auto simp: start_def split: option.splits)
  with assms have "r = Inr ()" and "eng s = e"
    by (cases r; auto simp: start_def server_new_def split: option.splits)+
  with engine_open_wf o show ?thesis by blast
qed

text \<open>
  The lists that stand for the hash maps of the engine hold each key once, in every state the
  program reaches after a start on any files by any interleaving of events.
\<close>

lemma running_program_wf:
  assumes "start (eenv E) other clock boots files a = Some (Inr ps, Some s)" and "runs E s evs s'"
  shows "engine_wf (eng s')"
  using runs_wf [OF assms(2) started_wf [OF assms(1)]] .

section \<open>A start without files\<close>

definition sample_args :: args where
  "sample_args = \<lparr>port_args = [''w:'' @ show_nat 8443 @ '':ssl'', ''m:'' @ show_nat 5433],
     db_arg = ''db'', user_arg = ''admin'', password_arg = ''pw''\<rparr>"

lemma sample_start:
  obtains e where "start (eenv sample_server_env) id (\<lambda>_. 0) False (\<lambda>_. None) sample_args
      = Some (Inr \<lparr>web_port = 8443, use_ssl = True, main_port = 5433\<rparr>, Some (server_new e ''admin'' ''pw'' ''db''))"
proof -
  let ?E = "eenv sample_server_env"
  have "whole_file []" by (simp add: whole_file_def PAGE_SIZE_def)
  then obtain b where b: "bt_open (benv ?E) (\<lambda>_. 0) False [] None (mt_new 1024) = Some (Inr (), b)"
    "memory_tier b = mt_new 1024" "tree_rep (benv ?E) (bt_pager b) b empty_tree"
    using open_empty [of sample_tree_env "[]" False "\<lambda>_. 0" "mt_new 1024"] sample_purge_env
    by (auto simp: num_pages_def pager_open_def)
  then have st: "stored ?E (fresh_engine b) empty_tree" by (auto simp: stored_def fresh_engine_def chain_ok_def)
  have "current_data (fresh_engine b) empty_tree k = None" for k by (simp add: current_data_def b(2))
  then obtain e where "engine_new ?E (fresh_engine b) = Some (Inr (), e)"
    using engine_new_ok [OF st] by auto
  with b(1) have "engine_open ?E (\<lambda>_. 0) False [] None = Some (Inr (), e)" by (simp add: engine_open_def)
  moreover have "parse_ports id (port_args sample_args) default_ports
      = Some \<lparr>web_port = 8443, use_ssl = True, main_port = 5433\<rparr>"
    using ports_roundtrip [of 8443 5433 id True] by (simp add: sample_args_def)
  ultimately show ?thesis by (intro that [of e]) (simp add: start_def sample_args_def)
qed

lemma sample_running:
  "\<exists>ps s s'. start (eenv sample_server_env) id (\<lambda>_. 0) False (\<lambda>_. None) sample_args = Some (Inr ps, Some s)
    \<and> runs sample_server_env s sample_events s' \<and> engine_wf (eng s')"
proof -
  obtain e where e: "start (eenv sample_server_env) id (\<lambda>_. 0) False (\<lambda>_. None) sample_args
      = Some (Inr \<lparr>web_port = 8443, use_ssl = True, main_port = 5433\<rparr>, Some (server_new e ''admin'' ''pw'' ''db''))"
    by (rule sample_start)
  from running_program_wf [OF this sample_serving] e sample_serving show ?thesis by blast
qed

end
