(* ===== verification/Server_Feed.thy ===== *)
theory Server_Feed
  imports Server
begin

text \<open>
  What the status feeds of \<open>/ws\<close> receive: every query of every client, in the order the server
  took them, without any credentials, as long as the feed is not overtaken by more messages than
  the broadcast channel keeps.
\<close>

section \<open>Broadcasting along a run\<close>

text \<open>
  The queries an event asks the engine, with the connection they run on: a line of a connection
  that has authenticated, or a request to \<open>/api/query\<close> with the right header.
\<close>

definition asked :: "server \<Rightarrow> event \<Rightarrow> (u32 \<times> str) list" where
  "asked s ev = (case ev of
      Line c line \<Rightarrow> if map_of (conns s) c = Some True then [(c, trim line)] else []
    | Http header req \<Rightarrow> (case req of
        Query_req b \<Rightarrow> if header = Some (admin_user s @ '':'' @ admin_pass s) then [(999, b)] else []
      | _ \<Rightarrow> [])
    | _ \<Rightarrow> [])"

definition feed_frames :: "server_env \<Rightarrow> nat \<Rightarrow> event \<Rightarrow> server \<Rightarrow> str list" where
  "feed_frames E w ev s = (case ev of
      Feed_recv v \<Rightarrow> if v = w then (case feed_recv E w s of Some (Some m, _) \<Rightarrow> [m] | _ \<Rightarrow> []) else []
    | _ \<Rightarrow> [])"

text \<open>A run with the log messages that the feed \<open>w\<close> gets and the queries the clients ask.\<close>

fun feed_run :: "server_env \<Rightarrow> nat \<Rightarrow> event list \<Rightarrow> server \<Rightarrow> (str list \<times> str list \<times> server) option" where
  "feed_run E w [] s = Some ([], [], s)"
| "feed_run E w (ev # evs) s = Option.bind (serve E ev s) (\<lambda>s1.
     map_option (\<lambda>(ms, qs, s'). (feed_frames E w ev s @ ms, map snd (asked s ev) @ qs, s')) (feed_run E w evs s1))"

text \<open>Whenever the feed \<open>w\<close> receives, the channel still keeps the message it is at.\<close>

fun keeps_up :: "server_env \<Rightarrow> nat \<Rightarrow> event list \<Rightarrow> server \<Rightarrow> bool" where
  "keeps_up E w [] s = True"
| "keeps_up E w (ev # evs) s =
     ((ev = Feed_recv w \<longrightarrow> (case map_of (subs s) w of Some p \<Rightarrow> length (sent s) \<le> p + channel_slots E | None \<Rightarrow> True))
      \<and> (case serve E ev s of Some s1 \<Rightarrow> keeps_up E w evs s1 | None \<Rightarrow> True))"

definition same_subs :: "str list \<Rightarrow> server \<Rightarrow> server \<Rightarrow> bool" where
  "same_subs qs s s' \<longleftrightarrow> subs s' = subs s \<and> sent s' = sent s @ qs"

lemma subs_refl [simp]: "same_subs [] s s"
  by (simp add: same_subs_def)

lemma query_subs: "run_query E q c s = Some (r, s') \<Longrightarrow> same_subs [q] s s'"
  by (auto simp: run_query_def same_subs_def)

lemma engine_subs: "run_engine m s = Some s' \<Longrightarrow> same_subs [] s s'"
  by (auto simp: run_engine_def same_subs_def)

lemma line_subs: "tcp_line E c line s = Some (out, s') \<Longrightarrow> same_subs (map snd (asked s (Line c line))) s s'"
  by (auto simp: tcp_line_def asked_def Let_def same_subs_def run_query_def split: if_splits option.splits)

lemma hotswap_subs: "hotswap_handler E header b s = Some (r, s') \<Longrightarrow> same_subs [] s s'"
  by (auto simp: hotswap_handler_def bind_eq_Some_conv same_subs_def run_engine_def split: if_splits option.splits)

lemma request_subs:
  assumes "handle_request E header req s = Some (r, s')"
  shows "same_subs (map snd (asked s (Http header req))) s s'"
proof (cases req)
  case (Query_req b)
  with assms show ?thesis
    by (auto simp: handle_request_def query_handler_def asked_def check_auth_def credentials_def
        split: if_splits option.splits dest: query_subs)
next
  case (Hotswap_req b)
  with assms show ?thesis by (simp add: handle_request_def asked_def hotswap_subs)
qed (use assms in \<open>auto simp: handle_request_def undo_handler_def redo_handler_def backup_handler_def
      memory_mode_handler_def memory_limit_handler_def memory_purge_handler_def same_subs_def asked_def
      split: if_splits option.splits dest!: engine_subs\<close>)

lemma asked_feed: "is_feed ev \<Longrightarrow> asked s ev = []"
  by (auto simp: is_feed_def asked_def split: event.splits)

lemma serve_subs:
  assumes "serve E ev s = Some s'" and "\<not> is_feed ev"
  shows "same_subs (map snd (asked s ev)) s s'"
proof (cases ev)
  case (Line c line)
  with assms show ?thesis by (auto simp: serve_def split: if_splits dest: line_subs)
next
  case (Http header req)
  with assms show ?thesis by (auto simp: serve_def split: if_splits dest: request_subs)
next
  case Drained
  with assms show ?thesis by (auto simp: serve_def asked_def split: if_splits dest: engine_subs)
qed (use assms in \<open>auto simp: serve_def accept_def is_feed_def same_subs_def asked_def split: if_splits\<close>)

lemma serve_sent:
  assumes "serve E ev s = Some s'"
  shows "sent s' = sent s @ map snd (asked s ev)"
proof (cases "is_feed ev")
  case True
  with assms obtain ps n where "s' = s\<lparr>subs := ps, feed_ticks := n\<rparr>" by (rule serve_feed)
  with True show ?thesis by (simp add: asked_feed)
qed (use serve_subs [OF assms] in \<open>simp add: same_subs_def\<close>)

lemma feed_run_sent: "feed_run E w evs s = Some (ms, qs, s') \<Longrightarrow> sent s' = sent s @ qs"
  by (induction evs arbitrary: s ms qs) (fastforce simp: bind_eq_Some_conv dest: serve_sent)+

text \<open>What is asked is executed, on the engine as it is then.\<close>

lemma asked_executed:
  assumes "serve E ev s = Some s'" and "asked s ev = [(c, q)]"
  shows "\<exists>r. execute (eenv E) q c (eng s) = Some (r, eng s')"
  using assms
  by (auto simp: asked_def serve_def tcp_line_def handle_request_def query_handler_def check_auth_def
      credentials_def run_query_def Let_def split: event.splits request.splits if_splits option.splits)

section \<open>One event and one feed\<close>

text \<open>
  An event of another client leaves the position of the feed \<open>w\<close>; a receive moves it behind the
  message received, or, when the feed has been overtaken, to the oldest message kept.
\<close>

lemma feed_step:
  assumes ev: "serve E ev s = Some s1" "ev \<noteq> Feed_closed w" and w: "map_of (subs s) w = Some p"
    and p: "p \<le> length (sent s)"
  obtains "ev \<noteq> Feed_recv w" and "map_of (subs s1) w = Some p" and "feed_frames E w ev s = []"
  | "ev = Feed_recv w" and "p < length (sent s)" and "length (sent s) \<le> p + channel_slots E"
    and "map_of (subs s1) w = Some (p + 1)" and "feed_frames E w ev s = [json_log E (sent s ! p)]"
  | q where "ev = Feed_recv w" and "p + channel_slots E < length (sent s)" and "p \<le> q" and "q \<le> length (sent s)"
    and "map_of (subs s1) w = Some q" and "feed_frames E w ev s = []"
proof (cases "is_feed ev")
  case False
  with serve_subs [OF ev(1)] w show thesis
    by (intro that(1)) (auto simp: same_subs_def feed_frames_def is_feed_def split: event.splits)
next
  case True
  then consider v where "ev = Feed_open v" | v where "ev = Feed_recv v" | v where "ev = Feed_tick v"
    | v where "ev = Feed_closed v" by (auto simp: is_feed_def split: event.splits)
  then show thesis
  proof cases
    case 2
    show ?thesis
    proof (cases "v = w")
      case False
      with 2 ev(1) w show ?thesis
        by (intro that(1)) (auto simp: serve_def feed_recv_def feed_frames_def alist split: if_splits option.splits)
    next
      case same: True
      show ?thesis
      proof (cases "p + channel_slots E < length (sent s)")
        case True
        with same 2 ev(1) w show ?thesis
          by (intro that(3) [of "length (sent s) - channel_slots E"])
            (auto simp: serve_def feed_recv_def feed_frames_def alist split: if_splits)
      next
        case False
        with same 2 ev(1) w show ?thesis
          by (intro that(2)) (auto simp: serve_def feed_recv_def feed_frames_def alist split: if_splits)
      qed
    qed
  qed (use ev w in \<open>auto intro!: that(1) simp: serve_def feed_open_def feed_tick_def feed_close_def
        feed_frames_def alist split: if_splits\<close>)
qed

text \<open>An open feed gets messages sent from its position on, in their order.\<close>

lemma frames_in_order:
  assumes "feed_run E w evs s = Some (ms, qs, s')" and "map_of (subs s) w = Some p" and "p \<le> length (sent s)"
    and "Feed_closed w \<notin> set evs"
  shows "subseq ms (map (json_log E) (drop p (sent s')))"
  using assms
proof (induction evs arbitrary: s p ms qs)
  case (Cons ev evs)
  from Cons.prems(1) obtain s1 ms' qs' where s1: "serve E ev s = Some s1" "feed_run E w evs s1 = Some (ms', qs', s')"
    "ms = feed_frames E w ev s @ ms'" by (auto simp: bind_eq_Some_conv)
  have sent: "sent s1 = sent s @ map snd (asked s ev)" "sent s' = sent s1 @ qs'"
    using serve_sent [OF s1(1)] feed_run_sent [OF s1(2)] by auto
  have IH: "subseq ms' (map (json_log E) (drop q (sent s')))"
    if "map_of (subs s1) w = Some q" and "q \<le> length (sent s)" for q
    using Cons.IH [OF s1(2) that(1)] that(2) Cons.prems(4) sent(1) by simp
  from s1(1) _ Cons.prems(2,3) show ?case
  proof (rule feed_step)
    show "ev \<noteq> Feed_closed w" using Cons.prems(4) by auto
  next
    assume "map_of (subs s1) w = Some p" "feed_frames E w ev s = []"
    with IH Cons.prems(3) s1(3) show ?case by simp
  next
    assume p: "p < length (sent s)" "map_of (subs s1) w = Some (p + 1)"
      "feed_frames E w ev s = [json_log E (sent s ! p)]"
    then have "drop p (sent s') = sent s ! p # drop (p + 1) (sent s')"
      using sent by (simp add: Cons_nth_drop_Suc [symmetric] nth_append)
    with IH [OF p(2)] p s1(3) show ?case by simp
  next
    fix q assume q: "p \<le> q" "q \<le> length (sent s)" "map_of (subs s1) w = Some q" "feed_frames E w ev s = []"
    have "drop q (sent s') = drop (q - p) (drop p (sent s'))" using q(1) by simp
    then have "suffix (drop q (sent s')) (drop p (sent s'))" by (metis suffix_drop)
    then have "subseq (map (json_log E) (drop q (sent s'))) (map (json_log E) (drop p (sent s')))"
      by (intro subseq_map suffix_imp_subseq)
    with IH [OF q(3,2)] q(4) s1(3) show ?case by (simp add: subseq_order.trans [of ms'])
  qed
qed simp

text \<open>A feed that keeps up gets one message for each receive, none is missing.\<close>

lemma frames_kept_up:
  assumes "feed_run E w evs s = Some (ms, qs, s')" and "map_of (subs s) w = Some p" and "p \<le> length (sent s)"
    and "Feed_closed w \<notin> set evs" and "keeps_up E w evs s"
  shows "ms = map (json_log E) (take (count_list evs (Feed_recv w)) (drop p (sent s')))
    \<and> map_of (subs s') w = Some (p + count_list evs (Feed_recv w))
    \<and> p + count_list evs (Feed_recv w) \<le> length (sent s')"
  using assms
proof (induction evs arbitrary: s p ms qs)
  case (Cons ev evs)
  from Cons.prems(1) obtain s1 ms' qs' where s1: "serve E ev s = Some s1" "feed_run E w evs s1 = Some (ms', qs', s')"
    "ms = feed_frames E w ev s @ ms'" by (auto simp: bind_eq_Some_conv)
  have sent: "sent s1 = sent s @ map snd (asked s ev)" "sent s' = sent s1 @ qs'"
    using serve_sent [OF s1(1)] feed_run_sent [OF s1(2)] by auto
  have IH: "ms' = map (json_log E) (take (count_list evs (Feed_recv w)) (drop q (sent s')))
      \<and> map_of (subs s') w = Some (q + count_list evs (Feed_recv w))
      \<and> q + count_list evs (Feed_recv w) \<le> length (sent s')"
    if "map_of (subs s1) w = Some q" and "q \<le> length (sent s)" for q
    using Cons.IH [OF s1(2) that(1)] that(2) Cons.prems(4,5) sent(1) s1(1) by simp
  from s1(1) _ Cons.prems(2,3) show ?case
  proof (rule feed_step)
    show "ev \<noteq> Feed_closed w" using Cons.prems(4) by auto
  next
    assume "ev \<noteq> Feed_recv w" "map_of (subs s1) w = Some p" "feed_frames E w ev s = []"
    with IH Cons.prems(3) s1(3) show ?case by simp
  next
    assume p: "ev = Feed_recv w" "p < length (sent s)" "map_of (subs s1) w = Some (p + 1)"
      "feed_frames E w ev s = [json_log E (sent s ! p)]"
    then have "drop p (sent s') = sent s ! p # drop (p + 1) (sent s')"
      using sent by (simp add: Cons_nth_drop_Suc [symmetric] nth_append)
    with IH [OF p(3)] p s1(3) show ?case by simp
  next
    assume "ev = Feed_recv w" "p + channel_slots E < length (sent s)"
    with Cons.prems(2,5) show ?case by simp
  qed
qed simp

text \<open>
  C36 (server, feeds): whoever opens the feed of \<open>/ws\<close> (under a number not in use) is served, no
  credentials are looked at, on every running server. From then on, as long as the feed is not closed: the queries that clients
  with credentials ask (a line of an authenticated connection, a request to \<open>/api/query\<close> with the
  right header) are executed by the engine and broadcast, each once and in order; what the feed
  receives are these queries in that order; and when it was never overtaken at a receive by more
  messages than the channel keeps, however many there are in total, its \<open>n\<close> receives get exactly
  the first \<open>n\<close> queries asked since it was opened.
\<close>

theorem feed_sees_every_query:
  assumes "alive s" and "map_of (subs s) w = None"
  shows "\<exists>s0. serve E (Feed_open w) s = Some s0 \<and> eng s0 = eng s
    \<and> (\<forall>evs ms qs s'. feed_run E w evs s0 = Some (ms, qs, s') \<and> Feed_closed w \<notin> set evs \<longrightarrow>
         sent s' = sent s @ qs \<and> subseq ms (map (json_log E) qs)
         \<and> (keeps_up E w evs s0 \<longrightarrow>
              ms = map (json_log E) (take (count_list evs (Feed_recv w)) qs)
              \<and> count_list evs (Feed_recv w) \<le> length qs))
    \<and> (\<forall>ev t t' c q. serve E ev t = Some t' \<and> asked t ev = [(c, q)] \<longrightarrow>
         (\<exists>r. execute (eenv E) q c (eng t) = Some (r, eng t') \<and> sent t' = sent t @ [q]))"
proof -
  define s0 where "s0 = s\<lparr>subs := (w, length (sent s)) # subs s\<rparr>"
  have s0: "serve E (Feed_open w) s = Some s0" "map_of (subs s0) w = Some (length (sent s))" "sent s0 = sent s"
    "eng s0 = eng s"
    using assms by (simp_all add: s0_def serve_def feed_open_def)
  have feed: "sent s' = sent s @ qs \<and> subseq ms (map (json_log E) qs)
      \<and> (keeps_up E w evs s0 \<longrightarrow> ms = map (json_log E) (take (count_list evs (Feed_recv w)) qs)
           \<and> count_list evs (Feed_recv w) \<le> length qs)"
    if run: "feed_run E w evs s0 = Some (ms, qs, s')" "Feed_closed w \<notin> set evs" for evs ms qs s'
  proof -
    have sent: "sent s' = sent s @ qs" using feed_run_sent [OF run(1)] s0(3) by simp
    have "length (sent s) \<le> length (sent s0)" using s0(3) by simp
    note p = s0(2) this run(2)
    from frames_in_order [OF run(1) p] frames_kept_up [OF run(1) p] sent show ?thesis by simp
  qed
  have "\<exists>r. execute (eenv E) q c (eng t) = Some (r, eng t') \<and> sent t' = sent t @ [q]"
    if "serve E ev t = Some t'" "asked t ev = [(c, q)]" for ev t t' c q
    using asked_executed [OF that] serve_sent [OF that(1)] that(2) by simp
  with s0(1,4) feed show ?thesis by (intro exI [of _ s0]) blast
qed

section \<open>Witness\<close>

lemma sample_flush_text [simp]:
  "trim ''FLUSH'' = ''FLUSH''" "to_uppercase other ''FLUSH'' = ''FLUSH''"
  by (rule trim_id, simp add: trimmed_def white_space_def suffix_to_prefix)
    (simp add: to_uppercase_def ascii_upper_def less_eq_char_def)

lemma sample_flush: "\<exists>e'. execute E ''FLUSH'' c e = Some (Inr ''Flushed'', e')"
proof -
  obtain w p where "flush_pipeline (wenv (benv E)) (bt_wal (tree e)) = Some (Inr (), w)" by (rule flush_suffix)
  then show ?thesis by (simp add: execute_def flush_command_def flush_def seq_def zoom_def)
qed

text \<open>
  A channel of one message: two authorised queries with a refused one between them. The feed
  receives in between and gets both, though the channel keeps only one.
\<close>

definition one_slot :: server_env where
  "one_slot = sample_server_env\<lparr>channel_slots := 1\<rparr>"

abbreviation flush_event :: "str \<Rightarrow> event" where
  "flush_event cred \<equiv> Http (Some cred) (Query_req ''FLUSH'')"

abbreviation flush_twice :: "event list" where
  "flush_twice \<equiv> [flush_event ''admin:pw'', Feed_recv 0, flush_event ''guest:pw'', flush_event ''admin:pw'', Feed_recv 0]"

lemma flush_served:
  assumes "admin_user s = ''admin''" and "admin_pass s = ''pw''" and "alive s"
  obtains e where "serve one_slot (flush_event ''admin:pw'') s = Some (s\<lparr>eng := e, sent := sent s @ [''FLUSH'']\<rparr>)"
    and "serve one_slot (flush_event ''guest:pw'') s = Some s"
proof -
  obtain e where "execute (eenv one_slot) ''FLUSH'' 999 (eng s) = Some (Inr ''Flushed'', e)"
    using sample_flush by blast
  with assms that [of e] show thesis
    by (simp add: serve_def handle_request_def query_handler_def check_auth_def credentials_def run_query_def)
qed

theorem feed_sees_every_query_witness:
  "\<exists>s s0 s'. sent s = [] \<and> conns s = [] \<and> serve one_slot (Feed_open 0) s = Some s0
    \<and> feed_run one_slot 0 flush_twice s0 = Some ([''FLUSH'', ''FLUSH''], [''FLUSH'', ''FLUSH''], s')
    \<and> sent s' = [''FLUSH'', ''FLUSH'']"
proof -
  obtain b where "stored SE (fresh_engine b) empty_tree" by (rule sample_empty)
  let ?s = "server_new (fresh_engine b) ''admin'' ''pw'' ''db''"
  from feed_sees_every_query [of ?s 0 one_slot] obtain s0
    where s0: "serve one_slot (Feed_open 0) ?s = Some s0"
      and run: "\<And>evs ms qs s'. feed_run one_slot 0 evs s0 = Some (ms, qs, s') \<Longrightarrow> Feed_closed 0 \<notin> set evs
        \<Longrightarrow> keeps_up one_slot 0 evs s0 \<Longrightarrow> sent s' = qs \<and>
          ms = map (json_log one_slot) (take (count_list evs (Feed_recv 0)) qs)"
    by (auto simp: server_new_def)
  have s0': "s0 = ?s\<lparr>subs := [(0, 0)]\<rparr>" using s0 by (auto simp: serve_def feed_open_def server_new_def)
  then have user: "admin_user s0 = ''admin''" "admin_pass s0 = ''pw''" "alive s0" by (simp_all add: server_new_def)
  from user obtain e where 1: "serve one_slot (flush_event ''admin:pw'') s0 = Some (s0\<lparr>eng := e, sent := [''FLUSH'']\<rparr>)"
    by (rule flush_served) (simp add: s0' server_new_def)
  let ?s1 = "s0\<lparr>eng := e, sent := [''FLUSH''], subs := [(0, 1)]\<rparr>"
  have "admin_user ?s1 = ''admin''" "admin_pass ?s1 = ''pw''" "alive ?s1" using user by simp_all
  then obtain e' where 2: "serve one_slot (flush_event ''admin:pw'') ?s1 = Some (?s1\<lparr>eng := e', sent := [''FLUSH'', ''FLUSH'']\<rparr>)"
    and 3: "serve one_slot (flush_event ''guest:pw'') ?s1 = Some ?s1"
    by (rule flush_served) simp
  have asked: "asked t (flush_event ''admin:pw'') = [(999, ''FLUSH'')]" "asked t (flush_event ''guest:pw'') = []"
    if "admin_user t = ''admin''" "admin_pass t = ''pw''" for t
    using that by (simp_all add: asked_def)
  have recv: "serve one_slot (Feed_recv 0) (s0\<lparr>eng := e, sent := [''FLUSH'']\<rparr>) = Some ?s1"
    "serve one_slot (Feed_recv 0) (?s1\<lparr>eng := e', sent := [''FLUSH'', ''FLUSH'']\<rparr>)
      = Some (?s1\<lparr>eng := e', sent := [''FLUSH'', ''FLUSH''], subs := [(0, 2)]\<rparr>)"
    using user by (simp_all add: serve_def feed_recv_def one_slot_def s0')
  let ?t = "?s1\<lparr>eng := e', sent := [''FLUSH'', ''FLUSH''], subs := [(0, 2)]\<rparr>"
  obtain ms where ms: "feed_run one_slot 0 flush_twice s0 = Some (ms, [''FLUSH'', ''FLUSH''], ?t)"
    using 1 2 3 recv user by (auto simp: asked asked_feed is_feed_def)
  have "keeps_up one_slot 0 flush_twice s0"
    using 1 2 3 recv by (simp add: s0' one_slot_def)
  from run [OF ms _ this] have "ms = [''FLUSH'', ''FLUSH'']"
    by (simp add: one_slot_def sample_server_env_def)
  with ms s0 show ?thesis
    by (intro exI [of _ ?s] exI [of _ s0] exI [of _ ?t]) (simp add: server_new_def)
qed

end
