(* ===== verification/Engine_Budget.thy ===== *)
theory Engine_Budget
  imports Engine_Total
begin

text \<open>
  Termination of what inserts into the tree: CREATE TABLE, whole texts and the drain thread.
  The locale \<open>steady_inserts\<close> has a family of invariants \<open>I k\<close>, with page numbers left for \<open>k\<close>
  insertions; \<open>spends I k m\<close> says that \<open>m\<close> returns and uses at most \<open>k\<close> of them. It is
  interpreted on files with linked pages. The number of levels is at most the number of
  pages, so a file below 16 GB always has room for a thousand insertions.
\<close>

section \<open>A budget of insertions\<close>

definition spends :: "(nat \<Rightarrow> 's \<Rightarrow> bool) \<Rightarrow> nat \<Rightarrow> ('s, 'a) act \<Rightarrow> bool" where
  "spends I k m \<longleftrightarrow> (\<forall>s j. I (k + j) s \<longrightarrow> ends m s (\<lambda>_. I j))"

text \<open>The insertions a text may need: one for each CREATE TABLE and for each of its five repeats.\<close>

definition table_inserts :: "engine_env \<Rightarrow> str \<Rightarrow> nat" where
  "table_inserts E sql = (case parse_sql E sql of Inl _ \<Rightarrow> 0 | Inr sts \<Rightarrow> 6 * length (filter creates_table sts))"

locale steady_inserts =
  fixes E :: engine_env and I :: "nat \<Rightarrow> engine \<Rightarrow> bool"
  assumes steady_at: "steady E (I k)"
    and fewer: "I (Suc k) s \<Longrightarrow> I k s"
    and inserts: "I (Suc k) s \<Longrightarrow> ends (on_tree (bt_insert (benv E) key val)) s (\<lambda>_. I k)"

sublocale steady_inserts \<subseteq> budget: steady E "I k" for k
  by (rule steady_at)

context steady_inserts
begin

lemma less_budget: "I (k + j) s \<Longrightarrow> I j s"
  by (induction k) (auto dest: fewer)

lemma spends_returns: "(\<And>k. returns (I k) m) \<Longrightarrow> spends I k m"
  by (auto simp: spends_def returns_def dest: less_budget)

lemma spends_seq:
  assumes "spends I k m" and "\<And>x. spends I l (f x)"
  shows "spends I (k + l) (seq m f)"
  unfolding spends_def
proof (intro allI impI)
  fix s j assume "I (k + l + j) s"
  then have "ends m s (\<lambda>_. I (l + j))" using assms(1) by (simp add: spends_def add.assoc)
  then show "ends (seq m f) s (\<lambda>_. I j)"
    by (rule ends_seq) (use assms(2) in \<open>auto simp: spends_def dest: less_budget\<close>)
qed

lemma spends_after: "(\<And>k. returns (I k) m) \<Longrightarrow> (\<And>x. spends I l (f x)) \<Longrightarrow> spends I l (seq m f)"
  by (rule spends_seq [where k = 0, OF spends_returns, simplified])

lemma spends_before: "spends I k m \<Longrightarrow> (\<And>x k. returns (I k) (f x)) \<Longrightarrow> spends I k (seq m f)"
  by (rule spends_seq [where l = 0, OF _ spends_returns, simplified])

lemma spends_insert: "spends I (Suc 0) (on_tree (bt_insert (benv E) key val))"
  using inserts by (simp add: spends_def)

lemma spends_create: "spends I (Suc 0) (create_table E name cols)"
  unfolding create_table_def Let_def
  by (intro spends_after spends_before spends_insert budget.returns_set budget.returns_schemas_record returns_ret)
    simp

lemma spends_statement:
  "spends I (if creates_table st then Suc 0 else 0) (execute_statement E st c)"
proof (cases "creates_table st")
  case True
  then obtain name cols where st: "st = CreateTable name cols"
    by (auto simp: creates_table_def split: statement.splits)
  then have "spends I (Suc 0) (dispatch E st c)" by (simp add: dispatch_def spends_create)
  moreover have "spends I (Suc 0) (call_module E path)" for path
    by (rule spends_returns) (rule budget.returns_call)
  ultimately show ?thesis using True by (simp add: execute_statement_def Let_def)
next
  case False
  then show ?thesis by (simp add: spends_returns budget.returns_statement)
qed

lemma spends_retry:
  assumes "spends I k (execute_statement E st c)"
  shows "n \<le> 5 \<Longrightarrow> spends I ((6 - n) * k) (run_statement E st c n)"
proof (induction "5 - n" arbitrary: n rule: less_induct)
  case less
  show ?case
    unfolding spends_def
  proof (intro allI impI)
    fix s j assume I: "I ((6 - n) * k + j) s"
    have "6 - n = Suc (5 - n)" using less.prems by linarith
    then have "(6 - n) * k = k + (5 - n) * k" by simp
    with I assms have "ends (execute_statement E st c) s (\<lambda>_. I ((5 - n) * k + j))"
      by (simp add: spends_def add.assoc)
    then obtain r s1 where x: "execute_statement E st c s = Some (r, s1)" "I ((5 - n) * k + j) s1"
      by (auto simp: ends_def)
    have "ends (run_statement E st c (Suc n)) s1 (\<lambda>_. I j)" if "n < 5"
      using less.hyps [of "Suc n"] that x(2) by (simp add: spends_def Suc_diff_Suc numeral_eq_Suc)
    with x less_budget [OF x(2)] show "ends (run_statement E st c n) s (\<lambda>_. I j)"
      unfolding ends_def by (subst run_statement.simps) (auto split: sum.split)
  qed
qed

lemma spends_statements: "spends I (6 * length (filter creates_table sts)) (run_statements E sts c)"
proof (induction sts)
  case Nil
  show ?case by (simp add: spends_def ends_def)
next
  case (Cons st sts)
  let ?k = "if creates_table st then Suc 0 else 0"
  have "spends I ((6 - 0) * ?k) (run_statement E st c 0)" by (rule spends_retry [OF spends_statement]) simp
  moreover have "spends I (6 * length (filter creates_table sts)) (seq (run_statements E sts c) (\<lambda>rs. ret (r # rs)))" for r
    by (rule spends_before [OF Cons returns_ret])
  ultimately have "spends I ((6 - 0) * ?k + 6 * length (filter creates_table sts)) (run_statements E (st # sts) c)"
    unfolding run_statements.simps by (rule spends_seq)
  then show ?case by (simp split: if_splits)
qed

lemma spends_execute: "spends I (table_inserts E sql) (execute E sql c)"
proof -
  have "spends I (table_inserts E sql) (seq (of_result (parse_sql E sql)) (\<lambda>ast.
      seq (run_statements E ast c) (\<lambda>rs. ret (join [CHR 0x0A] rs))))"
  proof (cases "parse_sql E sql")
    case (Inl e)
    then show ?thesis by (simp add: spends_def ends_def table_inserts_def)
  next
    case (Inr sts)
    from spends_before [OF spends_statements [of sts c] returns_ret]
    show ?thesis using Inr by (simp add: spends_def ends_def table_inserts_def)
  qed
  moreover have "spends I n (flush_command E)" "spends I n (universal_search E q)" "spends I n (begin_tx E c)"
    "spends I n (commit_tx E c)" "spends I n (rollback_tx c)" for n q
    by (intro spends_returns budget.returns_flush_command budget.returns_search budget.returns_begin
        budget.returns_commit)+
  ultimately show ?thesis unfolding execute_def Let_def by auto
qed

lemma spends_drain_entry: "spends I (Suc 0) (drain_entry E e)"
proof -
  have "spends I (Suc 0) (ignore_error (on_tree (bt_insert (benv E) k d)))" for k d
    unfolding spends_def
  proof (intro allI impI)
    fix s j assume "I (Suc 0 + j) s"
    then have "ends (on_tree (bt_insert (benv E) k d)) s (\<lambda>_. I j)"
      using spends_insert [of k d] by (simp add: spends_def)
    then obtain r s' where "on_tree (bt_insert (benv E) k d) s = Some (r, s')" "I j s'"
      by (auto simp: ends_def)
    then show "ends (ignore_error (on_tree (bt_insert (benv E) k d))) s (\<lambda>_. I j)"
      by (cases r) (simp_all add: ends_def ignore_error_def)
  qed
  moreover have "spends I (Suc 0) (ret ())" by (rule spends_returns) (rule returns_ret)
  ultimately show ?thesis by (auto simp: drain_entry_def split: wal_entry.split)
qed

lemma spends_drain_entries: "spends I (length es) (for_each es (drain_entry E))"
proof (induction es)
  case Nil
  show ?case by (simp add: spends_def ends_def)
next
  case (Cons e es)
  from spends_seq [OF spends_drain_entry this] show ?case by simp
qed

lemma spends_drain: "spends I 1000 (drain_round E)"
  unfolding spends_def
proof (intro allI impI)
  fix s j assume I: "I (1000 + j) s"
  let ?es = "take 1000 (log_queue s)"
  let ?s = "s\<lparr>tree := (tree s)\<lparr>bt_wal := (bt_wal (tree s))\<lparr>queue := drop 1000 (log_queue s)\<rparr>\<rparr>\<rparr>"
  have "I (1000 + j) ?s" by (rule budget.dequeued [OF I])
  moreover have "1000 + j = (1000 - length ?es) + (length ?es + j)" by simp
  ultimately have "I (length ?es + j) ?s" using less_budget by metis
  then have "ends (for_each ?es (drain_entry E)) ?s (\<lambda>_. I j)"
    using spends_drain_entries [of ?es] by (simp add: spends_def)
  then show "ends (drain_round E) s (\<lambda>_. I j)" by (simp add: ends_def drain_round_def)
qed

end

section \<open>Files with linked pages\<close>

abbreviation levels_of :: "ordering \<Rightarrow> engine \<Rightarrow> nat" where
  "levels_of D s \<equiv> level D (root_page_id (tree s))"

definition insert_budget :: "engine_env \<Rightarrow> nat \<Rightarrow> engine \<Rightarrow> bool" where
  "insert_budget E k s \<longleftrightarrow> (\<exists>D. linked (benv E) (tree s) D
     \<and> pages (tree s) + k * (levels_of D s + k + 3) \<le> 2 ^ 32)"

lemma insert_budget_cong:
  "bt_pager (tree s') = bt_pager (tree s) \<Longrightarrow> root_page_id (tree s') = root_page_id (tree s)
    \<Longrightarrow> insert_budget E k s' = insert_budget E k s"
  unfolding insert_budget_def using linked_cong [of "tree s'" "tree s"] by simp

lemma returns_log:
  assumes "\<And>w. \<exists>r w'. m w = Some (r, w')"
  shows "returns (insert_budget E k) (on_tree (on_wal m))"
proof (rule returnsI)
  fix s assume s: "insert_budget E k s"
  obtain r w' where w: "m (bt_wal (tree s)) = Some (r, w')" using assms by blast
  let ?s = "s\<lparr>tree := (tree s)\<lparr>bt_wal := w'\<rparr>\<rparr>"
  have "insert_budget E k ?s = insert_budget E k s" by (rule insert_budget_cong) simp_all
  with s w show "\<exists>r s'. on_tree (on_wal m) s = Some (r, s') \<and> insert_budget E k s'" by (simp add: zoom_def)
qed

lemma steady_budget: "steady E (insert_budget E k)"
proof
  fix s assume "insert_budget E k s"
  then show "\<exists>D. linked (benv E) (tree s) D" by (auto simp: insert_budget_def)
next
  show "returns (insert_budget E k) (enqueue E key data)" for key data
    unfolding enqueue_def by (rule returns_log) (rule enqueue_total)
  show "returns (insert_budget E k) (flush E)"
    unfolding flush_def by (rule returns_log) (metis flush_suffix)
next
  fix s s' :: engine assume "insert_budget E k s" "tree s' = tree s"
  then show "insert_budget E k s'" using insert_budget_cong [of s' s] by simp
next
  fix s assume s: "insert_budget E k s"
  have cong: "insert_budget E k (s\<lparr>tree := (tree s)\<lparr>memory_tier := m\<rparr>\<rparr>) = insert_budget E k s"
    "insert_budget E k (s\<lparr>tree := (tree s)\<lparr>bt_wal := w\<rparr>\<rparr>) = insert_budget E k s" for m w
    by (rule insert_budget_cong; simp)+
  show "insert_budget E k (s\<lparr>tree := (tree s)\<lparr>memory_tier := snd (mt_get key (tier s))\<rparr>\<rparr>)"
    "insert_budget E k (s\<lparr>tree := (tree s)\<lparr>memory_tier := mt_insert now key val (tier s)\<rparr>\<rparr>)"
    "insert_budget E k (s\<lparr>tree := (tree s)\<lparr>bt_wal := (bt_wal (tree s))\<lparr>queue := drop n (log_queue s)\<rparr>\<rparr>\<rparr>)"
    for key now val n
    using s by (simp_all only: cong)
qed

text \<open>An insertion adds one level and as many pages as there are levels, and three.\<close>

lemma spend_one:
  assumes "p + Suc k * (l + Suc k + 3) \<le> (n :: nat)" and "p' \<le> p + l + 3" and "l' \<le> Suc l"
  shows "p' + k * (l' + k + 3) \<le> n"
proof -
  have "k * (l' + k + 3) \<le> k * (l + Suc k + 3)" using assms(3) by (intro mult_le_mono2) simp
  with assms(1)[unfolded mult_Suc] assms(2) show ?thesis by linarith
qed

interpretation on_linked: steady_inserts E "insert_budget E" for E
proof (intro steady_inserts.intro steady_budget)
  fix k s
  assume "insert_budget E (Suc k) s"
  then obtain D where D: "linked (benv E) (tree s) D"
    "pages (tree s) + Suc k * (levels_of D s + Suc k + 3) \<le> 2 ^ 32" by (auto simp: insert_budget_def)
  from spend_one [OF D(2) _ le_SucI [OF order_refl]] D(1) show "insert_budget E k s"
    unfolding insert_budget_def by auto
  fix key val
  have "pages (tree s) + levels_of D s + 3 \<le> 2 ^ 32" using D(2) by simp
  from ends_bt_insert [OF D(1) this]
  have "ends (bt_insert (benv E) key val) (tree s) (\<lambda>r t. insert_budget E k (s\<lparr>tree := t\<rparr>))"
  proof (rule ends_mono)
    fix r :: "err + unit" and t
    assume "raised (benv E) (tree s) D (levels_of D s + 3) t"
    then obtain D' where D': "linked (benv E) t D'" "level D' (root_page_id t) \<le> Suc (levels_of D s)"
      "pages t \<le> pages (tree s) + levels_of D s + 3" by (auto simp: raised_def)
    from spend_one [OF D(2) D'(3,2)] D'(1) show "insert_budget E k (s\<lparr>tree := t\<rparr>)"
      by (auto simp: insert_budget_def)
  qed
  then show "ends (on_tree (bt_insert (benv E) key val)) s (\<lambda>_. insert_budget E k)"
    by (simp add: ends_zoom)
qed

section \<open>Levels are bounded by pages\<close>

text \<open>The levels of a linked file can be renumbered without gaps.\<close>

definition compact :: "ordering \<Rightarrow> ordering" where
  "compact D = D\<lparr>level := \<lambda>p. card {l \<in> level D ` nodes D. l < level D p}\<rparr>"

lemma compact_mono:
  assumes "q \<in> nodes D"
  shows "level D q \<le> level D p \<Longrightarrow> level (compact D) q \<le> level (compact D) p"
    and "level D q < level D p \<Longrightarrow> level (compact D) q < level (compact D) p"
proof -
  have fin: "finite {l \<in> level D ` nodes D. l < level D p}" by simp
  show "level (compact D) q \<le> level (compact D) p" if "level D q \<le> level D p"
    unfolding compact_def using that by (auto intro!: card_mono)
  show "level (compact D) q < level (compact D) p" if "level D q < level D p"
    unfolding compact_def using that assms by (auto intro!: psubset_card_mono)
qed

lemma linked_compact:
  assumes "linked E s D"
  shows "linked E s (compact D)" and "level (compact D) p \<le> pages s"
proof -
  have "links_ok (compact D) r p n" if "links_ok D r p n" for r p n
    using that compact_mono [of _ D p]
    by (auto simp: links_ok_def) (simp_all add: compact_def)
  with assms show "linked E s (compact D)" by (simp add: linked_def) (simp add: compact_def)
  have "unat ` nodes D \<subseteq> {..<pages s}" using assms by (auto simp: linked_def)
  then have "card (unat ` nodes D) \<le> card {..<pages s}" by (intro card_mono) simp_all
  moreover have "card (unat ` nodes D) = card (nodes D)"
    by (intro card_image inj_onI) (simp add: word_unat_eq_iff)
  moreover have "card {l \<in> level D ` nodes D. l < level D p} \<le> card (level D ` nodes D)"
    by (intro card_mono) auto
  moreover have "card (level D ` nodes D) \<le> card (nodes D)" by (intro card_image_le) simp
  ultimately show "level (compact D) p \<le> pages s" by (simp add: compact_def)
qed

lemma thousand_inserts:
  assumes "linked (benv E) (tree s) D" and "pages (tree s) \<le> 2 ^ 22"
  shows "insert_budget E 1000 s"
proof -
  have "level (compact D) (root_page_id (tree s)) \<le> 2 ^ 22"
    using linked_compact(2) [OF assms(1)] assms(2) order_trans by blast
  with linked_compact(1) [OF assms(1)] assms(2) show ?thesis
    unfolding insert_budget_def by (intro exI [of _ "compact D"]) simp
qed

end
