(* ===== verification/Server_Live.thy ===== *)
theory Server_Live
  imports Server_Feed Engine_Budget
begin

text \<open>
  The server answers. From a start on linked pages, whatever clients send and however the tasks
  interleave, every connection, request, feed and drain round that comes next is served, with a
  result or an error, as long as the process has not panicked and the file stays below 16 GB.
\<close>

section \<open>Events that insert into the tree\<close>

definition event_inserts :: "engine_env \<Rightarrow> event \<Rightarrow> nat" where
  "event_inserts E ev = (case ev of
      Line _ line \<Rightarrow> table_inserts E (trim line)
    | Http _ (Query_req body) \<Rightarrow> table_inserts E body
    | Drained \<Rightarrow> 1000
    | _ \<Rightarrow> 0)"

definition is_hotswap :: "event \<Rightarrow> bool" where
  "is_hotswap ev \<longleftrightarrow> (case ev of Http _ (Hotswap_req _) \<Rightarrow> True | _ \<Rightarrow> False)"

text \<open>The client of the event is there; a feed that waits for a message has one.\<close>

definition pending :: "event \<Rightarrow> server \<Rightarrow> bool" where
  "pending ev s \<longleftrightarrow> alive s \<and> (case ev of
      Line c _ \<Rightarrow> map_of (conns s) c \<noteq> None
    | Feed_open w \<Rightarrow> map_of (subs s) w = None
    | Feed_recv w \<Rightarrow> (\<exists>pos. map_of (subs s) w = Some pos \<and> pos < length (sent s))
    | Feed_tick w \<Rightarrow> map_of (subs s) w \<noteq> None
    | _ \<Rightarrow> True)"

section \<open>One event\<close>

abbreviation has_budget :: "server_env \<Rightarrow> nat \<Rightarrow> server \<Rightarrow> bool" where
  "has_budget E k s \<equiv> insert_budget (eenv E) k (eng s)"

lemma query_ends:
  assumes "has_budget E (table_inserts (eenv E) q + k) s"
  obtains r s' where "run_query E q c s = Some (r, s')" and "has_budget E k s'"
proof -
  have "ends (execute (eenv E) q c) (eng s) (\<lambda>_. insert_budget (eenv E) k)"
    using on_linked.spends_execute [of "eenv E" q c] assms by (simp add: spends_def)
  with that show thesis by (auto simp: ends_def run_query_def)
qed

lemma engine_ends:
  assumes "ends m (eng s) (\<lambda>_. insert_budget (eenv E) k)"
  obtains s' where "run_engine m s = Some s'" and "has_budget E k s'"
  using assms by (auto simp: ends_def run_engine_def)

lemma linked_budget: "has_budget E k s \<Longrightarrow> \<exists>D. linked (benv (eenv E)) (tree (eng s)) D"
  by (auto simp: insert_budget_def)

lemma line_ends:
  assumes "map_of (conns s) c \<noteq> None" and "has_budget E (table_inserts (eenv E) (trim line) + k) s"
  shows "\<exists>out s'. tcp_line E c line s = Some (out, s') \<and> has_budget E k s'"
proof -
  obtain a where a: "map_of (conns s) c = Some a" using assms(1) by auto
  have k: "has_budget E k s" by (rule on_linked.less_budget [OF assms(2)])
  obtain r s' where "run_query E (trim line) c s = Some (r, s')" "has_budget E k s'"
    by (rule query_ends [OF assms(2)])
  with a k show ?thesis by (cases a) (simp_all add: tcp_line_def Let_def)
qed

lemma returns_run: "returns (insert_budget (eenv E) k) m \<Longrightarrow> has_budget E k s \<Longrightarrow>
    \<exists>s'. run_engine m s = Some s' \<and> has_budget E k s'"
  by (auto simp: returns_def ends_def run_engine_def)

lemma settings_budget:
  "has_budget E k (on_tier f s) = has_budget E k s"
  by (rule insert_budget_cong) simp_all

lemma request_ends:
  assumes "\<not> is_hotswap (Http header req)" and "has_budget E (event_inserts (eenv E) (Http header req) + k) s"
  shows "\<exists>r s'. handle_request E header req s = Some (r, s') \<and> has_budget E k s'"
proof -
  have k: "has_budget E k s" by (rule on_linked.less_budget [OF assms(2)])
  show ?thesis
  proof (cases req)
    case (Query_req q)
    then have "has_budget E (table_inserts (eenv E) q + k) s" using assms(2) by (simp add: event_inserts_def)
    then obtain r s' where "run_query E q 999 s = Some (r, s')" "has_budget E k s'" by (rule query_ends)
    with Query_req k show ?thesis by (simp add: handle_request_def query_handler_def)
  next
    case Undo_req
    with returns_run [OF on_linked.budget.returns_undo(1) k] k show ?thesis
      by (auto simp: handle_request_def undo_handler_def)
  next
    case Redo_req
    with returns_run [OF on_linked.budget.returns_undo(2) k] k show ?thesis
      by (auto simp: handle_request_def redo_handler_def)
  qed (use assms(1) k settings_budget in \<open>auto simp: is_hotswap_def handle_request_def backup_handler_def
      memory_mode_handler_def memory_limit_handler_def memory_purge_handler_def split: option.split\<close>)
qed

lemma event_ends:
  assumes "pending ev s" and "\<not> is_hotswap ev" and "has_budget E (event_inserts (eenv E) ev + k) s"
  shows "\<exists>s'. serve E ev s = Some s' \<and> has_budget E k s'"
proof -
  have k: "has_budget E k s" by (rule on_linked.less_budget [OF assms(3)])
  have alive: "alive s" using assms(1) by (simp add: pending_def)
  show ?thesis
  proof (cases ev)
    case (Line c line)
    with assms alive line_ends [of s c E line k] show ?thesis
      by (auto simp: pending_def serve_def event_inserts_def)
  next
    case (Http header req)
    with assms alive request_ends [of header req E k s] show ?thesis by (auto simp: serve_def)
  next
    case Drained
    then have "ends (drain_round (eenv E)) (eng s) (\<lambda>_. insert_budget (eenv E) k)"
      using on_linked.spends_drain [of "eenv E"] assms(3) by (simp add: spends_def event_inserts_def)
    with Drained alive show ?thesis by (auto simp: serve_def ends_def run_engine_def)
  next
    case (Feed_recv w)
    with assms(1) k alive show ?thesis by (auto simp: pending_def serve_def feed_recv_def)
  qed (use assms(1) k alive in \<open>auto simp: pending_def serve_def accept_def feed_open_def feed_tick_def feed_close_def\<close>)
qed

text \<open>A hot swap is answered too, although nothing is known about the file that it brings.\<close>

lemma hotswap_ends:
  assumes "has_budget E k s"
  shows "\<exists>r s'. hotswap_handler E header body s = Some (r, s')"
proof -
  obtain s1 where s1: "run_engine (flush (eenv E)) s = Some s1" "has_budget E k s1"
    using returns_run [OF on_linked.budget.flushes assms] by blast
  then obtain D where "linked (benv (eenv E)) (tree (eng s1)) D" using linked_budget by blast
  from sync_linked [OF this] obtain s2 where
    s2: "run_engine (on_tree (on_pager (pager_sync (penv (benv (eenv E)))))) s1 = Some s2"
    by (auto simp: run_engine_def zoom_def)
  have "\<exists>r p'. pager_reload P f p = Some (r, p')" for P f p
    by (cases "open_path P f") (simp_all add: pager_reload_def serve_reload_def)
  then have "\<exists>s3. run_engine (on_tree (on_pager (pager_reload P f))) s2 = Some s3" for P f
    by (simp add: run_engine_def zoom_def)
  with s1 s2 show ?thesis by (auto simp: hotswap_handler_def split: option.split)
qed

section \<open>All events\<close>

abbreviation file_pages :: "server \<Rightarrow> nat" where
  "file_pages s \<equiv> pages (tree (eng s))"

lemma event_budget:
  assumes "linked (benv (eenv E)) (tree (eng s)) D" and "file_pages s \<le> 2 ^ 22"
    and "event_inserts (eenv E) ev \<le> 1000"
  shows "has_budget E (event_inserts (eenv E) ev) s"
proof -
  have "1000 = (1000 - event_inserts (eenv E) ev) + event_inserts (eenv E) ev" using assms(3) by simp
  then show ?thesis
    using thousand_inserts [OF assms(1,2)] on_linked.less_budget by metis
qed

lemma served_alive: "serve E ev s = Some s' \<Longrightarrow> alive s"
  by (auto simp: serve_def split: if_splits)

lemma linked_runs:
  assumes "runs E s0 evs s" and "linked (benv (eenv E)) (tree (eng s0)) D"
    and "\<forall>ev \<in> set evs. \<not> is_hotswap ev \<and> event_inserts (eenv E) ev \<le> 1000"
    and "\<And>evs1 evs2 t. evs = evs1 @ evs2 \<Longrightarrow> runs E s0 evs1 t \<Longrightarrow> file_pages t \<le> 2 ^ 22"
  shows "\<exists>D. linked (benv (eenv E)) (tree (eng s)) D"
  using assms
proof (induction rule: runs.induct)
  case (step evs t ev u)
  have "\<exists>D. linked (benv (eenv E)) (tree (eng t)) D"
    using step.prems by (intro step.IH) auto
  moreover have "file_pages t \<le> 2 ^ 22" by (rule step.prems(3) [OF refl step.hyps(1)])
  ultimately have "has_budget E (event_inserts (eenv E) ev + 0) t"
    using event_budget step.prems(2) by auto
  moreover have "pending ev t"
    using step.hyps(2) served_alive [OF step.hyps(2)]
    by (auto simp: pending_def serve_def tcp_line_def feed_open_def feed_recv_def feed_tick_def
        split: event.split option.splits if_splits)
  ultimately obtain u' where "serve E ev t = Some u'" "has_budget E 0 u'"
    using event_ends step.prems(2) by (metis in_set_conv_decomp)
  with step.hyps(2) show ?case using linked_budget by auto
qed blast

text \<open>
  C5 (server, liveness): started on a file with linked pages, a server whose process lives serves
  every event that is pending: a connection that comes, any line of an open connection, any
  request, any step of a feed and any drain round. The events before, in any order, are not
  hot swaps, no text contains more than 166 CREATE TABLE statements, and the file has stayed
  below 16 GB.
\<close>

theorem server_answers:
  assumes "runs E (server_new e user pass path) evs s" and "linked (benv (eenv E)) (tree e) D"
    and "\<forall>ev' \<in> set evs. \<not> is_hotswap ev'" and "\<forall>ev' \<in> set (evs @ [ev]). event_inserts (eenv E) ev' \<le> 1000"
    and "\<And>evs1 evs2 t. evs = evs1 @ evs2 \<Longrightarrow> runs E (server_new e user pass path) evs1 t \<Longrightarrow> file_pages t \<le> 2 ^ 22"
    and "pending ev s"
  shows "\<exists>s'. serve E ev s = Some s'"
proof -
  have "\<exists>D. linked (benv (eenv E)) (tree (eng s)) D"
    by (rule linked_runs [OF assms(1) _ _ assms(5)]) (use assms(2-4) in \<open>auto simp: server_new_def\<close>)
  moreover have "file_pages s \<le> 2 ^ 22" by (rule assms(5) [OF _ assms(1)]) simp
  ultimately have budget: "has_budget E (event_inserts (eenv E) ev + 0) s" using event_budget assms(4) by auto
  show ?thesis
  proof (cases "is_hotswap ev")
    case True
    then obtain header body where "ev = Http header (Hotswap_req body)"
      by (auto simp: is_hotswap_def split: event.splits request.splits)
    moreover obtain r s' where "hotswap_handler E header body s = Some (r, s')"
      using hotswap_ends [OF budget] by blast
    ultimately show ?thesis using assms(6) by (simp add: serve_def pending_def handle_request_def)
  next
    case False
    from event_ends [OF assms(6) False budget] show ?thesis by blast
  qed
qed

section \<open>Witness\<close>

inductive_simps runs_nil: "runs E s [] t"
inductive_simps runs_snoc: "runs E s (evs @ [ev]) t"

theorem server_answers_witness:
  "\<exists>e D s s'. linked (benv (eenv sample_server_env)) (tree e) D
    \<and> runs sample_server_env (server_new e ''admin'' ''pw'' ''db'') [Accepted] s
    \<and> serve sample_server_env (Line 1000 ''AUTH admin:pw'') s = Some s'"
proof -
  let ?E = sample_server_env
  obtain b where b: "tree_rep sample_tree_env (bt_pager b) b empty_tree" "pages b = 1"
    by (rule sample_open)
  have "chain_ok empty_tree" by (simp add: chain_ok_def)
  with b(1) obtain D where "linked sample_tree_env b D" by (rule linked_tree)
  then have D: "linked (benv (eenv ?E)) (tree (fresh_engine b)) D"
    by (simp add: sample_purge_env fresh_engine_def)
  let ?s = "server_new (fresh_engine b) ''admin'' ''pw'' ''db''"
  have acc: "serve ?E Accepted ?s = Some (accept ?s)" by (simp add: serve_def server_new_def)
  from runs.step [OF runs.start acc] have run: "runs ?E ?s [Accepted] (accept ?s)" by simp
  have small: "file_pages t \<le> 2 ^ 22" if "[Accepted] = evs1 @ evs2" "runs ?E ?s evs1 t" for evs1 evs2 t
  proof -
    from that(1) have "evs1 = [] \<or> evs1 = [] @ [Accepted]" by (cases evs1) auto
    with that(2) acc have "t = ?s \<or> t = accept ?s" by (auto simp: runs_nil runs_snoc [of _ _ "[]", simplified])
    with b(2) show ?thesis by (auto simp: server_new_def accept_def fresh_engine_def)
  qed
  have "pending (Line 1000 ''AUTH admin:pw'') (accept ?s)"
    by (simp add: pending_def server_new_def accept_def)
  then have "\<exists>s'. serve ?E (Line 1000 ''AUTH admin:pw'') (accept ?s) = Some s'"
    by (intro server_answers [OF run D _ _ small])
      (auto simp: is_hotswap_def event_inserts_def table_inserts_def sample_server_env_def sample_engine_env_def
        creates_table_def split: sum.split)
  with D run show ?thesis by blast
qed

end
