(* ===== verification/Btree_Faults.thy ===== *)
theory Btree_Faults
  imports Btree_Props
begin

text \<open>
  An update that the tree loses. When an insertion has to split the leaf that holds the key
  and the key itself becomes the separator, \<open>insert_non_full\<close> goes on in the left half, as it
  tests \<open>key > separator\<close>, while the key is in the right half, where lookups go.
\<close>

section \<open>Looking up a key past a separator\<close>

lemma get_from_child:
  assumes "binv E s" and "node_at E p0 s p = Some (node_of (PNode p ks ts'))" and "okt (PNode p ks ts) lo hi"
    and "map tid ts' = map tid ts" and "slot ks key = j" and "okt (ts' ! j) lo' hi'"
    and "holds (ts' ! j) (node_at E p0 s)"
  shows "get_from E key p s = Some (Inr (map_of (entries (ts' ! j)) key), s)"
proof -
  have j: "j < length ts" using slot_child [OF assms(3), of key] assms(5) by simp
  have len: "length ts' = length ts" using assms(4) by (metis length_map)
  have n: "node_of (PNode p ks ts') = node_of (PNode p ks ts)" using assms(4) by simp
  have ld: "load_node E p s = Some (Inr (node_of (PNode p ks ts)), s)"
    using ns.load_ok [OF assms(1,2)] n by simp
  have ci: "child_index (node_of (PNode p ks ts)) key = j"
    using child_index_slot [OF assms(3)] assms(5) by simp
  have c: "vec_get (children (node_of (PNode p ks ts))) j = Inr (tid (ts' ! j))"
    using j len assms(4) by (simp add: new_internal_def) (metis nth_map)
  have "get_from E key p s = get_from E key (tid (ts' ! j)) s"
    using ci c by (subst get_from.simps) (simp add: seq_Inr ld, simp add: new_internal_def run)
  also have "\<dots> = Some (Inr (map_of (entries (ts' ! j)) key), s)"
    by (rule get_sim [OF assms(1,6,7)])
  finally show ?thesis .
qed

section \<open>The insertion goes to the left half\<close>

text \<open>The leaf of the key is full and its middle key is the key.\<close>

definition split_at_key :: "(node \<Rightarrow> bool) \<Rightarrow> bytes \<Rightarrow> ptree \<Rightarrow> bytes list \<Rightarrow> bytes list \<Rightarrow> bool" where
  "split_at_key full key t lks lvs \<longleftrightarrow> (\<exists>p ks ts q nx. t = PNode p ks ts \<and> \<not> full (node_of t)
     \<and> ts ! slot ks key = PLeaf q lks lvs nx \<and> full (node_of (PLeaf q lks lvs nx))
     \<and> 2 \<le> length lks \<and> key = lks ! (length lks div 2))"

lemma split_update:
  assumes rep: "tree_rep E p0 s (PNode p ks ts)" and nf: "\<not> is_full E (node_of (PNode p ks ts))"
    and leaf: "ts ! slot ks key = PLeaf q lks lvs nx" and full: "is_full E (node_of (PLeaf q lks lvs nx))"
    and two: "2 \<le> length lks" and key: "key = lks ! (length lks div 2)"
    and fit: "fits_tree (fst (pt_ins (is_full E) key val (pages s) (PNode p ks ts)))"
    and lt: "pages s < 2 ^ 32" and rm: "4 \<le> room s" and mem: "mt_lookup (memory_tier s) key = None"
  shows "\<exists>s'. bt_insert E key val s = Some (Inr (), s')
    \<and> map_option fst (bt_get E key s') = Some (Inr (Some (lvs ! (length lks div 2))))"
proof -
  let ?i = "slot ks key" and ?mid = "length lks div 2" and ?q = "of_nat (pages s) :: u32"
  let ?l = "PLeaf q (take ?mid lks) (take ?mid lvs) (Some ?q)" and ?r = "PLeaf ?q (drop ?mid lks) (drop ?mid lvs) nx"
  let ?ks = "ins_at ?i key ks" and ?ts = "take ?i ts @ [?l, ?r] @ drop (Suc ?i) ts"
  have inv: "binv E s" and ok: "okt (PNode p ks ts) None None" and at: "trees_at E p0 s [PNode p ks ts]"
    and root: "root_page_id s = p"
    using rep by (auto simp: tree_rep_def)
  have il: "?i < length ts" by (rule slot_child [OF ok])
  have sp: "pt_split ?q (ts ! ?i) = (?l, key, ?r)" unfolding leaf using key by (simp add: Let_def)
  have spl: "splittable (ts ! ?i)" using two by (simp add: leaf)
  have st: "pt_step (is_full E) key (pages s) ks ts = (?ks, ?ts, ?i, pages s + 1)"
    using full sp by (simp add: pt_step_def leaf Let_def del: pt_split.simps)
  have ok': "okt (PNode p ?ks ?ts) None None" by (rule split_node_okt [OF ok il spl sp])
  have oks: "okt ?l (lo_of None ks ?i) (Some key)" "okt ?r (Some key) (hi_of ks None ?i)"
    using split_okt [OF okt_child [OF ok il] spl sp] by auto
  have nth: "?ts ! ?i = ?l" "?ts ! Suc ?i = ?r" "?i < length ?ts" using il by (simp_all add: nth_append)
  obtain c n where c: "pt_ins (is_full E) key val (pages s + 1) ?l = (c, n)" by fastforce
  have n: "n = pages s + 1" and pc: "pages_of c = [q]" "tid c = q"
    using c by (auto split: sum.splits)
  have res: "fst (pt_ins (is_full E) key val (pages s) (PNode p ks ts)) = PNode p ?ks (?ts[?i := c])"
    using nth(3) by (simp only: pt_ins.simps(2) st prod.case nth(1) c il simp_thms if_True fst_conv)
  have fc: "fits_tree c" "fits (node_of (PNode p ?ks (?ts[?i := c])))"
    using fit il unfolding res by (auto simp: fits_node set_update_memI)
  have "\<exists>s'. insert_non_full E key val p (node_of (PNode p ks ts)) s = Some (Inr (), s') \<and> binv E s'
      \<and> holds (PNode p ?ks (?ts[?i := c])) (node_at E p0 s')
      \<and> same_but E p0 (pages s) (set (pages_of (PNode p ks ts))) s s' \<and> pages s' = pages s + 1 \<and> 0 \<le> room s'"
  proof (rule insert_node_sim [OF ok inv at st spl nth(3) _ _ _ _ _ _ fc(2)])
    fix s1 assume s1: "binv E s1" "trees_at E p0 s1 [?ts ! ?i]" "pages s1 = pages s + 1" "room s - 2 \<le> room s1"
    then have "unat q < pages s1" "1 \<le> room s1" using nth(1) rm by (auto simp: trees_at_def)
    from insert_leaf_sim [where ?p0.0 = p0, OF s1(1) oks(1) this(1) c fc(1) this(2)] s1(3,4) rm n
    show "\<exists>s2. insert_non_full E key val (tid (?ts ! ?i)) (node_of (?ts ! ?i)) s1 = Some (Inr (), s2)
        \<and> binv E s2 \<and> holds c (node_at E p0 s2)
        \<and> same_but E p0 (pages s + 1) (set (pages_of (?ts ! ?i))) s1 s2 \<and> pages s2 = pages s + 1 \<and> Suc 0 \<le> room s2"
      unfolding nth by auto
  qed (use lt rm pc nth in auto)
  then obtain s' where s': "insert_non_full E key val p (node_of (PNode p ks ts)) s = Some (Inr (), s')" "binv E s'"
    "holds (PNode p ?ks (?ts[?i := c])) (node_at E p0 s')" "frame_of s' = frame_of s"
    by (auto simp: same_but_def)
  have "bt_insert E key val s = Some (Inr (), s')"
    using nf tree_rep_root [OF rep] s'(1) sync_posix [OF s'(2)] by (simp add: bt_insert_def root seq_Inr)
  moreover have "map_option fst (bt_get E key s') = Some (Inr (Some (lvs ! ?mid)))"
  proof -
    obtain m where m: "mt_get key (memory_tier s') = (None, m)"
    proof
      have "fst (mt_get key (memory_tier s')) = None" using mem s'(4) by (simp add: frame_of_def)
      then show "mt_get key (memory_tier s') = (None, snd (mt_get key (memory_tier s')))"
        by (metis prod.collapse)
    qed
    let ?s = "s'\<lparr>memory_tier := m\<rparr>"
    have na: "node_at E p0 ?s = node_at E p0 s'" by (simp add: fun_eq_iff node_at_def recoverable_def)
    have len: "length lvs = length lks" using okt_child [OF ok il] leaf by simp
    have "sorted_wrt (<) ks" using ok by simp
    then have slot: "slot ?ks key = Suc ?i"
      using ok' nth_from_slot [of ks key ?i] slot_le [of ks key]
      by (intro slotI) (auto simp: nth_ins_at)
    have tids: "map tid (?ts[?i := c]) = map tid ?ts"
    proof -
      have "map tid ?ts ! ?i = tid c" using nth_map [OF nth(3), of tid] nth(1) pc(2) by (simp only: tid.simps)
      then show ?thesis using list_update_id [of "map tid ?ts" ?i] by (simp only: map_update)
    qed
    have sib: "?ts[?i := c] ! Suc ?i = ?r"
      using nth(2) by (simp only: nth_list_update_neq n_not_Suc_n not_False_eq_True)
    have "?ts[?i := c] ! Suc ?i \<in> set (?ts[?i := c])" using il by (intro nth_mem) simp
    then have "?r \<in> set (?ts[?i := c])" by (simp only: sib)
    then have hr: "holds ?r (node_at E p0 ?s)" unfolding na using s'(3) by (simp only: holds_node)
    have inv': "binv E ?s" using s'(2) by (simp add: binv_def)
    have at_p: "node_at E p0 ?s p = Some (node_of (PNode p ?ks (?ts[?i := c])))"
      unfolding na using s'(3) by (simp only: holds_node)
    have "get_from E key p ?s = Some (Inr (map_of (entries ?r) key), ?s)"
      by (rule get_from_child [OF inv' at_p ok' tids slot, unfolded sib, OF oks(2) hr])
    moreover have "map_of (entries ?r) key = Some (lvs ! ?mid)"
      using two len by (simp add: key Cons_nth_drop_Suc [symmetric])
    moreover have "root_page_id s' = p" using s'(4) root by (simp add: frame_of_def)
    ultimately show ?thesis by (simp add: bt_get_def m)
  qed
  ultimately show ?thesis by blast
qed

text \<open>
  C37 (B+tree, lost update): the root is an inner node that is not full, the leaf of a key right
  below it is full and the key is its middle key, the memory tier does not hold the key, and the
  nodes, page numbers and queue have room. Then inserting a new value for the key succeeds, and
  \<open>get\<close> still returns the old one. (Where the leaf is the root itself, the new root sends the
  insertion to the right half and nothing is lost.)
\<close>

theorem split_loses_update:
  assumes "tree_rep E p0 s t" and "split_at_key (is_full E) key t lks lvs"
    and "fits_tree (fst (pt_ins (is_full E) key val (pages s) t))"
    and "pages s < 2 ^ 32" and "4 \<le> room s" and "mt_lookup (memory_tier s) key = None"
  shows "\<exists>s'. bt_insert E key val s = Some (Inr (), s')
    \<and> map_option fst (bt_get E key s') = Some (Inr (Some (lvs ! (length lks div 2))))"
  using assms split_update unfolding split_at_key_def by blast

section \<open>A database on which it happens\<close>

text \<open>Values of 1000 bytes: three of them fill a leaf.\<close>

definition big :: "byte \<Rightarrow> bytes" where
  "big b = replicate 1000 b"

lemma length_big [simp]: "length (big b) = 1000"
  by (simp add: big_def)

lemma sample_step:
  assumes "tree_rep sample_tree_env p0 s t" and "pages s = n" and "r \<le> room s" and "insert_room t \<le> r"
    and "clean_root (is_full sample_tree_env) key n t"
    and "pt_insert (is_full sample_tree_env) key val n t = (t', n')" and "fits_tree t'" and "n' \<le> 9"
  obtains s' where "bt_insert sample_tree_env key val s = Some (Inr (), s')"
    and "tree_rep sample_tree_env p0 s' t'" and "pages s' = n'" and "r - insert_room t \<le> room s'"
    and "memory_tier s' = memory_tier s"
proof -
  from insert_full_sim [where ?p0.0 = p0, OF assms(1) assms(5,6) [folded assms(2)] assms(7)] assms(3,4,8)
  obtain s' where "bt_insert sample_tree_env key val s = Some (Inr (), s')"
    "tree_rep sample_tree_env p0 s' t'" "pages s' = n'" "room s - insert_room t \<le> room s'"
    "frame_of s' = frame_of s" by auto
  with assms(3) show thesis by (intro that [of s']) (auto simp: frame_of_def)
qed

text \<open>The trees after inserting the keys 1, 2, 3 and 4.\<close>

abbreviation t1 :: ptree where "t1 \<equiv> PLeaf 0 [[1]] [big 1] None"
abbreviation t2 :: ptree where "t2 \<equiv> PLeaf 0 [[1], [2]] [big 1, big 2] None"
abbreviation t3 :: ptree where "t3 \<equiv> PLeaf 0 [[1], [2], [3]] [big 1, big 2, big 3] None"
abbreviation t4 :: ptree where
  "t4 \<equiv> PNode 0 [[2]] [PLeaf 1 [[1]] [big 1] (Some 2), PLeaf 2 [[2], [3], [4]] [big 2, big 3, big 4] None]"

lemmas sample_eval = clean_root_def pt_insert_def is_full_sample node_ok_small leaf_size inner_size
  fits_def PAGE_SIZE_def ins_at_def binary_search_sorted rank_def slot_def

lemma sample_t1: "clean_root (is_full sample_tree_env) [1] 1 empty_tree"
  "pt_insert (is_full sample_tree_env) [1] (big 1) 1 empty_tree = (t1, 1)" "fits_tree t1"
  by (simp_all add: sample_eval del: node_of.simps)

lemma sample_t2: "clean_root (is_full sample_tree_env) [2] 1 t1"
  "pt_insert (is_full sample_tree_env) [2] (big 2) 1 t1 = (t2, 1)" "fits_tree t2"
  by (simp_all add: sample_eval del: node_of.simps)

lemma sample_t3: "clean_root (is_full sample_tree_env) [3] 1 t2"
  "pt_insert (is_full sample_tree_env) [3] (big 3) 1 t2 = (t3, 1)" "fits_tree t3"
  by (simp_all add: sample_eval del: node_of.simps)

lemma sample_grow: "pt_grow (Suc 0) t3 =
    PNode 0 [[2]] [PLeaf 1 [[1]] [big 1] (Some 2), PLeaf 2 [[2], [3]] [big 2, big 3] None]"
  by (simp add: pt_grow_def Let_def)

lemma sample_full: "is_full sample_tree_env (node_of t3)"
  by (simp add: sample_eval del: node_of.simps)

lemma sample_t4: "clean_root (is_full sample_tree_env) [4] 1 t3"
  "pt_insert (is_full sample_tree_env) [4] (big 4) 1 t3 = (t4, 3)" "fits_tree t4"
  by (simp_all add: sample_full sample_grow sample_eval pt_ins.simps(2) clean.simps(2) pt_step_def Let_def
      fits_node      del: node_of.simps)

lemma sample_lost:
  "split_at_key (is_full sample_tree_env) [3] t4 [[2], [3], [4]] [big 2, big 3, big 4]"
  "fits_tree (fst (pt_ins (is_full sample_tree_env) [3] (big 9) 3 t4))"
proof -
  show "split_at_key (is_full sample_tree_env) [3] t4 [[2], [3], [4]] [big 2, big 3, big 4]"
    by (simp add: split_at_key_def sample_eval del: node_of.simps)
  show "fits_tree (fst (pt_ins (is_full sample_tree_env) [3] (big 9) 3 t4))"
    by (simp add: sample_eval pt_ins.simps(2) pt_step_def Let_def fits_node del: node_of.simps)
qed

theorem split_loses_update_witness:
  "\<exists>s s1 s2. bt_open sample_tree_env (\<lambda>_. 0) False [] None (mt_new 64) = Some (Inr (), s)
    \<and> for_each [1, 2, 3, 4] (\<lambda>k. bt_insert sample_tree_env [k] (big k)) s = Some (Inr (), s1)
    \<and> bt_insert sample_tree_env [3] (big 9) s1 = Some (Inr (), s2)
    \<and> map_option fst (bt_get sample_tree_env [3] s2) = Some (Inr (Some (big 3)))"
proof -
  obtain s where s: "bt_open sample_tree_env (\<lambda>_. 0) False [] None (mt_new 64) = Some (Inr (), s)"
    "memory_tier s = mt_new 64" "tree_rep sample_tree_env (bt_pager s) s empty_tree" "pages s = 1"
    "room s = QUEUE_CAP"
    by (rule sample_open)
  have room: "100 \<le> room s" by (simp add: s(5) QUEUE_CAP_def)
  obtain a where a: "bt_insert sample_tree_env [1] (big 1) s = Some (Inr (), a)"
    "tree_rep sample_tree_env (bt_pager s) a t1" "pages a = 1" "92 \<le> room a" "memory_tier a = memory_tier s"
    by (rule sample_step [OF s(3,4) room _ sample_t1]) (auto simp: insert_room_def)
  obtain b where b: "bt_insert sample_tree_env [2] (big 2) a = Some (Inr (), b)"
    "tree_rep sample_tree_env (bt_pager s) b t2" "pages b = 1" "84 \<le> room b" "memory_tier b = memory_tier a"
    by (rule sample_step [OF a(2,3,4) _ sample_t2]) (auto simp: insert_room_def)
  obtain c where c: "bt_insert sample_tree_env [3] (big 3) b = Some (Inr (), c)"
    "tree_rep sample_tree_env (bt_pager s) c t3" "pages c = 1" "76 \<le> room c" "memory_tier c = memory_tier b"
    by (rule sample_step [OF b(2,3,4) _ sample_t3]) (auto simp: insert_room_def)
  obtain d where d: "bt_insert sample_tree_env [4] (big 4) c = Some (Inr (), d)"
    "tree_rep sample_tree_env (bt_pager s) d t4" "pages d = 3" "68 \<le> room d" "memory_tier d = memory_tier c"
    by (rule sample_step [OF c(2,3,4) _ sample_t4]) (auto simp: insert_room_def)
  have "mt_lookup (memory_tier d) [3] = None" by (simp add: d(5) c(5) b(5) a(5) s(2))
  with split_loses_update [OF d(2) sample_lost(1) sample_lost(2) [folded d(3)]] d(3,4)
  obtain e where "bt_insert sample_tree_env [3] (big 9) d = Some (Inr (), e)"
    "map_option fst (bt_get sample_tree_env [3] e) = Some (Inr (Some (big 3)))"
    by auto
  moreover have "for_each [1, 2, 3, 4] (\<lambda>k. bt_insert sample_tree_env [k] (big k)) s = Some (Inr (), d)"
    using a(1) b(1) c(1) d(1) by (simp add: seq_Inr)
  ultimately show ?thesis using s(1) by blast
qed

end
