(* ===== verification/Row_Keys.thy ===== *)
theory Row_Keys
  imports Engine_Insert
begin

text \<open>
  The keys of rows, \<open>table:number\<close> with 16 hexadecimal digits: for table names that are ASCII
  without a colon they are read back, and the prefix test of the scan tells the tables apart.
  Keys of rows, of index entries and of the schemas never collide.
\<close>

definition plain :: "str \<Rightarrow> bool" where
  "plain s \<longleftrightarrow> ascii s \<and> CHR '':'' \<notin> set s"

section \<open>Hexadecimal numbers\<close>

lemma digit_char_inj:
  assumes "digit_char a = digit_char b" and "a < 16" and "b < 16"
  shows "a = b"
proof -
  have v: "of_char (digit_char d) = (if d < 10 then 48 + d else 87 + d)" if "d < 16" for d :: nat
    using that by (simp add: digit_char_def)
  show ?thesis using arg_cong [OF assms(1), of "of_char :: char \<Rightarrow> nat"] assms(2,3)
    by (simp add: v split: if_splits)
qed

lemma base_digits:
  fixes a b B :: nat
  assumes "0 < B"
  shows "a < B ^ n \<Longrightarrow> b < B ^ n \<Longrightarrow> (\<And>j. j < n \<Longrightarrow> a div B ^ j mod B = b div B ^ j mod B) \<Longrightarrow> a = b"
proof (induction n arbitrary: a b)
  case (Suc n)
  have d: "x div B ^ Suc j = x div B div B ^ j" for x j by (simp only: power_Suc div_mult2_eq)
  have "a div B div B ^ j mod B = b div B div B ^ j mod B" if "j < n" for j
    using Suc.prems(3) [OF Suc_mono [OF that]] unfolding d .
  moreover have "a div B < B ^ n" "b div B < B ^ n"
    using Suc.prems(1,2) unfolding power_Suc2 by (auto intro: less_mult_imp_div_less)
  ultimately have "a div B = b div B" by (rule Suc.IH [rotated 2])
  moreover have "a mod B = b mod B" using Suc.prems(3) [OF zero_less_Suc] by simp
  ultimately have "a div B * B + a mod B = b div B * B + b mod B" by (rule arg_cong2 [where f = "\<lambda>x y. x * B + y"])
  then show ?case by (simp only: div_mult_mod_eq)
qed simp

lemma hex16_inj: "hex16 v = hex16 w \<longleftrightarrow> v = w"
proof
  assume h: "hex16 v = hex16 w"
  have "unat v div 16 ^ j mod 16 = unat w div 16 ^ j mod 16" if "j < 16" for j
  proof -
    have n: "hex16 x ! (15 - j) = digit_char (unat x div 16 ^ j mod 16)" for x
    proof -
      have "15 - j < length [0..<16]" "[0..<16] ! (15 - j) = 15 - j" "15 - (15 - j) = j"
        using that by (simp_all add: nth_upt del: upt_rec_numeral)
      then show ?thesis by (simp only: hex16_def nth_map)
    qed
    have "hex16 v ! (15 - j) = hex16 w ! (15 - j)" by (simp add: h)
    then have "digit_char (unat v div 16 ^ j mod 16) = digit_char (unat w div 16 ^ j mod 16)"
      unfolding n .
    then show ?thesis by (rule digit_char_inj) simp_all
  qed
  moreover have "(0 :: nat) < 16" by simp
  moreover have "unat v < 16 ^ 16" "unat w < 16 ^ 16" using unsigned_less [of v] unsigned_less [of w] by simp_all
  ultimately have "unat v = unat w" by (rule base_digits [rotated 3])
  then show "v = w" by (rule word_unat_eq_iff [THEN iffD2])
qed simp

lemma hex16_plain: "CHR '':'' \<notin> set (hex16 w)"
proof
  assume "CHR '':'' \<in> set (hex16 w)"
  then obtain n where "digit_char (n mod 16) = CHR '':''" by (auto simp: hex16_def)
  then have "of_char (digit_char (n mod 16)) = (58 :: nat)" by simp
  moreover have "n mod 16 < 16" by simp
  then have "of_char (digit_char (n mod 16)) = (if n mod 16 < 10 then 48 + n mod 16 else 87 + n mod 16)"
    by (simp add: digit_char_def)
  ultimately show False by (simp split: if_splits)
qed

section \<open>Keys\<close>

definition colons :: "str \<Rightarrow> nat" where
  "colons s = length (filter (\<lambda>c. c = CHR '':'') s)"

lemma colons_simps [simp]: "colons [] = 0" "colons (s @ t) = colons s + colons t"
  "colons (c # s) = (if c = CHR '':'' then Suc (colons s) else colons s)"
  by (simp_all add: colons_def)

lemma colons_0: "CHR '':'' \<notin> set s \<Longrightarrow> colons s = 0"
  by (induction s) auto

lemma colons_key: "plain tbl \<Longrightarrow> colons (tbl @ '':'' @ hex16 i) = 1"
  using hex16_plain by (simp add: plain_def colons_0)

lemma split_at_colon:
  assumes "s @ CHR '':'' # x = t @ CHR '':'' # y" and "CHR '':'' \<notin> set s" and "CHR '':'' \<notin> set t"
  shows "s = t \<and> x = y"
proof -
  have "takeWhile (\<lambda>c. c \<noteq> CHR '':'') (s @ CHR '':'' # x) = s" using assms(2) by (auto simp: takeWhile_tail)
  moreover have "takeWhile (\<lambda>c. c \<noteq> CHR '':'') (t @ CHR '':'' # y) = t" using assms(3) by (auto simp: takeWhile_tail)
  ultimately have "s = t" using assms(1) by simp
  with assms(1) show ?thesis by simp
qed

lemma in_table_key:
  assumes "plain tbl'"
  shows "in_table tbl (row_key tbl' i) \<longleftrightarrow> tbl = tbl'"
proof
  assume "in_table tbl (row_key tbl' i)"
  then obtain z where z: "tbl' @ CHR '':'' # hex16 i = tbl @ CHR '':'' # z"
    using assms row_key_text(1) [of tbl' i] by (auto simp: in_table_def plain_def prefix_def)
  have "colons (tbl @ CHR '':'' # z) = 1" using colons_key [OF assms, of i] z by simp
  then have "colons tbl = 0" by simp
  then have "CHR '':'' \<notin> set tbl" by (auto simp: colons_def filter_empty_conv)
  with split_at_colon [OF z] assms show "tbl = tbl'" by (simp add: plain_def)
qed (use assms row_key_text(2) in \<open>simp add: plain_def\<close>)

lemma row_key_inj:
  assumes "plain t" and "plain t'"
  shows "row_key t i = row_key t' j \<longleftrightarrow> t = t' \<and> i = j"
  using assms split_at_colon [of t "hex16 i" t' "hex16 j"]
  by (auto simp: row_key_def inj_to_bytes hex16_inj plain_def simp del: to_bytes_append)

lemma index_key_row: "plain t \<Longrightarrow> index_key tbl col val \<noteq> row_key t i"
  using colons_key [of t i]
  by (auto simp: index_key_def row_key_def inj_to_bytes simp del: to_bytes_append dest: arg_cong [where f = colons])

lemma index_key_schemas: "index_key tbl col val \<noteq> schemas_key"
  by (auto simp: index_key_def schemas_key_def inj_to_bytes simp del: to_bytes_append dest: arg_cong [where f = colons])

lemma schemas_key_row: "schemas_key \<noteq> row_key t i"
  by (auto simp: schemas_key_def row_key_def inj_to_bytes simp del: to_bytes_append dest: arg_cong [where f = colons])

lemma schemas_key_table: "\<not> in_table tbl schemas_key"
proof
  assume "in_table tbl schemas_key"
  moreover have "ascii ''__schemas__''" by (simp add: ascii_def)
  then have "from_utf8_lossy schemas_key = ''__schemas__''" unfolding schemas_key_def by (rule lossy_text)
  ultimately obtain z where "''__schemas__'' = tbl @ CHR '':'' # z" by (auto simp: in_table_def prefix_def)
  from arg_cong [OF this, of colons] show False by simp
qed

end
