(* ===== verification/Tables.thy ===== *)
theory Tables
  imports Engine_Select Row_Keys
begin

text \<open>
  What the statements mean, without storage: a database is its table definitions and, for each
  table, a map from row numbers to rows. \<open>sql_step\<close> relates the database before a statement,
  its result and the database after it; it leaves open which fresh numbers an INSERT takes and
  in which order the rows of a table are listed. CREATE INDEX and transactions are not part of
  it.
\<close>

section \<open>Databases\<close>

record database =
  definitions :: "(str \<times> table_schema) list"
  contents :: "str \<times> u64 \<Rightarrow> row option"

definition empty_database :: database where
  "empty_database = \<lparr>definitions = [], contents = \<lambda>_. None\<rparr>"

text \<open>A row as conditions and queries see it: with its key and with qualified columns.\<close>

definition row_at :: "str \<Rightarrow> u64 \<Rightarrow> row \<Rightarrow> row" where
  "row_at tbl i r = make_row tbl (tbl @ '':'' @ hex16 i) r"

definition row_numbers :: "database \<Rightarrow> str \<Rightarrow> u64 set" where
  "row_numbers db tbl = {i. contents db (tbl, i) \<noteq> None}"

definition full_row :: "database \<Rightarrow> str \<Rightarrow> u64 \<Rightarrow> row" where
  "full_row db tbl i = row_at tbl i (the (contents db (tbl, i)))"

text \<open>\<open>L\<close> lists the rows of every table, each once, in some order.\<close>

definition lists :: "database \<Rightarrow> (str \<Rightarrow> row list) \<Rightarrow> bool" where
  "lists db L \<longleftrightarrow> (\<forall>tbl. \<exists>is. distinct is \<and> set is = row_numbers db tbl \<and> L tbl = map (full_row db tbl) is)"

definition matching :: "engine_env \<Rightarrow> database \<Rightarrow> str \<Rightarrow> expr option \<Rightarrow> u64 set" where
  "matching E db tbl cond = {i \<in> row_numbers db tbl. meets E cond (full_row db tbl i)}"

section \<open>Changes\<close>

definition new_schema :: "engine_env \<Rightarrow> str \<Rightarrow> (str \<times> str list) list \<Rightarrow> table_schema" where
  "new_schema E name cols = \<lparr>schema_name = name, columns = map fst cols,
     auto_increment_col = map_option fst (find (\<lambda>c. \<exists>opt \<in> set (snd c). is_auto_increment E opt) cols),
     next_id = 1\<rparr>"

definition schema_after :: "nat \<Rightarrow> table_schema \<Rightarrow> table_schema" where
  "schema_after n sc = sc\<lparr>next_id := (id_after sc ^^ n) (next_id sc)\<rparr>"

fun row_values :: "table_schema \<Rightarrow> u64 \<Rightarrow> expr list list \<Rightarrow> row list" where
  "row_values sc nid [] = []"
| "row_values sc nid (exprs # rows) = insert_row_data sc nid exprs # row_values sc (id_after sc nid) rows"

definition add_rows :: "str \<Rightarrow> u64 list \<Rightarrow> row list \<Rightarrow> (str \<times> u64 \<Rightarrow> row option) \<Rightarrow> str \<times> u64 \<Rightarrow> row option" where
  "add_rows tbl is rs m = m ++ map_of (zip (map (Pair tbl) is) rs)"

definition set_rows :: "str \<Rightarrow> u64 set \<Rightarrow> (row \<Rightarrow> row option) \<Rightarrow> (str \<times> u64 \<Rightarrow> row option) \<Rightarrow> str \<times> u64 \<Rightarrow> row option" where
  "set_rows tbl I f m = (\<lambda>(t, i). if t = tbl \<and> i \<in> I then Option.bind (m (t, i)) f else m (t, i))"

section \<open>Queries\<close>

definition table_def :: "(str \<times> table_schema) list \<Rightarrow> str \<Rightarrow> err + table_schema" where
  "table_def m tbl = (case map_of m tbl of
     Some sc \<Rightarrow> Inr sc | None \<Rightarrow> Inl (Msg (''Table '' @ tbl @ '' not found'')))"

definition bind_result :: "err + 'a \<Rightarrow> ('a \<Rightarrow> err + 'b) \<Rightarrow> err + 'b" where
  "bind_result x f = (case x of Inl e \<Rightarrow> Inl e | Inr y \<Rightarrow> f y)"

lemma bind_result_simps [simp]: "bind_result (Inl e) f = Inl e" "bind_result (Inr x) f = f x"
  by (simp_all add: bind_result_def)

text \<open>FROM with at most one join: the rows and the columns shown.\<close>

definition from_part :: "engine_env \<Rightarrow> (str \<times> table_schema) list \<Rightarrow> (str \<Rightarrow> row list) \<Rightarrow> table_with_joins
    \<Rightarrow> err + row list \<times> str list" where
  "from_part E m L tw =
     bind_result (factor_table ''Unsupported table'' (relation tw)) (\<lambda>tbl.
     bind_result (table_def m tbl) (\<lambda>sc.
     case joins tw of
       [] \<Rightarrow> Inr (L tbl, with_prefix tbl sc)
     | (tf, jo) # _ \<Rightarrow>
         bind_result (factor_table ''Unsupported join table'' tf) (\<lambda>jt.
         bind_result (table_def m jt) (\<lambda>jsc.
         Inr (join_rows E jo (L tbl) (L jt), with_prefix tbl sc @ with_prefix jt jsc)))))"

definition query_text :: "engine_env \<Rightarrow> (str \<times> table_schema) list \<Rightarrow> (str \<Rightarrow> row list) \<Rightarrow> sql_query \<Rightarrow> err + str" where
  "query_text E m L q = (case query_body q of
       Select sel \<Rightarrow>
         bind_result (vec_get (from_tables sel) 0) (\<lambda>tw.
         bind_result (from_part E m L tw) (\<lambda>(rows, cols).
         Inr (render E sel cols (limit_rows (query_limit q) (where_rows E (selection sel) rows)))))
     | _ \<Rightarrow> Inl (Msg ''Unsupported query type''))"

section \<open>Statements\<close>

text \<open>The statements that only fail.\<close>

definition statement_error :: "(str \<times> table_schema) list \<Rightarrow> statement \<Rightarrow> err option" where
  "statement_error m st = (case st of
      Insert tbl None \<Rightarrow> Some (Msg ''Source missing'')
    | Insert tbl (Some q) \<Rightarrow>
        if map_of m tbl = None then Some (Msg ''Table not found'')
        else (case query_body q of Values rows \<Rightarrow> None | _ \<Rightarrow> Some (Msg ''Unsupported source''))
    | Update (Other_factor f) asg cond \<Rightarrow> Some (Msg ''Unsupported update target'')
    | Delete [] cond \<Rightarrow> Some Panicked
    | Delete (Other_factor f # tfs) cond \<Rightarrow> Some (Msg ''Unsupported delete target'')
    | Other_statement t \<Rightarrow> Some (Msg ''Unsupported statement'')
    | _ \<Rightarrow> None)"

inductive sql_step :: "engine_env \<Rightarrow> database \<Rightarrow> statement \<Rightarrow> err + str \<Rightarrow> database \<Rightarrow> bool" for E where
  step_create: "sql_step E db (CreateTable name cols) (Inr ''Table created'')
    (db\<lparr>definitions := AList.update name (new_schema E name cols) (definitions db)\<rparr>)"
| step_insert: "map_of (definitions db) tbl = Some sc \<Longrightarrow> query_body q = Values rows \<Longrightarrow>
    length is = length rows \<Longrightarrow> distinct is \<Longrightarrow> set is \<inter> row_numbers db tbl = {} \<Longrightarrow>
    sql_step E db (Insert tbl (Some q)) (Inr (''Inserted '' @ show_nat (length rows) @ '' rows''))
      \<lparr>definitions = AList.update tbl (schema_after (length rows) sc) (definitions db),
       contents = add_rows tbl is (row_values sc (next_id sc) rows) (contents db)\<rparr>"
| step_update: "I = matching E db tbl cond \<Longrightarrow>
    sql_step E db (Update (Table tbl) asg cond) (Inr (''Updated '' @ show_nat (card I) @ '' rows''))
      (db\<lparr>contents := set_rows tbl I (\<lambda>r. Some (assign E asg r)) (contents db)\<rparr>)"
| step_delete: "I = matching E db tbl cond \<Longrightarrow>
    sql_step E db (Delete (Table tbl # tfs) cond) (Inr (''Deleted '' @ show_nat (card I) @ '' rows''))
      (db\<lparr>contents := set_rows tbl I (\<lambda>r. None) (contents db)\<rparr>)"
| step_query: "lists db L \<Longrightarrow> sql_step E db (Query q) (query_text E (definitions db) L q) db"
| step_explain: "sql_step E db (Explain t) (Inr (explain_text t)) db"
| step_error: "statement_error (definitions db) st = Some e \<Longrightarrow> sql_step E db st (Inl e) db"

text \<open>A text stops at its first error.\<close>

inductive sql_run :: "engine_env \<Rightarrow> database \<Rightarrow> statement list \<Rightarrow> err + str list \<Rightarrow> database \<Rightarrow> bool" for E where
  run_done: "sql_run E db [] (Inr []) db"
| run_ok: "sql_step E db st (Inr r) db' \<Longrightarrow> sql_run E db' sts rs db'' \<Longrightarrow>
    sql_run E db (st # sts) (map_sum id (Cons r) rs) db''"
| run_error: "sql_step E db st (Inl e) db' \<Longrightarrow> sql_run E db (st # sts) (Inl e) db'"

inductive_cases step_createE: "sql_step E db (CreateTable name cols) r db'"
inductive_cases step_insertE: "sql_step E db (Insert tbl src) r db'"
inductive_cases step_updateE: "sql_step E db (Update tf asg cond) r db'"
inductive_cases step_deleteE: "sql_step E db (Delete tfs cond) r db'"
inductive_cases step_queryE: "sql_step E db (Query q) r db'"
inductive_cases run_nilE: "sql_run E db [] r db'"
inductive_cases run_consE: "sql_run E db (st # sts) r db'"

end
