(* ===== verification/Engine_Tables.thy ===== *)
theory Engine_Tables
  imports Tables
begin

text \<open>
  When the engine's state shows a database of \<open>Tables\<close>: as long as no row has reached the
  tree, the database is read off the memory tier, whose keys are those of rows, with the last
  record of every row. Scans list its tables, and the records that UPDATE, DELETE and INSERT
  write change it the way \<open>sql_step\<close> says.
\<close>

section \<open>Reading the database off the tier\<close>

text \<open>Bincode encodes every record, row and catalogue, and decodes what it encoded.\<close>

definition total_codec :: "engine_env \<Rightarrow> bool" where
  "total_codec E \<longleftrightarrow> record_codec E \<and> row_codec E \<and> (\<forall>r. ser_record E r \<noteq> None)
     \<and> (\<forall>r. ser_row E r \<noteq> None) \<and> (\<forall>m. ser_schemas E m \<noteq> None)"

text \<open>The row of a record that is not deleted.\<close>

definition live :: "engine_env \<Rightarrow> bytes \<Rightarrow> row option" where
  "live E d = (case de_record E d of None \<Rightarrow> None
     | Some r \<Rightarrow> if is_deleted r then None else de_row E (rec_value r))"

text \<open>No column has the name under which a scan shows the key.\<close>

definition keyless :: "row \<Rightarrow> bool" where
  "keyless r \<longleftrightarrow> ''__key__'' \<notin> fst ` set r"

text \<open>An entry whose key was made from one of the first \<open>n\<close> random numbers.\<close>

definition row_entry :: "engine_env \<Rightarrow> nat \<Rightarrow> u64 \<Rightarrow> bytes \<times> bytes \<Rightarrow> bool" where
  "row_entry E n ver kv \<longleftrightarrow> (\<exists>tbl m r row. plain tbl \<and> m < n \<and> fst kv = row_key tbl (random_id E m)
     \<and> de_record E (snd kv) = Some r \<and> version r \<le> ver \<and> de_row E (rec_value r) = Some row \<and> keyless row)"

text \<open>A tree that holds at most the record of the schemas.\<close>

definition meta_tree :: "ptree \<Rightarrow> bool" where
  "meta_tree t \<longleftrightarrow> (\<exists>p ks vs nx. t = PLeaf p ks vs nx \<and> set ks \<subseteq> {schemas_key} \<and> (\<forall>v \<in> set vs. length v \<le> 1000))"

definition schema_ok :: "str \<times> table_schema \<Rightarrow> bool" where
  "schema_ok p \<longleftrightarrow> plain (fst p) \<and> ''__key__'' \<notin> set (columns (snd p))
     \<and> auto_increment_col (snd p) \<noteq> Some ''__key__''"

definition shows_tables :: "engine_env \<Rightarrow> engine \<Rightarrow> ptree \<Rightarrow> database \<Rightarrow> bool" where
  "shows_tables E s t db \<longleftrightarrow> stored E s t \<and> meta_tree t \<and> schemas s = definitions db \<and> indices s = []
     \<and> (\<forall>p \<in> set (definitions db). schema_ok p)
     \<and> (\<forall>kv \<in> set (cached_entries s). row_entry E (ticks s) (current_version s) kv)
     \<and> (\<forall>tbl i. contents db (tbl, i) =
          (if plain tbl then Option.bind (mt_lookup (tier s) (row_key tbl i)) (live E) else None))"

section \<open>Rows of entries\<close>

lemma key_column:
  assumes "keyless r"
  shows "map_of (row_at tbl i r) ''__key__'' = Some (tbl @ '':'' @ hex16 i)"
proof -
  let ?f = "\<lambda>row (k, v). AList.update (tbl @ ''.'' @ k) v (AList.update k v row)"
  have q: "tbl @ CHR ''.'' # k \<noteq> ''__key__''" for k
  proof
    assume h: "tbl @ CHR ''.'' # k = ''__key__''"
    have "CHR ''.'' \<in> set (tbl @ CHR ''.'' # k)" by simp
    then show False unfolding h by simp
  qed
  have "keyless r \<Longrightarrow> map_of row ''__key__'' = Some v \<Longrightarrow> map_of (foldl ?f row r) ''__key__'' = Some v" for row v
    by (induction r arbitrary: row) (auto simp: keyless_def AList.update_conv' q q [symmetric])
  with assms show ?thesis by (simp add: row_at_def make_row_def)
qed

lemma entry_row:
  assumes "row_entry E n ver (k, d)" and "k = row_key tbl' i" and "plain tbl'"
  shows "row_of E tbl ver (k, d) = (if tbl = tbl' then map_option (row_at tbl i) (live E d) else None)"
    and "readable E tbl ver (k, d)"
proof -
  obtain r row where r: "de_record E d = Some r" "version r \<le> ver" "de_row E (rec_value r) = Some row"
    using assms(1) by (auto simp: row_entry_def)
  have t: "from_utf8_lossy k = tbl' @ '':'' @ hex16 i" using row_key_text [of tbl' i] assms(2,3) by (simp add: plain_def)
  have v: "visible_row E tbl ver k d = Inr (map_option (row_at tbl i) (live E d))" if "tbl = tbl'"
    using r that by (simp add: visible_row_def visible_def live_def t row_at_def)
  have in_t: "in_table tbl k \<longleftrightarrow> tbl = tbl'" using in_table_key [OF assms(3)] assms(2) by simp
  from v in_t show "row_of E tbl ver (k, d) = (if tbl = tbl' then map_option (row_at tbl i) (live E d) else None)"
    by (simp add: row_of_def)
  from v in_t show "readable E tbl ver (k, d)" by (auto simp: readable_def)
qed

lemma entry_key:
  assumes "row_entry E n ver (k, d)"
  obtains tbl i where "plain tbl" and "k = row_key tbl i"
  using assms by (auto simp: row_entry_def)

lemma entry_readable: "row_entry E n ver kv \<Longrightarrow> readable E tbl ver kv"
  by (cases kv) (metis entry_key entry_row(2))

lemma entry_key_ok:
  assumes "row_entry E n ver kv"
  shows "key_ok E tbl ver kv"
proof -
  obtain k d where kv: "kv = (k, d)" by (cases kv)
  with assms obtain tbl' i where k: "plain tbl'" "k = row_key tbl' i" by (auto elim: entry_key)
  have kl: "keyless r" if "live E d = Some r" for r
    using assms that kv by (auto simp: row_entry_def live_def split: if_splits)
  show ?thesis
    unfolding key_ok_def
  proof (intro allI impI)
    fix row assume "row_of E tbl ver kv = Some row"
    then obtain r where "live E d = Some r" "row = row_at tbl i r" "tbl = tbl'"
      using entry_row(1) [OF assms [unfolded kv] k(2,1), of tbl] kv by (auto split: if_splits)
    with key_column [OF kl] k(2) kv show "\<exists>k. map_of row ''__key__'' = Some k \<and> to_bytes_of k = fst kv"
      by (auto simp: row_key_def)
  qed
qed

lemma entries_listing:
  assumes "distinct (map fst es)" and "\<forall>kv \<in> set es. row_entry E n ver kv" and "plain tbl"
  shows "\<exists>irs. distinct (map fst irs) \<and> set irs = {(i, r). \<exists>d. (row_key tbl i, d) \<in> set es \<and> live E d = Some r}
    \<and> rows_of E tbl ver es = map (\<lambda>(i, r). row_at tbl i r) irs"
  using assms(1,2)
proof (induction es)
  case Nil
  then show ?case by (intro exI [of _ "[]"]) (simp add: List.map_filter_simps)
next
  case (Cons kv es)
  obtain k d where kv: "kv = (k, d)" by (cases kv)
  with Cons.prems obtain tbl' i where k: "plain tbl'" "k = row_key tbl' i" by (auto elim: entry_key)
  have fresh: "k \<notin> fst ` set es" using Cons.prems kv by auto
  obtain irs where irs: "distinct (map fst irs)"
    "set irs = {(i, r). \<exists>d. (row_key tbl i, d) \<in> set es \<and> live E d = Some r}"
    "rows_of E tbl ver es = map (\<lambda>(i, r). row_at tbl i r) irs"
    using Cons.IH Cons.prems by auto
  have ro: "row_of E tbl ver (k, d) = (if tbl = tbl' then map_option (row_at tbl i) (live E d) else None)"
    using Cons.prems(2) kv by (intro entry_row(1) [OF _ k(2,1)]) auto
  show ?case
  proof (cases "tbl = tbl' \<and> live E d \<noteq> None")
    case True
    then obtain r where r: "live E d = Some r" "tbl = tbl'" by auto
    have "i \<notin> fst ` set irs" using fresh irs(2) k r by force
    moreover have "set ((i, r) # irs) = {(i, r). \<exists>d. (row_key tbl i, d) \<in> set (kv # es) \<and> live E d = Some r}"
      using irs(2) k r row_key_inj [OF assms(3) assms(3)] by (auto simp: kv)
    ultimately show ?thesis
      using irs(1,3) ro r by (intro exI [of _ "(i, r) # irs"]) (simp add: kv map_filter_Cons)
  next
    case False
    then have "row_of E tbl ver (k, d) = None" using ro by auto
    moreover have "{(i, r). \<exists>d. (row_key tbl i, d) \<in> set (kv # es) \<and> live E d = Some r}
        = {(i, r). \<exists>d. (row_key tbl i, d) \<in> set es \<and> live E d = Some r}"
      using False k row_key_inj [OF assms(3) k(1)] by (auto simp: kv)
    ultimately show ?thesis using irs by (intro exI [of _ irs]) (simp add: kv map_filter_Cons)
  qed
qed

section \<open>Scans of a shown database\<close>

lemma meta_entries: "meta_tree t \<Longrightarrow> kv \<in> set (entries t) \<Longrightarrow> fst kv = schemas_key"
  by (cases kv) (auto simp: meta_tree_def dest!: set_zip_leftD)

lemma meta_row: "meta_tree t \<Longrightarrow> kv \<in> set (entries t) \<Longrightarrow> row_of E tbl ver kv = None \<and> readable E tbl ver kv"
  using schemas_key_table by (simp add: meta_entries row_of_def readable_def)

lemma all_none_rows: "\<forall>kv \<in> set es. f kv = None \<Longrightarrow> List.map_filter f es = []"
  by (induction es) (simp_all add: map_filter_Cons List.map_filter_simps)

lemma meta_rows:
  assumes "meta_tree t"
  shows "table_rows E tbl ver cs (entries t) = rows_of E tbl ver cs"
  using meta_row [OF assms] by (simp add: table_rows_def all_none_rows)

lemma shownD:
  assumes "shows_tables E s t db"
  shows "stored E s t" and "meta_tree t" and "schemas s = definitions db" and "indices s = []"
    and "\<And>p. p \<in> set (definitions db) \<Longrightarrow> schema_ok p"
    and "\<And>kv. kv \<in> set (cached_entries s) \<Longrightarrow> row_entry E (ticks s) (current_version s) kv"
    and "\<And>tbl i. contents db (tbl, i) =
      (if plain tbl then Option.bind (mt_lookup (tier s) (row_key tbl i)) (live E) else None)"
  using assms by (auto simp: shows_tables_def)

lemma cached_lookup: "stored E s t \<Longrightarrow> (k, d) \<in> set (cached_entries s) \<longleftrightarrow> mt_lookup (tier s) k = Some d"
  using stored_distinct(1) by (auto simp: mt_lookup_def dest: map_of_SomeD)

lemma tables_readable:
  assumes "shows_tables E s t db"
  shows "rows_readable E (current_version s) s t tbl"
  unfolding table_readable_def
  using entry_readable [OF shownD(6) [OF assms]] meta_row [OF shownD(2) [OF assms]] by blast

lemma tables_key_ok:
  assumes "shows_tables E s t db" and "kv \<in> set (cached_entries s) \<union> set (entries t)"
  shows "key_ok E tbl (current_version s) kv"
proof (cases "kv \<in> set (cached_entries s)")
  case True
  then show ?thesis by (rule entry_key_ok [OF shownD(6) [OF assms(1)]])
next
  case False
  with assms(2) have "row_of E tbl (current_version s) kv = None" using meta_row [OF shownD(2) [OF assms(1)]] by blast
  then show ?thesis by (simp add: key_ok_def)
qed

lemma shown_contents:
  assumes "shows_tables E s t db" and "plain tbl"
  shows "contents db (tbl, i) = Some r \<longleftrightarrow> (\<exists>d. (row_key tbl i, d) \<in> set (cached_entries s) \<and> live E d = Some r)"
  using shownD(7) [OF assms(1), of tbl i] assms(2) cached_lookup [OF shownD(1) [OF assms(1)]]
  by (auto simp: bind_eq_Some_conv)

lemma not_plain_rows:
  assumes "shows_tables E s t db" and "\<not> plain tbl"
  shows "row_numbers db tbl = {}" and "kv \<in> set (cached_entries s) \<Longrightarrow> row_of E tbl (current_version s) kv = None"
proof -
  show "row_numbers db tbl = {}" using shownD(7) [OF assms(1)] assms(2) by (simp add: row_numbers_def)
  assume kv: "kv \<in> set (cached_entries s)"
  obtain k d where p: "kv = (k, d)" by (cases kv)
  have e: "row_entry E (ticks s) (current_version s) (k, d)" using shownD(6) [OF assms(1)] kv p by simp
  then obtain tbl' i where "plain tbl'" "k = row_key tbl' i" by (rule entry_key)
  with entry_row(1) [OF e this(2,1), of tbl] assms(2) p show "row_of E tbl (current_version s) kv = None" by auto
qed

text \<open>Entries that hold the rows of a table, each under its key, list the table.\<close>

lemma rows_listed:
  assumes "distinct (map fst es)" and "\<forall>kv \<in> set es. row_entry E n ver kv"
    and c: "\<And>i r. contents db (tbl, i) = Some r \<longleftrightarrow> plain tbl \<and> (\<exists>d. (row_key tbl i, d) \<in> set es \<and> live E d = Some r)"
  shows "\<exists>is. distinct is \<and> set is = row_numbers db tbl \<and> rows_of E tbl ver es = map (full_row db tbl) is"
proof (cases "plain tbl")
  case True
  obtain irs where irs: "distinct (map fst irs)"
    "set irs = {(i, r). \<exists>d. (row_key tbl i, d) \<in> set es \<and> live E d = Some r}"
    "rows_of E tbl ver es = map (\<lambda>(i, r). row_at tbl i r) irs"
    using entries_listing [OF assms(1,2) True] by blast
  have c: "contents db (tbl, i) = Some r \<longleftrightarrow> (i, r) \<in> set irs" for i r
    using c True irs(2) by simp
  then have "set (map fst irs) = row_numbers db tbl" by (force simp: row_numbers_def)
  moreover have "rows_of E tbl ver es = map (full_row db tbl) (map fst irs)"
    unfolding irs(3) map_map by (rule map_cong [OF refl]) (auto simp: full_row_def c [symmetric])
  ultimately show ?thesis using irs(1) by blast
next
  case False
  have "row_of E tbl ver kv = None" if "kv \<in> set es" for kv
  proof -
    obtain k d where kv: "kv = (k, d)" by (cases kv)
    then have e: "row_entry E n ver (k, d)" using assms(2) that by auto
    then obtain tbl' i where "plain tbl'" "k = row_key tbl' i" by (rule entry_key)
    with entry_row(1) [OF e this(2,1), of tbl] False kv show ?thesis by auto
  qed
  moreover have "row_numbers db tbl = {}" using c False by (simp add: row_numbers_def)
  ultimately show ?thesis by (intro exI [of _ "[]"]) (simp add: all_none_rows)
qed

text \<open>A scan lists the table.\<close>

lemma tables_listed:
  assumes "shows_tables E s t db"
  shows "lists db (stored_rows E (current_version s) s t)"
  unfolding lists_def meta_rows [OF shownD(2) [OF assms]]
proof
  fix tbl
  have "contents db (tbl, i) = Some r \<longleftrightarrow> plain tbl \<and> (\<exists>d. (row_key tbl i, d) \<in> set (cached_entries s) \<and> live E d = Some r)"
    for i r
    using shown_contents [OF assms, of tbl i r] shownD(7) [OF assms, of tbl i] by (cases "plain tbl") simp_all
  with shownD(6) [OF assms] show "\<exists>is. distinct is \<and> set is = row_numbers db tbl
      \<and> rows_of E tbl (current_version s) (cached_entries s) = map (full_row db tbl) is"
    by (intro rows_listed [OF stored_distinct(1) [OF shownD(1) [OF assms]]]) blast+
qed

text \<open>The keys that a condition selects are those of the matching rows.\<close>

lemma tables_targets:
  assumes "shows_tables E s t db" and "ks = target_keys E tbl (current_version s) cond (cached_entries s) (entries t)"
  shows "set ks = row_key tbl ` matching E db tbl cond" and "length ks = card (matching E db tbl cond)"
proof -
  let ?ver = "current_version s"
  have sel: "selected E tbl ?ver cond kv \<longleftrightarrow> False" if "kv \<in> set (entries t)" for kv
    using meta_row [OF shownD(2) [OF assms(1)] that] by (simp add: selected_def)
  then have ks: "set ks = fst ` {kv \<in> set (cached_entries s). selected E tbl ?ver cond kv}"
    unfolding assms(2) target_keys_def by auto
  show set: "set ks = row_key tbl ` matching E db tbl cond"
  proof (cases "plain tbl")
    case True
    have one: "selected E tbl ?ver cond (row_key tbl i, d) \<longleftrightarrow>
        (\<exists>r. live E d = Some r \<and> meets E cond (row_at tbl i r))"
      if "(row_key tbl i, d) \<in> set (cached_entries s)" for i d
      using entry_row(1) [OF shownD(6) [OF assms(1) that] refl True, of tbl] by (auto simp: selected_def)
    show ?thesis
    proof (intro equalityI subsetI)
      fix k assume "k \<in> set ks"
      then obtain d where kd: "(k, d) \<in> set (cached_entries s)" "selected E tbl ?ver cond (k, d)"
        unfolding ks by auto
      note e = shownD(6) [OF assms(1) kd(1)]
      obtain tbl' i where k: "plain tbl'" "k = row_key tbl' i" by (rule entry_key [OF e])
      have "tbl = tbl'" using entry_row(1) [OF e k(2,1), of tbl] kd(2) by (auto simp: selected_def split: if_splits)
      with one kd k obtain r where "live E d = Some r" "meets E cond (row_at tbl i r)" by auto
      moreover from this(1) have "contents db (tbl, i) = Some r"
        using shown_contents [OF assms(1) True] kd(1) k(2) \<open>tbl = tbl'\<close> by blast
      ultimately have "i \<in> matching E db tbl cond" by (simp add: matching_def row_numbers_def full_row_def)
      with k \<open>tbl = tbl'\<close> show "k \<in> row_key tbl ` matching E db tbl cond" by simp
    next
      fix k assume "k \<in> row_key tbl ` matching E db tbl cond"
      then obtain i r where k: "k = row_key tbl i" "contents db (tbl, i) = Some r" "meets E cond (row_at tbl i r)"
        by (auto simp: matching_def row_numbers_def full_row_def)
      then obtain d where "(k, d) \<in> set (cached_entries s)" "live E d = Some r"
        using shown_contents [OF assms(1) True] by auto
      with one k show "k \<in> set ks" unfolding ks by force
    qed
  next
    case False
    then show ?thesis using not_plain_rows [OF assms(1) False] unfolding ks by (auto simp: matching_def selected_def)
  qed
  have "inj_on (row_key tbl) (matching E db tbl cond)"
    using not_plain_rows(1) [OF assms(1), of tbl] row_key_inj [of tbl tbl]
    by (cases "plain tbl") (auto simp: inj_on_def matching_def)
  moreover have "distinct ks"
    unfolding assms(2) by (rule target_keys_distinct [OF stored_distinct [OF shownD(1) [OF assms(1)]]])
  ultimately show "length ks = card (matching E db tbl cond)"
    using set by (metis card_image distinct_card)
qed

lemma tables_unindexed:
  assumes "shows_tables E s t db"
  shows "unindexed E s t tbl cond"
  unfolding unindexed_def
proof (intro allI impI)
  fix col val
  let ?k = "index_key tbl col val"
  have "(?k, d) \<notin> set (cached_entries s)" for d
  proof
    assume "(?k, d) \<in> set (cached_entries s)"
    from shownD(6) [OF assms this] obtain t' i where "plain t'" "?k = row_key t' i" by (rule entry_key)
    then show False using index_key_row by blast
  qed
  then have "mt_lookup (tier s) ?k = None"
    using cached_lookup [OF shownD(1) [OF assms]] by (metis not_Some_eq)
  moreover have "map_of (entries t) ?k = None"
    using meta_entries [OF shownD(2) [OF assms]] index_key_schemas [of tbl col val] by (force simp: map_of_eq_None_iff)
  ultimately show "current_data s t ?k = None" by (simp add: current_data_def)
qed

section \<open>The number of pages\<close>

definition same_pages :: "engine \<Rightarrow> engine \<Rightarrow> bool" where
  "same_pages s s' \<longleftrightarrow> pages (tree s') = pages (tree s)"

interpretation sp: frame_rel same_pages
  by unfold_locales (auto simp: same_pages_def)

lemma keeps_all_pages: "keeps same_all m \<Longrightarrow> keeps same_pages m"
  by (erule keeps_mono) (simp add: same_all_def same_db_def same_store_def same_pages_def page_count_def)

lemma keeps_log_pages: "keeps same_but_log m \<Longrightarrow> keeps same_pages m"
  by (erule keeps_mono) (auto simp: same_but_log_def same_pages_def)

lemma pages_tick: "keeps same_pages tick"
  by (auto simp: keeps_def tick_def same_pages_def)

lemma pages_tier_insert: "keeps same_pages (tier_insert E k v)"
  by (auto simp: keeps_def tier_insert_def same_pages_def)

lemma pages_set: "(\<And>s. tree (f s) = tree s) \<Longrightarrow> keeps same_pages (modify_st f)"
  by (rule sp.keeps_modify) (simp add: same_pages_def)

lemmas pages_intros = sp.keeps_intros sp.keeps_throw pages_tick pages_tier_insert pages_set
  keeps_log_pages [OF keeps_enqueue] keeps_log_pages [OF keeps_flush] keeps_all_pages [OF keeps_scan]
  keeps_all_pages [OF keeps_load_record]

lemma pages_put_record: "keeps same_pages (put_record E c k r)"
  unfolding put_record_def bump_version_def stage_def by (auto intro!: pages_intros split: option.split)

lemma pages_update: "keeps same_pages (handle_update E tbl asg cond c)"
  and pages_delete: "keeps same_pages (handle_delete E tbl cond c)"
  unfolding handle_update_def handle_delete_def update_row_def delete_row_def flush_outside_tx_def Let_def
  by (auto intro!: pages_intros pages_put_record)

lemma pages_insert_rows: "keeps same_pages (insert_rows E c tbl sc rows nid)"
  by (induction rows arbitrary: nid)
    (auto simp: Let_def stage_def intro!: pages_intros split: option.split prod.split)

lemma pages_insert: "keeps same_pages (handle_insert E tbl q c)"
  unfolding handle_insert_def schemas_record_def
  by (auto intro!: pages_intros pages_insert_rows split: option.split set_expr.split prod.split)

section \<open>UPDATE and DELETE\<close>

lemma row_entry_mono: "row_entry E n v kv \<Longrightarrow> n \<le> n' \<Longrightarrow> v \<le> v' \<Longrightarrow> row_entry E n' v' kv"
  unfolding row_entry_def by (meson le_trans less_le_trans order_trans)

lemma version_le:
  fixes v :: u64
  assumes "unat v + n < 2 ^ 64" and "j \<le> n"
  shows "v + of_nat j \<le> v + of_nat n" and "v \<le> v + of_nat n" and "unat (v + of_nat n) = unat v + n"
proof -
  have u: "unat (v + of_nat k) = unat v + k" if "k \<le> n" for k
    using assms(1) that by (simp add: unat_word_ariths unsigned_of_nat take_bit_nat_eq_self)
  show "v + of_nat j \<le> v + of_nat n" "v \<le> v + of_nat n"
    using u [OF assms(2)] u [of n] assms(2) by (simp_all add: word_le_nat_alt)
  show "unat (v + of_nat n) = unat v + n" using u by simp
qed

text \<open>The row that the changed record holds, or \<open>None\<close> if it is deleted.\<close>

definition changes_rows :: "engine_env \<Rightarrow> (db_record \<Rightarrow> db_record option) \<Rightarrow> (row \<Rightarrow> row option) \<Rightarrow> bool" where
  "changes_rows E change f \<longleftrightarrow> (\<forall>r r' row. change r = Some r' \<longrightarrow> \<not> is_deleted r \<longrightarrow>
     de_row E (rec_value r) = Some row \<longrightarrow> keyless row \<longrightarrow>
     (\<exists>row'. de_row E (rec_value r') = Some row' \<and> keyless row' \<and> f row = (if is_deleted r' then None else Some row')))"

lemma shown_live:
  assumes "shows_tables E s t db" and "contents db (tbl, i) = Some row"
  obtains d r where "plain tbl" and "mt_lookup (tier s) (row_key tbl i) = Some d" and "de_record E d = Some r"
    and "\<not> is_deleted r" and "de_row E (rec_value r) = Some row" and "keyless row"
    and "current_data s t (row_key tbl i) = Some d"
proof -
  have pl: "plain tbl" using shownD(7) [OF assms(1), of tbl i] assms(2) by (auto split: if_splits)
  with shown_contents [OF assms(1), of tbl i row] assms(2) obtain d where
    d: "(row_key tbl i, d) \<in> set (cached_entries s)" "live E d = Some row" by blast
  then obtain r where r: "de_record E d = Some r" "\<not> is_deleted r" "de_row E (rec_value r) = Some row"
    by (auto simp: live_def split: option.splits if_splits)
  have "mt_lookup (tier s) (row_key tbl i) = Some d"
    using d(1) cached_lookup [OF shownD(1) [OF assms(1)]] by simp
  moreover have "keyless row" using shownD(6) [OF assms(1) d(1)] r by (auto simp: row_entry_def)
  ultimately show ?thesis using that pl r by (simp add: current_data_def)
qed

text \<open>Records changed in the tier, each with a version up to the new current one, change the rows.\<close>

lemma changed_tables:
  assumes sh: "shows_tables E s t db" and st: "stored E s' t" and tk: "ticks s \<le> ticks s'"
    and ks: "set ks = row_key tbl ` matching E db tbl cond" and ch: "changes_rows E change f"
    and cv: "current_version s \<le> current_version s'" and meta: "schemas s' = schemas s" "indices s' = indices s"
    and other: "\<And>k. k \<notin> set ks \<Longrightarrow> mt_lookup (tier s') k = mt_lookup (tier s) k"
    and wr: "\<And>k. k \<in> set ks \<Longrightarrow> \<exists>d r r' b v. current_data s t k = Some d \<and> de_record E d = Some r \<and> change r = Some r'
      \<and> mt_lookup (tier s') k = Some b \<and> de_record E b = Some (r'\<lparr>version := v\<rparr>) \<and> v \<le> current_version s'"
  shows "shows_tables E s' t (db\<lparr>contents := set_rows tbl (matching E db tbl cond) f (contents db)\<rparr>)"
proof -
  let ?I = "matching E db tbl cond"
  have new: "\<exists>row b. contents db (tbl, i) = Some row \<and> plain tbl \<and> mt_lookup (tier s') (row_key tbl i) = Some b
      \<and> live E b = f row \<and> row_entry E (ticks s') (current_version s') (row_key tbl i, b)" if i: "i \<in> ?I" for i
  proof -
    obtain row where row: "contents db (tbl, i) = Some row" using i by (auto simp: matching_def row_numbers_def)
    obtain d r where d: "plain tbl" "mt_lookup (tier s) (row_key tbl i) = Some d" "de_record E d = Some r"
      "\<not> is_deleted r" "de_row E (rec_value r) = Some row" "keyless row" "current_data s t (row_key tbl i) = Some d"
      by (rule shown_live [OF sh row])
    have "row_key tbl i \<in> set ks" using ks i by simp
    with wr d(3,7) obtain r' b v where b: "change r = Some r'" "mt_lookup (tier s') (row_key tbl i) = Some b"
      "v \<le> current_version s'" "de_record E b = Some (r'\<lparr>version := v\<rparr>)"
      by fastforce
    obtain row' where row': "de_row E (rec_value r') = Some row'" "keyless row'"
      "f row = (if is_deleted r' then None else Some row')"
      using ch b(1) d(4-6) unfolding changes_rows_def by blast
    have "(row_key tbl i, d) \<in> set (cached_entries s)" using d(2) cached_lookup [OF shownD(1) [OF sh]] by simp
    from shownD(6) [OF sh this] obtain tbl' m where m: "plain tbl'" "m < ticks s" "row_key tbl i = row_key tbl' (random_id E m)"
      by (auto simp: row_entry_def)
    have "row_entry E (ticks s') (current_version s') (row_key tbl i, b)"
      unfolding row_entry_def using m tk b(3,4) row'(1,2)
      by (intro exI [of _ tbl'] exI [of _ m]) simp
    moreover have "live E b = f row" using b(4) row' by (simp add: live_def)
    ultimately show ?thesis using row d(1) b(2) by blast
  qed
  have "row_entry E (ticks s') (current_version s') kv" if "kv \<in> set (cached_entries s')" for kv
  proof -
    obtain k d where kv: "kv = (k, d)" by (cases kv)
    have l: "mt_lookup (tier s') k = Some d" using that kv cached_lookup [OF st] by simp
    show ?thesis
    proof (cases "k \<in> set ks")
      case True
      then obtain i where i: "i \<in> ?I" "k = row_key tbl i" unfolding ks by blast
      with new [OF i(1)] l kv show ?thesis by auto
    next
      case False
      then have "(k, d) \<in> set (cached_entries s)" using l other cached_lookup [OF shownD(1) [OF sh]] by simp
      from row_entry_mono [OF shownD(6) [OF sh this] tk] cv kv show ?thesis by simp
    qed
  qed
  moreover have "set_rows tbl ?I f (contents db) (tbl', i)
      = (if plain tbl' then Option.bind (mt_lookup (tier s') (row_key tbl' i)) (live E) else None)" for tbl' i
  proof (cases "tbl' = tbl \<and> i \<in> ?I")
    case True
    then show ?thesis using new by (force simp: set_rows_def)
  next
    case False
    have "row_key tbl' i \<notin> set ks" if "plain tbl'"
    proof
      assume "row_key tbl' i \<in> set ks"
      then obtain j where j: "j \<in> ?I" "row_key tbl' i = row_key tbl j" unfolding ks by blast
      moreover have "plain tbl" using new [OF j(1)] by blast
      ultimately show False using row_key_inj [OF that] False by auto
    qed
    with False show ?thesis using shownD(7) [OF sh, of tbl' i] other by (auto simp: set_rows_def)
  qed
  ultimately show ?thesis
    using sh st meta by (simp add: shows_tables_def)
qed

lemma written_tables:
  assumes sh: "shows_tables E s t db" and st: "stored E s' t" and wr: "written E change s t ks s'"
    and tk: "ticks s \<le> ticks s'" and ks: "set ks = row_key tbl ` matching E db tbl cond"
    and v: "unat (current_version s) + length ks < 2 ^ 64" and ch: "changes_rows E change f"
  shows "shows_tables E s' t (db\<lparr>contents := set_rows tbl (matching E db tbl cond) f (contents db)\<rparr>)"
proof (rule changed_tables [OF sh st tk ks ch])
  have cv: "current_version s' = current_version s + of_nat (length ks)" using wr by (simp add: written_def)
  then show "current_version s \<le> current_version s'" using version_le(2) [OF v le_refl] by simp
  show "\<exists>d r r' b v. current_data s t k = Some d \<and> de_record E d = Some r \<and> change r = Some r'
      \<and> mt_lookup (tier s') k = Some b \<and> de_record E b = Some (r'\<lparr>version := v\<rparr>) \<and> v \<le> current_version s'"
    if k: "k \<in> set ks" for k
  proof -
    from wr k obtain d r r' b j where "current_data s t k = Some d" "de_record E d = Some r" "change r = Some r'"
      "mt_lookup (tier s') k = Some b" "j \<in> {1..length ks}"
      "de_record E b = Some (r'\<lparr>version := current_version s + of_nat j\<rparr>)"
      unfolding written_def by blast
    with version_le(1) [OF v, of j] cv show ?thesis by auto
  qed
qed (use wr in \<open>auto simp: written_def\<close>)

text \<open>The resources that are left: random numbers below \<open>T\<close>, versions, queue, tier and page numbers.\<close>

definition has_room :: "nat \<Rightarrow> nat \<Rightarrow> engine \<Rightarrow> bool" where
  "has_room T n s \<longleftrightarrow> ticks s + 4 * n \<le> T \<and> unat (current_version s) + n < 2 ^ 64 \<and> n \<le> log_room s
     \<and> room_for n (tier s) \<and> pages (tree s) \<le> 2 ^ 32"

lemma has_room_less: "has_room T n s \<Longrightarrow> k \<le> n \<Longrightarrow> has_room T k s"
  by (auto simp: has_room_def elim: room_mono)

lemma has_room_spent:
  assumes "has_room T (n + k) s" and "spent k s s'" and "unat (current_version s') \<le> unat (current_version s) + k"
    and "pages (tree s') = pages (tree s)"
  shows "has_room T n s'"
proof -
  have "mt_max_bytes (tier s') = mt_max_bytes (tier s)" using assms(2) by (simp add: spent_def mt_max_bytes_def)
  with assms show ?thesis by (auto simp: has_room_def spent_def room_for_def)
qed

lemma shown_ready:
  assumes "total_codec E" and "shows_tables E s t db" and "tx_of c s = None"
    and "has_room T (card (matching E db tbl cond)) s"
    and "\<And>r row. de_row E (rec_value r) = Some row \<Longrightarrow> change r \<noteq> None"
    and "ks = target_keys E tbl (current_version s) cond (cached_entries s) (entries t)"
  shows "ready_to_write E c tbl cond change s t ks"
proof -
  have len: "length ks = card (matching E db tbl cond)" by (rule tables_targets(2) [OF assms(2,6)])
  have "\<exists>r'. change r = Some r' \<and> writable E r'"
    if k: "k \<in> set ks" and d: "current_data s t k = Some d" and r: "de_record E d = Some r" for k d r
  proof -
    obtain i where i: "k = row_key tbl i" "i \<in> matching E db tbl cond"
      using k tables_targets(1) [OF assms(2,6)] by blast
    then obtain row where row: "contents db (tbl, i) = Some row" by (auto simp: matching_def row_numbers_def)
    obtain d' r' where "de_record E d' = Some r'" "de_row E (rec_value r') = Some row"
      "current_data s t (row_key tbl i) = Some d'"
      by (rule shown_live [OF assms(2) row])
    with d r i(1) have "de_row E (rec_value r) = Some row" by simp
    then obtain r' where "change r = Some r'" using assms(5) by blast
    with assms(1) show ?thesis by (auto simp: total_codec_def writable_def)
  qed
  moreover have "record_codec E" using assms(1) by (simp add: total_codec_def)
  moreover have "length ks \<le> log_room s" "room_for (length ks) (tier s)"
    using assms(4) len by (simp_all add: has_room_def)
  ultimately show ?thesis
    unfolding ready_to_write_def
    using assms(3,6) shownD(1) [OF assms(2)] tables_readable [OF assms(2)] tables_key_ok [OF assms(2)]
      tables_unindexed [OF assms(2)] by blast
qed

end
