(* ===== verification/Engine_Refines.thy ===== *)
theory Engine_Refines
  imports Engine_Tables
begin

text \<open>
  The engine implements \<open>Tables\<close>: every statement outside a transaction, run on a state that
  shows a database, returns what \<open>sql_step\<close> allows and leaves a state that shows the changed
  database.
\<close>

section \<open>UPDATE and DELETE\<close>

text \<open>What every statement leaves behind.\<close>

definition left_with :: "engine_env \<Rightarrow> nat \<Rightarrow> nat \<Rightarrow> engine \<Rightarrow> engine \<Rightarrow> database \<Rightarrow> bool" where
  "left_with E T n s s' db \<longleftrightarrow> (\<exists>t. shows_tables E s' t db) \<and> has_room T n s'
     \<and> active_transactions s' = active_transactions s \<and> ticks s \<le> ticks s'"

lemma written_left:
  assumes "shows_tables E s t db" and "stored E s' t" and "written E change s t ks s'" and "spent (length ks) s s'"
    and "ks = target_keys E tbl (current_version s) cond (cached_entries s) (entries t)"
    and "has_room T (n + card (matching E db tbl cond)) s" and "changes_rows E change f"
    and "same_pages s s'"
  shows "left_with E T n s s' (db\<lparr>contents := set_rows tbl (matching E db tbl cond) f (contents db)\<rparr>)"
proof -
  note ks = tables_targets [OF assms(1,5)]
  have v: "unat (current_version s) + length ks < 2 ^ 64" using assms(6) ks(2) by (simp add: has_room_def)
  have tk: "ticks s \<le> ticks s'" using assms(4) by (simp add: spent_def)
  have "unat (current_version s') = unat (current_version s) + length ks"
    using assms(3) version_le(3) [OF v le_refl] by (simp add: written_def)
  then have "has_room T n s'" using has_room_spent [OF assms(6)] assms(4,8) ks(2) by (simp add: same_pages_def)
  moreover have "active_transactions s' = active_transactions s" using assms(3) by (simp add: written_def)
  ultimately show ?thesis
    using written_tables [OF assms(1-3) tk ks(1) v assms(7)] tk unfolding left_with_def by blast
qed

lemma assign_keyless: "''__key__'' \<notin> fst ` set asg \<Longrightarrow> keyless row \<Longrightarrow> keyless (assign E asg row)"
proof (induction asg arbitrary: row)
  case (Cons a asg)
  obtain col e where a: "a = (col, e)" by (cases a)
  have "keyless (AList.update col v row)" for v using Cons.prems by (simp add: a keyless_def AList.dom_update)
  with Cons.IH [of "AList.update col (unquote (show_expr E e)) row"] Cons.prems(1) show ?case
    by (simp add: a assign_def)
qed (simp add: assign_def)

lemma changes_updated:
  assumes "total_codec E" and "''__key__'' \<notin> fst ` set asg"
  shows "changes_rows E (updated_record E asg ver) (\<lambda>r. Some (assign E asg r))"
  unfolding changes_rows_def
proof (intro allI impI)
  fix r r' row
  assume u: "updated_record E asg ver r = Some r'" and d: "\<not> is_deleted r" and row: "de_row E (rec_value r) = Some row"
    and k: "keyless row"
  obtain val where val: "ser_row E (assign E asg row) = Some val" "r' = r\<lparr>rec_value := val, version := ver + 1\<rparr>"
    using u row by (auto simp: updated_record_def)
  with assms(1) d assign_keyless [OF assms(2) k, of E]
  show "\<exists>row'. de_row E (rec_value r') = Some row' \<and> keyless row'
      \<and> Some (assign E asg row) = (if is_deleted r' then None else Some row')"
    by (simp add: total_codec_def row_codec_def)
qed

lemma changes_deleted: "changes_rows E (deleted_record ver) (\<lambda>r. None)"
  by (auto simp: changes_rows_def deleted_record_def)

lemma update_refines:
  assumes "total_codec E" and "shows_tables E s t db" and "tx_of c s = None"
    and "has_room T (n + card (matching E db tbl cond)) s" and "''__key__'' \<notin> fst ` set asg"
  shows "\<exists>s'. handle_update E tbl asg cond c s
      = Some (Inr (''Updated '' @ show_nat (card (matching E db tbl cond)) @ '' rows''), s')
    \<and> left_with E T n s s'
        (db\<lparr>contents := set_rows tbl (matching E db tbl cond) (\<lambda>r. Some (assign E asg r)) (contents db)\<rparr>)"
proof -
  let ?ch = "updated_record E asg (current_version s)"
  let ?ks = "target_keys E tbl (current_version s) cond (cached_entries s) (entries t)"
  have "?ch r \<noteq> None" if "de_row E (rec_value r) = Some row" for r row
    using assms(1) that by (auto simp: updated_record_def total_codec_def)
  then have "ready_to_write E c tbl cond ?ch s t ?ks"
    by (intro shown_ready [OF assms(1-3) has_room_less [OF assms(4)]]) auto
  from handle_update_ok [OF this] obtain s' where
    s': "handle_update E tbl asg cond c s = Some (Inr (''Updated '' @ show_nat (length ?ks) @ '' rows''), s')"
    "stored E s' t" "written E ?ch s t ?ks s'" "spent (length ?ks) s s'" by blast
  from written_left [OF assms(2) s'(2-4) refl assms(4) changes_updated [OF assms(1,5)]
      keepsD [OF pages_update s'(1)]] s'(1)
    tables_targets(2) [OF assms(2) refl] show ?thesis by metis
qed

lemma delete_refines:
  assumes "total_codec E" and "shows_tables E s t db" and "tx_of c s = None"
    and "has_room T (n + card (matching E db tbl cond)) s"
  shows "\<exists>s'. handle_delete E tbl cond c s
      = Some (Inr (''Deleted '' @ show_nat (card (matching E db tbl cond)) @ '' rows''), s')
    \<and> left_with E T n s s' (db\<lparr>contents := set_rows tbl (matching E db tbl cond) (\<lambda>r. None) (contents db)\<rparr>)"
proof -
  let ?ch = "deleted_record (current_version s)"
  let ?ks = "target_keys E tbl (current_version s) cond (cached_entries s) (entries t)"
  have "ready_to_write E c tbl cond ?ch s t ?ks"
    by (intro shown_ready [OF assms(1-3) has_room_less [OF assms(4)]]) (auto simp: deleted_record_def)
  from handle_delete_ok [OF this] obtain s' where
    s': "handle_delete E tbl cond c s = Some (Inr (''Deleted '' @ show_nat (length ?ks) @ '' rows''), s')"
    "stored E s' t" "written E ?ch s t ?ks s'" "spent (length ?ks) s s'" by blast
  from written_left [OF assms(2) s'(2-4) refl assms(4) changes_deleted keepsD [OF pages_delete s'(1)]] s'(1)
    tables_targets(2) [OF assms(2) refl] show ?thesis by metis
qed

section \<open>INSERT\<close>

text \<open>The row numbers of an INSERT: every third reading, as each row takes three.\<close>

definition drawn :: "engine_env \<Rightarrow> nat \<Rightarrow> nat \<Rightarrow> u64 list" where
  "drawn E n k = map (\<lambda>j. random_id E (n + 3 * j)) [0..<k]"

lemma drawn_simps [simp]: "drawn E n 0 = []" "length (drawn E n k) = k"
  "j < k \<Longrightarrow> drawn E n k ! j = random_id E (n + 3 * j)"
  by (simp_all add: drawn_def)

lemma drawn_Suc: "drawn E n (Suc k) = random_id E n # drawn E (Suc (Suc (Suc n))) k"
proof -
  have e: "n + (3 + 3 * j) = Suc (Suc (Suc (n + 3 * j)))" for j by simp
  show ?thesis by (simp add: drawn_def e upt_conv_Cons map_Suc_upt [symmetric] comp_def del: upt_Suc)
qed

lemma total_codecD:
  assumes "total_codec E"
  shows "\<exists>b. ser_row E row = Some b" and "\<exists>b. ser_record E r = Some b" and "\<exists>b. ser_schemas E m = Some b"
  using assms by (auto simp: total_codec_def)

lemma inserted_total:
  assumes "total_codec E"
  shows "\<exists>ds. inserted E tbl sc ver rows nid n = Some (zip (map (row_key tbl) (drawn E n (length rows))) ds)
    \<and> length ds = length rows
    \<and> list_all2 (\<lambda>d row. \<exists>r. de_record E d = Some r \<and> version r = ver \<and> \<not> is_deleted r
        \<and> de_row E (rec_value r) = Some row) ds (row_values sc nid rows)"
proof (induction rows arbitrary: nid n)
  case (Cons exprs rows)
  let ?row = "insert_row_data sc nid exprs"
  obtain v where v: "ser_row E ?row = Some v" using total_codecD(1) [OF assms] by blast
  let ?r = "\<lparr>rec_value = v, version = ver, is_deleted = False, timestamp = clock_seconds E (Suc n)\<rparr>"
  obtain b where b: "ser_record E ?r = Some b" using total_codecD(2) [OF assms] by blast
  have "de_record E b = Some ?r" "de_row E v = Some ?row"
    using assms v b by (simp_all add: total_codec_def record_codec_def row_codec_def)
  moreover obtain ds where ds: "inserted E tbl sc ver rows (id_after sc nid) (Suc (Suc (Suc n)))
      = Some (zip (map (row_key tbl) (drawn E (Suc (Suc (Suc n))) (length rows))) ds)" "length ds = length rows"
    "list_all2 (\<lambda>d row. \<exists>r. de_record E d = Some r \<and> version r = ver \<and> \<not> is_deleted r
        \<and> de_row E (rec_value r) = Some row) ds (row_values sc (id_after sc nid) rows)"
    using Cons.IH by blast
  ultimately show ?case
    by (intro exI [of _ "b # ds"]) (simp add: v b drawn_Suc)
qed simp

lemma drawn_fresh:
  assumes "inj_on (random_id E) {..<T}" and "n + 4 * k \<le> T"
  shows "distinct (drawn E n k)" and "m < n \<Longrightarrow> random_id E m \<notin> set (drawn E n k)"
    and "i \<in> set (drawn E n k) \<Longrightarrow> \<exists>m < n + 3 * k. i = random_id E m"
proof -
  have *: "n + 3 * j < T" if "j < k" for j using that assms(2) by linarith
  have "j = l" if "j < k" "l < k" "random_id E (n + 3 * j) = random_id E (n + 3 * l)" for j l
    using inj_onD [OF assms(1) that(3)] * [OF that(1)] * [OF that(2)] by simp
  then show "distinct (drawn E n k)" by (auto simp: drawn_def distinct_map inj_on_def)
  show "random_id E m \<notin> set (drawn E n k)" if m: "m < n"
  proof
    assume "random_id E m \<in> set (drawn E n k)"
    then obtain j where j: "j < k" "random_id E m = random_id E (n + 3 * j)" by (auto simp: drawn_def)
    have "m = n + 3 * j" by (rule inj_onD [OF assms(1) j(2)]) (use * [OF j(1)] m in auto)
    with m show False by simp
  qed
  show "\<exists>m < n + 3 * k. i = random_id E m" if "i \<in> set (drawn E n k)"
  proof -
    from that obtain j where "j < k" "i = random_id E (n + 3 * j)" by (auto simp: drawn_def)
    then show ?thesis by (intro exI [of _ "n + 3 * j"]) simp
  qed
qed

lemma row_data_keyless:
  assumes "schema_ok (tbl, sc)"
  shows "keyless (insert_row_data sc nid exprs)"
proof -
  let ?f = "\<lambda>off row (i, e). let col_idx = i + off in
      if col_idx < length (columns sc) then AList.update (columns sc ! col_idx) (insert_value e) row else row"
  have step: "keyless (foldl (?f off) row ies)" if "keyless row" for off row ies
    using that
  proof (induction ies arbitrary: row)
    case (Cons ie ies)
    obtain i e where ie: "ie = (i, e)" by (cases ie)
    have "columns sc ! (i + off) \<noteq> ''__key__''" if "i + off < length (columns sc)"
      using nth_mem [OF that] assms by (auto simp: schema_ok_def)
    then have "keyless (?f off row ie)" using Cons.prems by (auto simp: ie keyless_def AList.dom_update Let_def)
    then show ?case using Cons.IH by simp
  qed simp
  show ?thesis
  proof (cases "auto_increment_col sc")
    case None
    have "keyless []" by (simp add: keyless_def)
    from step [OF this, of 0] None show ?thesis by (simp add: insert_row_data_def)
  next
    case (Some a)
    with assms have "keyless [(a, show_nat (unat nid))]" by (auto simp: schema_ok_def keyless_def)
    from step [OF this, of 1] Some show ?thesis by (simp add: insert_row_data_def)
  qed
qed

lemma row_values_keyless: "schema_ok (tbl, sc) \<Longrightarrow> row \<in> set (row_values sc nid rows) \<Longrightarrow> keyless row"
  by (induction rows arbitrary: nid) (auto simp: row_data_keyless)

lemma length_row_values [simp]: "length (row_values sc nid rows) = length rows"
  by (induction rows arbitrary: nid) auto

lemma shown_number:
  assumes "shows_tables E s t db" and "plain tbl" and "(row_key tbl i, d) \<in> set (cached_entries s)"
  shows "\<exists>m < ticks s. i = random_id E m"
proof -
  obtain tbl' m where "plain tbl'" "m < ticks s" "row_key tbl i = row_key tbl' (random_id E m)"
    using shownD(6) [OF assms(1,3)] by (auto simp: row_entry_def)
  with row_key_inj [OF assms(2)] show ?thesis by blast
qed

text \<open>What the tier holds after the new entries were added.\<close>

lemma added_contents:
  assumes pl: "plain tbl" and new: "length is = length rs" "length ds = length rs" "distinct is"
    and ds: "\<And>j. j < length rs \<Longrightarrow> live E (ds ! j) = Some (rs ! j)"
    and fresh: "\<And>i. i \<in> set is \<Longrightarrow> map_of cs (row_key tbl i) = None"
    and old: "\<And>t i. m (t, i) = (if plain t then Option.bind (map_of cs (row_key t i)) (live E) else None)"
  shows "add_rows tbl is rs m (t, i) =
    (if plain t then Option.bind (map_of (cs @ zip (map (row_key tbl) is) ds) (row_key t i)) (live E) else None)"
proof (cases "t = tbl \<and> i \<in> set is")
  case True
  then obtain j where j: "j < length is" "i = is ! j" by (metis in_set_conv_nth)
  have inj: "inj (Pair tbl)" "inj_on (row_key tbl) (set is)"
    using row_key_inj [OF pl pl] by (auto simp: inj_on_def)
  have "map_of (zip (map (Pair tbl) is) rs) (map (Pair tbl) is ! j) = Some (rs ! j)"
    using j new inj(1) by (intro map_of_zip_nth) (simp_all add: distinct_map inj_on_def)
  moreover have "map_of (zip (map (row_key tbl) is) ds) (map (row_key tbl) is ! j) = Some (ds ! j)"
    using j new inj(2) by (intro map_of_zip_nth) (simp_all add: distinct_map)
  ultimately show ?thesis
    using True j pl ds [of j] new fresh by (simp add: add_rows_def map_add_def)
next
  case False
  have "map_of (zip (map (Pair tbl) is) rs) (t, i) = None"
    using False by (auto simp: map_of_eq_None_iff dest: set_zip_leftD)
  moreover have "map_of (zip (map (row_key tbl) is) ds) (row_key t i) = None" if "plain t"
    using False row_key_inj [OF that pl] by (auto simp: map_of_eq_None_iff dest!: set_zip_leftD)
  ultimately show ?thesis using old [of t i] by (simp add: add_rows_def map_add_def split: option.split)
qed

lemma insert_refines:
  assumes tc: "total_codec E" and sh: "shows_tables E s t db" and tx: "tx_of c s = None"
    and rm: "has_room T (n + Suc (length rows)) s" and ids: "inj_on (random_id E) {..<T}"
    and sc: "map_of (definitions db) tbl = Some sc" and q: "query_body q = Values rows"
  shows "\<exists>is s'. length is = length rows \<and> distinct is \<and> set is \<inter> row_numbers db tbl = {}
    \<and> handle_insert E tbl q c s = Some (Inr (''Inserted '' @ show_nat (length rows) @ '' rows''), s')
    \<and> left_with E T n s s' \<lparr>definitions = AList.update tbl (schema_after (length rows) sc) (definitions db),
        contents = add_rows tbl is (row_values sc (next_id sc) rows) (contents db)\<rparr>"
proof -
  let ?k = "length rows" and ?ver = "current_version s"
  let ?is = "drawn E (ticks s) ?k" and ?rs = "row_values sc (next_id sc) rows"
  note st = shownD(1) [OF sh]
  have "(tbl, sc) \<in> set (definitions db)" using sc by (rule map_of_SomeD)
  then have ok: "schema_ok (tbl, sc)" by (rule shownD(5) [OF sh])
  then have pl: "plain tbl" by (simp add: schema_ok_def)
  obtain ds where ins: "inserted E tbl sc ?ver rows (next_id sc) (ticks s) = Some (zip (map (row_key tbl) ?is) ds)"
    and len: "length ds = ?k"
    and ds: "list_all2 (\<lambda>d row. \<exists>r. de_record E d = Some r \<and> version r = ?ver \<and> \<not> is_deleted r
        \<and> de_row E (rec_value r) = Some row) ds ?rs"
    using inserted_total [OF tc] by blast
  let ?kvs = "zip (map (row_key tbl) ?is) ds"
  have "ticks s + 4 * ?k \<le> T" using rm by (simp add: has_room_def)
  note fr = drawn_fresh [OF ids this]
  have old: "(row_key tbl i, d) \<notin> set (cached_entries s)" if "i \<in> set ?is" for i d
    using shown_number [OF sh pl] fr(2) that by blast
  have keys: "map fst ?kvs = map (row_key tbl) ?is" using len by (simp add: map_fst_zip)
  have "inj_on (row_key tbl) (set ?is)" using row_key_inj [OF pl pl] by (simp add: inj_on_def)
  with fr(1) have dist: "distinct (map fst ?kvs)" 
    unfolding keys by (rule distinct_map [THEN iffD2, OF conjI])
  have disj: "fst ` set ?kvs \<inter> fst ` set (cached_entries s) = {}"
  proof -
    have "set (map fst ?kvs) = set (map (row_key tbl) ?is)" by (simp only: keys)
    then have "fst ` set ?kvs = row_key tbl ` set ?is" by simp
    with old show ?thesis by force
  qed
  have "?k * Suc (length (indices s)) < log_room s" "room_for ?k (tier s)"
    using rm shownD(4) [OF sh] by (auto simp: has_room_def elim: room_mono)
  moreover have "schemas_writable E s tbl (sc\<lparr>next_id := (id_after sc ^^ ?k) (next_id sc)\<rparr>)"
    unfolding schemas_writable_def using total_codecD(2,3) [OF tc] by blast
  ultimately obtain s' where s': "handle_insert E tbl q c s = Some (Inr (''Inserted '' @ show_nat ?k @ '' rows''), s')"
    "stored E s' t" "cached_entries s' = cached_entries s @ ?kvs" "current_version s' = ?ver"
    "schemas s' = AList.update tbl (schema_after ?k sc) (schemas s)" "indices s' = indices s"
    "active_transactions s' = active_transactions s" "spent (Suc (?k * Suc (length (indices s)))) s s'"
    "ticks s + 3 * ?k \<le> ticks s'"
    using handle_insert_ok [OF st tx sc [folded shownD(3) [OF sh]] q ins _ _ _ dist disj]
    unfolding schema_after_def by blast
  have row: "\<exists>r. de_record E (ds ! j) = Some r \<and> version r = ?ver \<and> \<not> is_deleted r
      \<and> de_row E (rec_value r) = Some (?rs ! j) \<and> keyless (?rs ! j)" if "j < ?k" for j
    using list_all2_nthD [OF ds, of j] row_values_keyless [OF ok nth_mem, of j "next_id sc" rows] that len by auto
  have new: "row_entry E (ticks s') (current_version s') kv" if "kv \<in> set ?kvs" for kv
  proof -
    from that obtain j where j: "j < ?k" "kv = (row_key tbl (?is ! j), ds ! j)"
      using len by (auto simp: in_set_zip)
    have "?is ! j = random_id E (ticks s + 3 * j)" "ticks s + 3 * j < ticks s'" using j(1) s'(9) by simp_all
    with row [OF j(1)] j(2) s'(4) pl show ?thesis
      unfolding row_entry_def by (intro exI [of _ tbl] exI [of _ "ticks s + 3 * j"]) auto
  qed
  have tk: "ticks s \<le> ticks s'" using s'(9) by simp
  let ?db = "\<lparr>definitions = AList.update tbl (schema_after ?k sc) (definitions db),
      contents = add_rows tbl ?is ?rs (contents db)\<rparr>"
  have "shows_tables E s' t ?db"
    unfolding shows_tables_def
  proof (intro conjI allI ballI)
    show "stored E s' t" "meta_tree t" using s'(2) shownD(2) [OF sh] by simp_all
    show "schemas s' = definitions ?db" "indices s' = []" using s'(5,6) shownD(3,4) [OF sh] by simp_all
    show "schema_ok p" if "p \<in> set (definitions ?db)" for p
    proof -
      have "p = (tbl, schema_after ?k sc) \<or> p \<in> set (definitions db)"
        using subsetD [OF update_in that [unfolded database.select_convs]] by blast
      moreover have "schema_ok (tbl, schema_after ?k sc)" using ok by (simp add: schema_after_def schema_ok_def)
      ultimately show ?thesis using shownD(5) [OF sh] by blast
    qed
    show "row_entry E (ticks s') (current_version s') kv" if "kv \<in> set (cached_entries s')" for kv
    proof (cases "kv \<in> set ?kvs")
      case False
      with that s'(3) have "kv \<in> set (cached_entries s)" by simp
      from row_entry_mono [OF shownD(6) [OF sh this] tk] s'(4) show ?thesis by simp
    qed (rule new)
    show "contents ?db (tbl', i)
        = (if plain tbl' then Option.bind (mt_lookup (tier s') (row_key tbl' i)) (live E) else None)" for tbl' i
      unfolding mt_lookup_def s'(3) database.select_convs
    proof (rule added_contents [OF pl])
      show "live E (ds ! j) = Some (?rs ! j)" if "j < length ?rs" for j using row [of j] that by (auto simp: live_def)
      show "map_of (cached_entries s) (row_key tbl i) = None" if "i \<in> set ?is" for i
        using old [OF that] by (force simp: map_of_eq_None_iff)
      show "contents db (t', i) = (if plain t' then Option.bind (map_of (cached_entries s) (row_key t' i)) (live E) else None)"
        for t' i using shownD(7) [OF sh, of t' i] by (simp add: mt_lookup_def)
    qed (use fr(1) len in simp_all)
  qed
  moreover have "has_room T n s'"
    using s'(8) shownD(4) [OF sh] s'(4) keepsD [OF pages_insert s'(1)]
    by (intro has_room_spent [OF rm]) (simp_all add: same_pages_def)
  moreover have "set ?is \<inter> row_numbers db tbl = {}"
    using old shown_contents [OF sh pl] by (fastforce simp: row_numbers_def)
  ultimately show ?thesis using s'(1,7) fr(1) tk unfolding left_with_def by (intro exI [of _ ?is] exI [of _ s']) auto
qed

section \<open>CREATE TABLE\<close>

text \<open>The record of the catalogue fits the root leaf.\<close>

definition catalogue_fits :: "engine_env \<Rightarrow> (str \<times> table_schema) list \<Rightarrow> bool" where
  "catalogue_fits E m \<longleftrightarrow> (\<forall>sb ver n rb. ser_schemas E m = Some sb \<longrightarrow>
     ser_record E \<lparr>rec_value = sb, version = ver, is_deleted = False, timestamp = clock_seconds E n\<rparr> = Some rb \<longrightarrow> length rb \<le> 1000)"

lemma meta_leaf:
  assumes "meta_tree t" and "okt t None None"
  obtains p nx where "t = PLeaf p [] [] nx" | p v nx where "t = PLeaf p [schemas_key] [v] nx" and "length v \<le> 1000"
proof -
  obtain p ks vs nx where t: "t = PLeaf p ks vs nx" "set ks \<subseteq> {schemas_key}" "\<forall>v \<in> set vs. length v \<le> 1000"
    using assms(1) by (auto simp: meta_tree_def)
  have ok: "distinct ks" "length vs = length ks" using assms(2) t(1) by (auto simp: strict_sorted_iff)
  show ?thesis
  proof (cases ks)
    case Nil
    with t ok that(1) show ?thesis by simp
  next
    case (Cons k ks')
    with t(2) ok(1) have "k = schemas_key" "ks' = []" by (auto simp: subset_singleton_iff)
    moreover from this obtain v where "vs = [v]" using ok(2) Cons by (auto simp: length_Suc_conv)
    ultimately show ?thesis using t Cons that(2) by simp
  qed
qed

lemma length_schemas_key: "length schemas_key = 11"
  by (simp add: schemas_key_def)

lemma meta_insert:
  assumes "node_codec B" and "meta_tree t" and "okt t None None" and "length val \<le> 1000"
  obtains t' where "clean_root (is_full B) schemas_key n t" and "pt_insert (is_full B) schemas_key val n t = (t', n)"
    and "fits_tree t'" and "meta_tree t'" and "height t = 0"
proof -
  have nf: "\<not> is_full B (node_of (PLeaf p ks vs nx))" if "node_size (node_of (PLeaf p ks vs nx)) \<le> 3072" for p ks vs nx
    using full_size [OF assms(1)] that by (meson not_le)
  have bs: "binary_search [k] k = Inr 0" for k :: bytes
    by (simp add: binary_search_sorted rank_def)
  show ?thesis
    using assms(2,3)
  proof (cases rule: meta_leaf)
    case (1 p nx)
    let ?t = "PLeaf p [schemas_key] [val] nx"
    have "\<not> is_full B (node_of t)"
      unfolding 1 by (rule nf) (simp add: leaf_size del: node_of.simps split: option.split)
    then have "clean_root (is_full B) schemas_key n t" "pt_insert (is_full B) schemas_key val n t = (?t, n)"
      by (simp_all add: 1 clean_root_def pt_insert_def ins_at_def)
    moreover have "fits_tree ?t"
      using assms(4) length_schemas_key
      by (simp add: fits_def leaf_size PAGE_SIZE_def del: node_of.simps split: option.split)
    moreover have "meta_tree ?t" using assms(4) by (simp add: meta_tree_def)
    ultimately show ?thesis by (rule that) (simp add: 1)
  next
    case (2 p v nx)
    let ?t = "PLeaf p [schemas_key] [val] nx"
    have "\<not> is_full B (node_of t)"
      unfolding 2 by (rule nf) (use 2 length_schemas_key in \<open>simp add: leaf_size del: node_of.simps split: option.split\<close>)
    then have "clean_root (is_full B) schemas_key n t" "pt_insert (is_full B) schemas_key val n t = (?t, n)"
      by (simp_all add: 2 clean_root_def pt_insert_def bs)
    moreover have "fits_tree ?t"
      using assms(4) length_schemas_key
      by (simp add: fits_def leaf_size PAGE_SIZE_def del: node_of.simps split: option.split)
    moreover have "meta_tree ?t" using assms(4) by (simp add: meta_tree_def)
    ultimately show ?thesis by (rule that) (simp add: 2)
  qed
qed

lemma create_refines:
  assumes tc: "total_codec E" and sh: "shows_tables E s t db" and rm: "has_room T (n + 8) s"
    and ok: "schema_ok (name, new_schema E name cols)"
    and fit: "catalogue_fits E (AList.update name (new_schema E name cols) (definitions db))"
  shows "\<exists>s'. create_table E name cols s = Some (Inr ''Table created'', s')
    \<and> left_with E T n s s' (db\<lparr>definitions := AList.update name (new_schema E name cols) (definitions db)\<rparr>)"
proof -
  let ?m = "AList.update name (new_schema E name cols) (definitions db)"
  obtain sb where sb: "ser_schemas E ?m = Some sb" using total_codecD(3) [OF tc] by blast
  obtain rb where rb: "ser_record E \<lparr>rec_value = sb, version = current_version s, is_deleted = False,
      timestamp = clock_seconds E (ticks s)\<rparr> = Some rb"
    using total_codecD(2) [OF tc] by blast
  have len: "length rb \<le> 1000" using fit sb rb unfolding catalogue_fits_def by blast
  let ?s = "ticks_update Suc (s\<lparr>schemas := ?m\<rparr>)"
  obtain p0 where rep: "tree_rep (benv E) p0 (tree s) t" using shownD(1) [OF sh] by (auto simp: stored_def)
  then have B: "node_codec (benv E)" "okt t None None" by (auto simp: tree_rep_def binv_def)
  obtain t' where t': "clean_root (is_full (benv E)) schemas_key (pages (tree s)) t"
    "pt_insert (is_full (benv E)) schemas_key rb (pages (tree s)) t = (t', pages (tree s))"
    "fits_tree t'" "meta_tree t'" "height t = 0"
    by (rule meta_insert [OF B(1) shownD(2) [OF sh] B(2) len])
  have "insert_room t \<le> log_room s" "pages (tree s) \<le> 2 ^ 32"
    using rm t'(5) by (simp_all add: insert_room_def has_room_def)
  from insert_full_sim [OF rep t'(1-3) this(2,1)] obtain b where
    b: "bt_insert (benv E) schemas_key rb (tree s) = Some (Inr (), b)" "tree_rep (benv E) p0 b t'"
    "pages b = pages (tree s)" "log_room s - insert_room t \<le> room b" "frame_of b = frame_of (tree s)" by blast
  let ?s' = "?s\<lparr>tree := b\<rparr>"
  have mt: "memory_tier b = tier s" using b(5) by (simp add: frame_of_def)
  have run: "create_table E name cols s = Some (Inr ''Table created'', ?s')"
    using sb rb b(1) shownD(3) [OF sh]
    by (simp add: create_table_def new_schema_def Let_def schemas_record_def seq_assoc zoom_Some seq_Inr)
  have "stored E ?s' t'"
    using shownD(1) [OF sh] b(2) mt insert_chain [of t "is_full (benv E)" schemas_key rb "pages (tree s)"] t'(2)
    by (auto simp: stored_def)
  moreover have "schema_ok q" if "q \<in> set ?m" for q
    using subsetD [OF update_in that] ok shownD(5) [OF sh] by blast
  moreover have "row_entry E (Suc (ticks s)) (current_version s) kv" if "kv \<in> set (cached_entries s)" for kv
    by (rule row_entry_mono [OF shownD(6) [OF sh that]]) simp_all
  ultimately have "shows_tables E ?s' t' (db\<lparr>definitions := ?m\<rparr>)"
    using t'(4) shownD(4,7) [OF sh] mt by (simp add: shows_tables_def)
  moreover have "spent 8 s ?s'"
    using b(4) t'(5) mt by (simp add: spent_def insert_room_def)
  then have "has_room T n ?s'" using b(3) by (intro has_room_spent [OF rm]) simp_all
  ultimately show ?thesis using run unfolding left_with_def by (intro exI [of _ ?s']) auto
qed

end
