(* ===== verification/Engine_Database.thy ===== *)
theory Engine_Database
  imports Engine_Refines
begin

text \<open>
  Whole statements and texts on a shown database: queries, the dispatch with its retries, and
  the statements of a text one after the other, as \<open>sql_run\<close> says.
\<close>

section \<open>Queries\<close>

lemma same_all_left:
  assumes "shows_tables E s t db" and "stored E s' t" and "same_all s s'" and "has_room T n s"
  shows "left_with E T n s s' db"
proof -
  have "schemas s' = schemas s" "indices s' = indices s" "current_version s' = current_version s"
    "cached_entries s' = cached_entries s" "ticks s' = ticks s" "log_room s' = log_room s"
    "pages (tree s') = pages (tree s)"
    using assms(3) by (simp_all add: same_all_def same_db_def same_store_def room_def page_count_def)
  moreover have "mt_lookup (tier s') = mt_lookup (tier s)" by (rule same_all_lookup [OF assms(3)])
  moreover have "room_for n (tier s') = room_for n (tier s)" by (rule same_all_room [OF assms(3)])
  moreover have "active_transactions s' = active_transactions s" using assms(3) by (simp add: same_all_def)
  ultimately show ?thesis
    using assms(1,2,4) unfolding left_with_def shows_tables_def has_room_def by auto
qed

text \<open>On a stored database a query returns the text of the tables that a scan lists, or the error.\<close>

lemma query_ok:
  assumes st: "stored E s t" and un: "\<And>tbl cond. unindexed E s t tbl cond"
    and rd: "\<And>tbl. rows_readable E (read_version c s) s t tbl"
  shows "\<exists>s'. handle_query E q c s = Some (query_text E (schemas s) (stored_rows E (read_version c s) s t) q, s')
    \<and> stored E s' t \<and> same_all s s'"
proof (cases "query_body q")
  case (Select sel)
  let ?v = "read_version c s" and ?m = "schemas s"
  let ?L = "stored_rows E ?v s t"
  show ?thesis
  proof (cases "from_tables sel")
    case Nil
    then show ?thesis
      using st by (intro exI [of _ s]) (simp add: handle_query_def query_text_def Select vec_get_def seq_def al.refl)
  next
    case (Cons tw rest)
    show ?thesis
    proof (cases "relation tw")
      case (Other_factor f)
      then show ?thesis
        using st by (intro exI [of _ s])
          (simp add: handle_query_def query_text_def from_part_def Select Cons vec_get_def factor_table_def seq_def al.refl)
    next
      case (Table tbl)
      show ?thesis
      proof (cases "map_of ?m tbl")
        case None
        then show ?thesis
          using st by (intro exI [of _ s])
            (simp add: handle_query_def query_text_def from_part_def table_def_def get_schema_def Select Cons Table
              vec_get_def factor_table_def seq_def al.refl)
      next
        case (Some sc)
        obtain s1 where s1: "scan_table_with_filter E tbl ?v (selection sel) s = Some (Inr (?L tbl), s1)"
          "stored E s1 t" "same_all s s1"
          by (rule filtered_scan_ok [OF st un rd])
        note eq = same_all_simps [OF s1(3)]
        have out: "query_text E ?m ?L q = bind_result (from_part E ?m ?L tw) (\<lambda>(rows, cols).
            Inr (render E sel cols (limit_rows (query_limit q) (where_rows E (selection sel) rows))))"
          by (simp add: query_text_def Select Cons)
        obtain s2 where s2: "join_step E ?v tw (?L tbl) (with_prefix tbl sc) s1 = Some (from_part E ?m ?L tw, s2)"
          "stored E s2 t" "same_all s1 s2"
        proof (cases "joins tw")
          case Nil
          then show ?thesis
            using s1(2) by (intro that [of s1])
              (simp_all add: join_step_def from_part_def Table Some factor_table_def table_def_def al.refl)
        next
          case (Cons j js)
          obtain tf jo where j: "j = (tf, jo)" by (cases j)
          show ?thesis
          proof (cases "\<exists>jt jsc. tf = Table jt \<and> map_of ?m jt = Some jsc")
            case True
            then obtain jt jsc where jt: "tf = Table jt" "map_of ?m jt = Some jsc" by blast
            obtain s2 where s2: "scan_table E jt ?v s1 = Some (Inr (?L jt), s2)" "stored E s2 t" "same_all s1 s2"
              using table_scan_sim [OF s1(2), of jt ?v] rd [of jt] unfolding eq by metis
            show ?thesis
              by (rule that [OF _ s2(2,3)])
                (simp add: join_step_def from_part_def Table Some Cons j jt(1) factor_table_def table_def_def
                  seq_schema [OF jt(2) [folded eq(2)]] seq_Inr [where m = "scan_table E jt ?v"] s2(1) jt(2))
          next
            case False
            then show ?thesis
              using s1(2) Some by (intro that [of s1]) (cases tf; simp add: join_step_def from_part_def Table Cons j
                factor_table_def table_def_def get_schema_def eq seq_def al.refl split: option.split)+
          qed
        qed
        have "handle_query E q c s = Some (query_text E ?m ?L q, s2)"
          unfolding handle_query_steps [OF Select Cons Table Some] out
          by (rule trans [OF seq_Inr], rule s1(1), cases "from_part E ?m ?L tw") (auto simp: seq_def s2(1))
        with s2(2) al.trans [OF s1(3) s2(3)] show ?thesis by blast
      qed
    qed
  qed
qed (use st in \<open>auto simp: handle_query_def query_text_def al.refl\<close>)

lemma query_refines:
  assumes "shows_tables E s t db" and "tx_of c s = None" and "has_room T n s"
  shows "\<exists>r s'. handle_query E q c s = Some (r, s') \<and> sql_step E db (Query q) r db \<and> left_with E T n s s' db"
proof -
  have v: "read_version c s = current_version s" using assms(2) by (simp add: read_version_def)
  from query_ok [OF shownD(1) [OF assms(1)] tables_unindexed [OF assms(1)], of c q]
  obtain s' where s': "handle_query E q c s
      = Some (query_text E (definitions db) (stored_rows E (current_version s) s t) q, s')"
    "stored E s' t" "same_all s s'"
    using tables_readable [OF assms(1)] unfolding v shownD(3) [OF assms(1)] by blast
  with step_query [OF tables_listed [OF assms(1)]] same_all_left [OF assms(1) s'(2,3) assms(3)]
  show ?thesis by blast
qed

section \<open>Statements\<close>

text \<open>
  What is asked of a statement: it does not print like a CALL, names no column \<open>__key__\<close>, and a
  new table has a plain name and a catalogue that fits.
\<close>

definition plain_statement :: "engine_env \<Rightarrow> (str \<times> table_schema) list \<Rightarrow> statement \<Rightarrow> bool" where
  "plain_statement E m st \<longleftrightarrow> \<not> prefix ''CALL'' (show_statement E st) \<and> (case st of
      CreateIndex name tbl cols \<Rightarrow> False
    | CreateTable name cols \<Rightarrow> schema_ok (name, new_schema E name cols)
        \<and> catalogue_fits E (AList.update name (new_schema E name cols) m)
    | Update tf asg cond \<Rightarrow> ''__key__'' \<notin> fst ` set asg
    | _ \<Rightarrow> True)"

text \<open>Rows added, and entries written when there are \<open>m\<close> rows.\<close>

definition added_rows :: "statement \<Rightarrow> nat" where
  "added_rows st = (case st of
      Insert tbl (Some q) \<Rightarrow> (case query_body q of Values rows \<Rightarrow> length rows | _ \<Rightarrow> 0) | _ \<Rightarrow> 0)"

definition writes :: "nat \<Rightarrow> statement \<Rightarrow> nat" where
  "writes m st = (case st of
      CreateTable name cols \<Rightarrow> 8
    | Insert tbl src \<Rightarrow> Suc (added_rows st)
    | Update tf asg cond \<Rightarrow> m
    | Delete tfs cond \<Rightarrow> m
    | _ \<Rightarrow> 0)"

lemma execute_dispatch:
  "\<not> prefix ''CALL'' (show_statement E st) \<Longrightarrow> execute_statement E st c = dispatch E st c"
  by (simp add: execute_statement_def Let_def)

lemma error_refines:
  assumes "statement_error (schemas s) st = Some e"
  shows "dispatch E st c s = Some (Inl e, s)"
  using assms
  by (auto simp: statement_error_def dispatch_def handle_insert_def factor_table_def vec_get_def seq_def
      split: statement.splits option.splits set_expr.splits table_factor.splits list.splits if_splits)

lemma contents_finite:
  assumes "shows_tables E s t db"
  shows "finite (dom (contents db))"
proof -
  have "\<exists>kv \<in> set (cached_entries s). fst kv = row_key tbl i \<and> plain tbl" if "contents db (tbl, i) = Some r" for tbl i r
  proof -
    have "plain tbl" using shownD(7) [OF assms, of tbl i] that by (auto split: if_splits)
    with shown_contents [OF assms] that show ?thesis by force
  qed
  then have "(\<lambda>(t, i). row_key t i) ` dom (contents db) \<subseteq> fst ` set (cached_entries s)"
    and pl: "\<And>x. x \<in> dom (contents db) \<Longrightarrow> plain (fst x)"
    by force+
  moreover have "inj_on (\<lambda>(t, i). row_key t i) (dom (contents db))"
  proof (rule inj_onI)
    fix x y assume "x \<in> dom (contents db)" "y \<in> dom (contents db)"
      and "(case x of (t, i) \<Rightarrow> row_key t i) = (case y of (t, i) \<Rightarrow> row_key t i)"
    then show "x = y" using row_key_inj [OF pl [of x] pl [of y], of "snd x" "snd y"]
      by (simp add: case_prod_beta prod_eq_iff)
  qed
  ultimately show ?thesis by (meson finite_imageD finite_imageI finite_set finite_subset)
qed

lemma matching_card:
  assumes "finite (dom (contents db))"
  shows "card (matching E db tbl cond) \<le> card (dom (contents db))"
proof -
  have "Pair tbl ` matching E db tbl cond \<subseteq> dom (contents db)" by (auto simp: matching_def row_numbers_def)
  then have "card (Pair tbl ` matching E db tbl cond) \<le> card (dom (contents db))" by (rule card_mono [OF assms])
  then show ?thesis by (simp add: card_image inj_on_def)
qed

text \<open>Runs of the statement from states with the database return, and what they do.\<close>

definition refined :: "engine_env \<Rightarrow> nat \<Rightarrow> nat \<Rightarrow> (engine, str) act \<Rightarrow> statement \<Rightarrow> engine \<Rightarrow> database \<Rightarrow> bool" where
  "refined E T n m st s db \<longleftrightarrow> (\<exists>r s' db'. m s = Some (r, s') \<and> sql_step E db st r db' \<and> left_with E T n s s' db'
     \<and> (isl r \<longrightarrow> db' = db \<and> left_with E T (n + writes (card (dom (contents db))) st) s s' db))"

lemma refinedI:
  "m s = Some (Inr x, s') \<Longrightarrow> sql_step E db st (Inr x) db' \<Longrightarrow> left_with E T n s s' db' \<Longrightarrow> refined E T n m st s db"
  by (auto simp: refined_def)

lemma left_same: "shows_tables E s t db \<Longrightarrow> has_room T n s \<Longrightarrow> left_with E T n s s db"
  by (auto simp: left_with_def)

lemma left_less: "left_with E T (n + k) s s' db \<Longrightarrow> left_with E T n s s' db"
  by (auto simp: left_with_def elim: has_room_less)

lemma statement_refines:
  assumes tc: "total_codec E" and ids: "inj_on (random_id E) {..<T}" and sh: "shows_tables E s t db"
    and tx: "tx_of c s = None" and rm: "has_room T (n + writes (card (dom (contents db))) st) s"
    and ps: "plain_statement E (definitions db) st"
  shows "refined E T n (execute_statement E st c) st s db"
proof -
  have ex: "execute_statement E st c = dispatch E st c"
    using ps by (intro execute_dispatch) (simp add: plain_statement_def)
  have mc: "card (matching E db tbl cond) \<le> card (dom (contents db))" for tbl cond
    by (rule matching_card [OF contents_finite [OF sh]])
  show ?thesis
  proof (cases "statement_error (definitions db) st")
    case (Some e)
    then have "dispatch E st c s = Some (Inl e, s)" using shownD(3) [OF sh] by (intro error_refines) simp
    with step_error [OF Some] left_same [OF sh rm] show ?thesis
      unfolding refined_def ex using left_less by fastforce
  next
    case None
    show ?thesis
    proof (cases st)
      case (CreateTable name cols)
      with ps rm create_refines [OF tc sh, of T n name cols] step_create [where E = E and db = db and name = name and cols = cols] show ?thesis
        unfolding ex by (auto simp: plain_statement_def writes_def dispatch_def intro: refinedI)
    next
      case (Insert tbl src)
      with None obtain q sc rows where q: "src = Some q" "map_of (definitions db) tbl = Some sc" "query_body q = Values rows"
        by (auto simp: statement_error_def split: option.splits if_splits set_expr.splits)
      with rm Insert have "has_room T (n + Suc (length rows)) s" by (simp add: writes_def added_rows_def)
      from insert_refines [OF tc sh tx this ids q(2,3)] step_insert [OF q(2,3)] show ?thesis
        unfolding ex using Insert q(1) by (auto simp: dispatch_def intro: refinedI)
    next
      case (Update tf asg cond)
      with None obtain tbl where tf: "tf = Table tbl" by (auto simp: statement_error_def split: table_factor.splits)
      have "has_room T (n + card (matching E db tbl cond)) s"
        using rm mc [of tbl cond] Update by (auto simp: writes_def elim: has_room_less)
      from update_refines [OF tc sh tx this, of asg] step_update [OF refl, where E = E and db = db and tbl = tbl and cond = cond and asg = asg] ps Update tf show ?thesis
        unfolding ex by (auto simp: plain_statement_def dispatch_def factor_table_def intro: refinedI)
    next
      case (Delete tfs cond)
      with None obtain tbl rest where tf: "tfs = Table tbl # rest"
        by (auto simp: statement_error_def split: list.splits table_factor.splits)
      have "has_room T (n + card (matching E db tbl cond)) s"
        using rm mc [of tbl cond] Delete by (auto simp: writes_def elim: has_room_less)
      from delete_refines [OF tc sh tx this] step_delete [OF refl, where E = E and db = db and tbl = tbl and cond = cond and tfs = rest] Delete tf show ?thesis
        unfolding ex by (auto simp: dispatch_def factor_table_def vec_get_def intro: refinedI)
    next
      case (Query q)
      with rm have "has_room T n s" by (simp add: writes_def)
      from query_refines [OF sh tx this, of q] Query show ?thesis
        unfolding ex refined_def by (auto simp: dispatch_def writes_def)
    next
      case (Explain x)
      with rm have "has_room T n s" by (simp add: writes_def)
      from left_same [OF sh this] step_explain [of E db x] Explain show ?thesis
        unfolding ex by (auto simp: dispatch_def intro: refinedI)
    qed (use ps None in \<open>auto simp: plain_statement_def statement_error_def\<close>)
  qed
qed

lemma left_trans:
  "left_with E T k s s1 db1 \<Longrightarrow> left_with E T n s1 s2 db2 \<Longrightarrow> left_with E T n s s2 db2"
  by (auto simp: left_with_def)

lemma run_statement_refines:
  assumes tc: "total_codec E" and ids: "inj_on (random_id E) {..<T}" and ps: "plain_statement E (definitions db) st"
  shows "shows_tables E s t db \<Longrightarrow> tx_of c s = None \<Longrightarrow>
    has_room T (n + writes (card (dom (contents db))) st) s \<Longrightarrow> refined E T n (run_statement E st c k) st s db"
proof (induction "5 - k" arbitrary: k s t rule: less_induct)
  case less
  from statement_refines [OF tc ids less.prems ps] obtain r s1 db1 where
    s1: "execute_statement E st c s = Some (r, s1)" "sql_step E db st r db1" "left_with E T n s s1 db1"
    and err: "isl r \<Longrightarrow> db1 = db \<and> left_with E T (n + writes (card (dom (contents db))) st) s s1 db"
    unfolding refined_def by blast
  show ?case
  proof (cases "\<exists>e. r = Inl e \<and> e \<noteq> Panicked \<and> contains (message E e) ''conflict'' \<and> k < 5")
    case True
    then obtain e where e: "r = Inl e" "e \<noteq> Panicked" "contains (message E e) ''conflict''" "k < 5" by blast
    from err e(1) have l: "left_with E T (n + writes (card (dom (contents db))) st) s s1 db" by simp
    then obtain t1 where t1: "shows_tables E s1 t1 db" "has_room T (n + writes (card (dom (contents db))) st) s1"
      "tx_of c s1 = None"
      using less.prems(2) by (auto simp: left_with_def tx_of_def)
    have "5 - Suc k < 5 - k" using e(4) by simp
    from less.hyps [OF this t1(1,3,2)] have "refined E T n (run_statement E st c (Suc k)) st s1 db" .
    then obtain r2 s2 db2 where s2: "run_statement E st c (Suc k) s1 = Some (r2, s2)" "sql_step E db st r2 db2"
      "left_with E T n s1 s2 db2"
      "isl r2 \<longrightarrow> db2 = db \<and> left_with E T (n + writes (card (dom (contents db))) st) s1 s2 db"
      unfolding refined_def by blast
    have "run_statement E st c k s = Some (r2, s2)"
      using s1(1) s2(1) e by (subst run_statement.simps) simp
    with s2(2) left_trans [OF l s2(3)] left_trans [OF l] s2(4) show ?thesis unfolding refined_def by blast
  next
    case False
    then have "run_statement E st c k s = Some (r, s1)"
      using s1(1) by (subst run_statement.simps) (auto split: sum.split)
    with s1(2,3) err show ?thesis unfolding refined_def by blast
  qed
qed

section \<open>Texts\<close>

text \<open>The table definitions after a statement.\<close>

definition definitions_after :: "engine_env \<Rightarrow> (str \<times> table_schema) list \<Rightarrow> statement \<Rightarrow> (str \<times> table_schema) list" where
  "definitions_after E m st = (case st of
      CreateTable name cols \<Rightarrow> AList.update name (new_schema E name cols) m
    | Insert tbl (Some q) \<Rightarrow> (case (map_of m tbl, query_body q) of
        (Some sc, Values rows) \<Rightarrow> AList.update tbl (schema_after (length rows) sc) m | _ \<Rightarrow> m)
    | _ \<Rightarrow> m)"

fun plain_statements :: "engine_env \<Rightarrow> (str \<times> table_schema) list \<Rightarrow> statement list \<Rightarrow> bool" where
  "plain_statements E m [] \<longleftrightarrow> True"
| "plain_statements E m (st # sts) \<longleftrightarrow> plain_statement E m st \<and> plain_statements E (definitions_after E m st) sts"

fun work :: "nat \<Rightarrow> statement list \<Rightarrow> nat" where
  "work m [] = 0"
| "work m (st # sts) = writes m st + work (m + added_rows st) sts"

lemma error_definitions: "statement_error m st = Some e \<Longrightarrow> definitions_after E m st = m"
  by (auto simp: statement_error_def definitions_after_def
      split: statement.splits option.splits set_expr.splits if_splits)

lemma step_definitions: "sql_step E db st r db' \<Longrightarrow> definitions db' = definitions_after E (definitions db) st"
  by (erule sql_step.cases) (simp_all add: error_definitions, simp_all add: definitions_after_def)

lemma dom_add_rows: "dom (add_rows tbl is rs m) \<subseteq> dom m \<union> Pair tbl ` set is"
  by (auto simp: add_rows_def dest!: map_of_SomeD set_zip_leftD)

lemma card_add_rows:
  assumes "finite (dom m)" and "length is = k"
  shows "card (dom (add_rows tbl is rs m)) \<le> card (dom m) + k"
proof -
  have "card (dom (add_rows tbl is rs m)) \<le> card (dom m \<union> Pair tbl ` set is)"
    using assms(1) by (intro card_mono dom_add_rows) simp
  also have "\<dots> \<le> card (dom m) + card (Pair tbl ` set is)" by (rule card_Un_le)
  also have "card (Pair tbl ` set is) \<le> k"
    using card_image_le [of "set is" "Pair tbl"] card_length [of "is"] assms(2) by simp
  finally show ?thesis by simp
qed

lemma card_set_rows: "finite (dom m) \<Longrightarrow> card (dom (set_rows tbl I f m)) \<le> card (dom m)"
  by (rule card_mono) (auto simp: set_rows_def bind_eq_Some_conv split: if_splits)

lemma step_card:
  assumes "sql_step E db st r db'" and "finite (dom (contents db))"
  shows "card (dom (contents db')) \<le> card (dom (contents db)) + added_rows st"
  using assms
proof (cases rule: sql_step.cases)
  case (step_insert tbl sc q rows "is")
  then show ?thesis using card_add_rows [OF assms(2), of "is"] by (simp add: added_rows_def)
next
  case (step_update I tbl cond asg)
  then show ?thesis using card_set_rows [OF assms(2)] by (simp add: trans_le_add1)
next
  case (step_delete I tbl cond tfs)
  then show ?thesis using card_set_rows [OF assms(2)] by (simp add: trans_le_add1)
qed simp_all

lemma writes_mono: "m \<le> m' \<Longrightarrow> writes m st \<le> writes m' st"
  by (auto simp: writes_def split: statement.split)

lemma work_mono: "m \<le> m' \<Longrightarrow> work m sts \<le> work m' sts"
  by (induction sts arbitrary: m m') (auto intro!: add_mono writes_mono)

lemma statements_refine:
  assumes tc: "total_codec E" and ids: "inj_on (random_id E) {..<T}"
  shows "shows_tables E s t db \<Longrightarrow> tx_of c s = None \<Longrightarrow> card (dom (contents db)) \<le> m \<Longrightarrow>
    has_room T (n + work m sts) s \<Longrightarrow> plain_statements E (definitions db) sts \<Longrightarrow>
    \<exists>r s' db'. run_statements E sts c s = Some (r, s') \<and> sql_run E db sts r db' \<and> left_with E T n s s' db'"
proof (induction sts arbitrary: s t db m)
  case Nil
  then show ?case using left_same run_done by fastforce
next
  case (Cons st sts)
  let ?w = "work (m + added_rows st) sts"
  have "n + ?w + writes (card (dom (contents db))) st \<le> n + work m (st # sts)"
    using writes_mono [OF Cons.prems(3), of st] by simp
  then have rm: "has_room T (n + ?w + writes (card (dom (contents db))) st) s" by (rule has_room_less [OF Cons.prems(4)])
  have ps: "plain_statement E (definitions db) st" using Cons.prems(5) by simp
  from run_statement_refines [OF tc ids ps Cons.prems(1,2) rm, of 0] obtain r s1 db1 where
    s1: "run_statement E st c 0 s = Some (r, s1)" "sql_step E db st r db1" "left_with E T (n + ?w) s s1 db1"
    unfolding refined_def by blast
  show ?case
  proof (cases r)
    case (Inl e)
    then have "run_statements E (st # sts) c s = Some (Inl e, s1)" using s1(1) by (simp add: seq_Inl)
    with s1(2) Inl left_less [OF s1(3)] run_error show ?thesis by blast
  next
    case (Inr x)
    from s1(3) obtain t1 where t1: "shows_tables E s1 t1 db1" "has_room T (n + ?w) s1" "tx_of c s1 = None"
      using Cons.prems(2) by (auto simp: left_with_def tx_of_def)
    have "card (dom (contents db1)) \<le> m + added_rows st"
      using step_card [OF s1(2) contents_finite [OF Cons.prems(1)]] Cons.prems(3) by linarith
    moreover have "plain_statements E (definitions db1) sts"
      using Cons.prems(5) step_definitions [OF s1(2)] by simp
    ultimately obtain rs s2 db2 where s2: "run_statements E sts c s1 = Some (rs, s2)" "sql_run E db1 sts rs db2"
      "left_with E T n s1 s2 db2"
      using Cons.IH [OF t1(1,3) _ t1(2)] by blast
    have "run_statements E (st # sts) c s = Some (map_sum id (Cons x) rs, s2)"
      using s1(1) s2(1) Inr by (cases rs) (simp_all add: seq_def)
    with run_ok [OF s1(2) [unfolded Inr] s2(2)] left_trans [OF s1(3) s2(3)] show ?thesis by blast
  qed
qed

end
