(* ===== verification/Engine_Fresh.thy ===== *)
theory Engine_Fresh
  imports Engine_Database Restart
begin

text \<open>
  An engine opened on missing files shows the empty database, with room for a million entries;
  texts sent to it mean what their statements mean.
\<close>

section \<open>A new engine\<close>

lemma engine_open_shows:
  assumes "posix (penv (benv E))" and "node_codec (benv E)" and "4000000 \<le> T"
  obtains s t where "engine_open E clock boots [] None = Some (Inr (), s)" and "shows_tables E s t empty_database"
    and "has_room T 1000000 s" and "active_transactions s = []"
proof -
  have "whole_file []" by (simp add: whole_file_def PAGE_SIZE_def)
  moreover have "num_pages (if boots then pager_boot (pager_open []) else pager_open []) = 0"
    by (simp add: num_pages_def pager_open_def pager_boot_def)
  ultimately obtain b where b: "bt_open (benv E) clock boots [] None (mt_new 1024) = Some (Inr (), b)"
    "memory_tier b = mt_new 1024" "tree_rep (benv E) (bt_pager b) b empty_tree" "queue (bt_wal b) = []"
    "pages b = max (length ([] :: bytes) div PAGE_SIZE) 1"
    using open_empty [OF assms(1,2), of "[]" boots clock "mt_new 1024"] by blast
  let ?e = "fresh_engine b"
  have st: "stored E ?e empty_tree" using b(2,3) by (auto simp: stored_def chain_ok_def)
  have cd: "current_data ?e empty_tree k = None" for k by (simp add: current_data_def b(2))
  obtain s1 where s1: "load_meta E schemas_key ?e = Some (Inr None, s1)" "stored E s1 empty_tree" "same_all ?e s1"
    using load_meta_ok [OF st, of schemas_key] cd by auto
  have "current_data s1 empty_tree k = None" for k using same_all_data [OF s1(3)] cd by simp
  then obtain s where s: "load_meta E version_key s1 = Some (Inr None, s)" "stored E s empty_tree" "same_all s1 s"
    using load_meta_ok [OF s1(2), of version_key] by auto
  have al: "same_all ?e s" using s1(3) s(3) by (rule al.trans)
  have "engine_new E ?e = Some (Inr (), s)" using s1(1) s(1) by (simp add: engine_new_def seq_Inr)
  then have "engine_open E clock boots [] None = Some (Inr (), s)" using b(1) by (simp add: engine_open_def)
  moreover have "shows_tables E ?e empty_tree empty_database"
    using st b(2) by (simp add: shows_tables_def meta_tree_def empty_database_def mt_new_def mt_lookup_def)
  moreover have "has_room T 1000000 ?e"
    using assms(3) b(2,4,5)
    by (simp add: has_room_def room_def QUEUE_CAP_def room_for_def mt_new_def mt_max_bytes_def)
  ultimately have "left_with E T 1000000 ?e s empty_database"
    by (intro same_all_left [OF _ s(2) al])
  with \<open>engine_open E clock boots [] None = Some (Inr (), s)\<close> show ?thesis
    using that al unfolding left_with_def same_all_def by auto
qed

section \<open>Texts\<close>

text \<open>Texts that \<open>execute\<close> passes to the parser.\<close>

definition to_parser :: "engine_env \<Rightarrow> str \<Rightarrow> bool" where
  "to_parser E sql \<longleftrightarrow> (let u = to_upper E (trim sql) in
     u \<noteq> ''FLUSH'' \<and> \<not> prefix ''SEARCH'' u \<and> u \<noteq> ''BEGIN'' \<and> u \<noteq> ''BEGIN TRANSACTION''
     \<and> u \<noteq> ''COMMIT'' \<and> u \<noteq> ''ROLLBACK'')"

definition blanks :: str where
  "blanks = [CHR 0x09, CHR 0x0A, CHR 0x0B, CHR 0x0C, CHR 0x0D, CHR 0x20]"

lemma white_ascii: "\<forall>w \<in> set white_space. (\<exists>c \<in> set blanks. w = [c]) \<or> (\<exists>c \<in> set w. 128 \<le> (of_char c :: nat))"
  by code_simp

lemma trimmedI:
  assumes "ascii s" and "s \<noteq> []" and "hd s \<notin> set blanks" and "last s \<notin> set blanks"
  shows "trimmed s"
  unfolding trimmed_def
proof
  fix w assume "w \<in> set white_space"
  with white_ascii have "(\<exists>c \<in> set blanks. w = [c]) \<or> (\<exists>c \<in> set w. 128 \<le> (of_char c :: nat))" by (rule bspec)
  then show "\<not> prefix w s \<and> \<not> suffix w s"
  proof
    assume "\<exists>c \<in> set blanks. w = [c]"
    with assms(2-4) show ?thesis by (auto simp: prefix_def suffix_def)
  next
    assume "\<exists>c \<in> set w. 128 \<le> (of_char c :: nat)"
    then obtain c where "c \<in> set w" "\<not> (of_char c :: nat) < 128" by auto
    with assms(1) show ?thesis by (auto simp: prefix_def suffix_def ascii_def)
  qed
qed

lemma to_parserI:
  assumes "ascii sql" and "sql \<noteq> []" and "hd sql \<notin> set blanks" and "last sql \<notin> set blanks"
    and "map ascii_upper (take 3 sql) \<notin> {''FLU'', ''SEA'', ''BEG'', ''COM'', ''ROL''}"
  shows "to_parser E sql"
proof -
  have "to_upper E (trim sql) = map ascii_upper sql"
    using assms(1) trim_id [OF trimmedI [OF assms(1-4)]] by (simp add: to_uppercase_def ascii_def)
  then have "take 3 (to_upper E (trim sql)) = map ascii_upper (take 3 sql)" by (simp add: take_map)
  with assms(5) show ?thesis by (auto simp: to_parser_def Let_def prefix_def)
qed

lemma execute_parsed:
  assumes "to_parser E sql" and "parse_sql E sql = Inr sts" and "run_statements E sts c s = Some (r, s')"
  shows "execute E sql c s = Some (map_sum id (join [CHR 0x0A]) r, s')"
  using assms by (cases r) (simp_all add: execute_def to_parser_def Let_def seq_def)

text \<open>One text with one statement.\<close>

lemma run_single: "sql_run E db [st] r db' \<Longrightarrow> \<exists>x. sql_step E db st x db' \<and> r = map_sum id (\<lambda>t. [t]) x"
  by (erule run_consE) (fastforce elim: run_nilE)+

lemma execute_one:
  assumes tc: "total_codec E" and ids: "inj_on (random_id E) {..<T}" and sh: "shows_tables E s t db"
    and tx: "tx_of c s = None" and rm: "has_room T (n + writes (card (dom (contents db))) st) s"
    and ps: "plain_statement E (definitions db) st" and sql: "to_parser E sql" "parse_sql E sql = Inr [st]"
  obtains r s' db' where "execute E sql c s = Some (r, s')" and "sql_step E db st r db'" and "left_with E T n s s' db'"
proof -
  have "has_room T (n + work (card (dom (contents db))) [st]) s" using rm by simp
  from statements_refine [OF tc ids sh tx le_refl this] ps obtain r s' db' where
    r: "run_statements E [st] c s = Some (r, s')" "sql_run E db [st] r db'" "left_with E T n s s' db'" by auto
  obtain x where x: "sql_step E db st x db'" "r = map_sum id (\<lambda>t. [t]) x" using run_single [OF r(2)] by blast
  have "execute E sql c s = Some (x, s')"
    using execute_parsed [OF sql r(1)] x(2) by (cases x) simp_all
  with that x(1) r(3) show ?thesis by blast
qed

text \<open>
  C1 (the engine implements the tables of Tables): let the state show a database, outside a
  transaction and with room for the entries the statements write. Then executing a text returns,
  its result and the database shown afterwards are one of the runs that \<open>sql_run\<close> allows for its
  statements, errors included, and only the room for what was written is used. Asked of the
  environment: bincode encodes everything, the random numbers are distinct. Asked of the
  statements (\<open>plain_statements\<close>): no CREATE INDEX and no CALL, table names without \<open>:\<close>, no column
  \<open>__key__\<close>, and a catalogue that fits a leaf.
\<close>

theorem engine_refines_tables:
  assumes "total_codec E" and "inj_on (random_id E) {..<T}" and "shows_tables E s t db" and "tx_of c s = None"
    and "has_room T (n + work (card (dom (contents db))) sts) s" and "plain_statements E (definitions db) sts"
    and "to_parser E sql" and "parse_sql E sql = Inr sts"
  shows "\<exists>r s' t' db'. execute E sql c s = Some (map_sum id (join [CHR 0x0A]) r, s') \<and> sql_run E db sts r db'
    \<and> shows_tables E s' t' db' \<and> has_room T n s' \<and> active_transactions s' = active_transactions s"
proof -
  from statements_refine [OF assms(1-4) le_refl assms(5,6)] obtain r s' db' where
    r: "run_statements E sts c s = Some (r, s')" "sql_run E db sts r db'" "left_with E T n s s' db'" by blast
  with execute_parsed [OF assms(7,8) r(1)] show ?thesis unfolding left_with_def by blast
qed

end
