(* ===== verification/Table_Samples.thy ===== *)
theory Table_Samples
  imports Engine_Fresh
begin

text \<open>
  An environment in which every record, row and catalogue can be encoded, for the theorems on
  databases, with the parser as an argument, and a text with two statements run in it.
\<close>

section \<open>Words and their encoding\<close>

text \<open>Sequences of byte strings, each byte after a 1 and each string closed by a 0.\<close>

definition put_words :: "bytes list \<Rightarrow> bytes" where
  "put_words ws = concat (map (\<lambda>w. concat (map (\<lambda>b. [1, b]) w) @ [0]) ws)"

fun get_words :: "bytes \<Rightarrow> bytes \<Rightarrow> bytes list" where
  "get_words cur [] = []"
| "get_words cur [b] = [rev cur]"
| "get_words cur (a # b # bs) = (if a = 0 then rev cur # get_words [] (b # bs) else get_words (b # cur) bs)"

lemma get_word_end: "get_words cur (0 # bs) = rev cur # get_words [] bs"
  by (cases bs) simp_all

lemma get_one_word: "get_words cur (concat (map (\<lambda>b. [1, b]) w) @ 0 # bs) = (rev cur @ w) # get_words [] bs"
  by (induction w arbitrary: cur) (simp_all add: get_word_end)

lemma get_put_words [simp]: "get_words [] (put_words ws) = ws"
  by (induction ws) (simp_all add: put_words_def get_one_word)

definition put_integer :: "int \<Rightarrow> bytes" where
  "put_integer i = (if i < 0 then 1 else 0) # replicate (nat \<bar>i\<bar>) 0"

definition get_integer :: "bytes \<Rightarrow> int" where
  "get_integer w = (if hd w = 1 then - int (length w - 1) else int (length w - 1))"

lemma get_put_integer [simp]: "get_integer (put_integer i) = i"
  by (simp add: put_integer_def get_integer_def)

definition put_total_rec :: "db_record \<Rightarrow> bytes" where
  "put_total_rec r = put_words [rec_value r, put_word 8 (version r), if is_deleted r then [1] else [], put_integer (timestamp r)]"

definition get_total_rec :: "bytes \<Rightarrow> db_record option" where
  "get_total_rec bs = (case get_words [] bs of
     [v, n, d, i] \<Rightarrow> map_option (\<lambda>(n, r). \<lparr>rec_value = v, version = n, is_deleted = (d = [1]), timestamp = get_integer i\<rparr>)
       (get_word 8 n)
   | _ \<Rightarrow> None)"

fun row_words :: "row \<Rightarrow> bytes list" where
  "row_words [] = []"
| "row_words ((k, v) # r) = to_bytes_of k # to_bytes_of v # row_words r"

fun words_row :: "bytes list \<Rightarrow> row option" where
  "words_row [] = Some []"
| "words_row [w] = None"
| "words_row (k # v # ws) = map_option (Cons (text_of k, text_of v)) (words_row ws)"

lemma words_row_words [simp]: "words_row (row_words r) = Some r"
  by (induction r rule: row_words.induct) simp_all

section \<open>The environment\<close>

fun printed :: "expr \<Rightarrow> str" where
  "printed (Identifier i) = i"
| "printed (CompoundIdentifier p ps) = join ''.'' (p # ps)"
| "printed (Value (Number n)) = n"
| "printed (Value (SingleQuotedString s)) = [CHR 0x27] @ s @ [CHR 0x27]"
| "printed (Value (Other_value s)) = s"
| "printed (BinaryOp l Eq r) = printed l @ '' = '' @ printed r"
| "printed (BinaryOp l op r) = printed l @ '' ? '' @ printed r"
| "printed (Nested e) = ''('' @ printed e @ '')''"
| "printed (Function f args) = f"
| "printed (Other_expr s) = s"

definition table_env :: "(str \<Rightarrow> err + statement list) \<Rightarrow> engine_env" where
  "table_env parser = SE\<lparr>
     show_expr := printed,
     ser_record := Some \<circ> put_total_rec, de_record := get_total_rec,
     ser_row := (\<lambda>r. Some (put_words (row_words r))), de_row := (\<lambda>b. words_row (get_words [] b)),
     ser_schemas := (\<lambda>m. Some (put_list put_schema m)),
     parse_sql := parser\<rparr>"

lemma table_env_simps [simp]:
  "benv (table_env p) = sample_tree_env" "random_id (table_env p) = of_nat" "parse_sql (table_env p) = p"
  "clock_seconds (table_env p) n = 0" "show_expr (table_env p) = printed"
  "ser_record (table_env p) r = Some (put_total_rec r)" "ser_schemas (table_env p) m = Some (put_list put_schema m)"
  by (simp_all add: table_env_def sample_engine_env_def)

lemma show_statement_table [simp]:
  "show_statement (table_env p) st = (case st of Explain s \<Rightarrow> ''EXPLAIN '' @ s | _ \<Rightarrow> ''STATEMENT'')"
  by (simp add: table_env_def sample_engine_env_def)

lemma total_codec_table: "total_codec (table_env p)"
  by (auto simp: total_codec_def record_codec_def row_codec_def table_env_def put_total_rec_def get_total_rec_def
      u64_codec.get_put [where rest = "[]", simplified])

lemma drawn_ids: "inj_on (random_id (table_env p)) {..<4000000}"
  by (auto simp: inj_on_def word_unat_eq_iff unat_of_nat take_bit_nat_def)

lemma length_words: "length (put_words ws) = sum_list (map (\<lambda>w. 2 * length w + 1) ws)"
proof -
  have "length (concat (map (\<lambda>b. [1, b]) w)) = 2 * length w" for w :: bytes by (induction w) simp_all
  then show ?thesis by (induction ws) (simp_all add: put_words_def)
qed

lemma table_fits: "length (put_list put_schema m) \<le> 450 \<Longrightarrow> catalogue_fits (table_env p) m"
  by (auto simp: catalogue_fits_def put_total_rec_def length_words put_integer_def put_word_def)

section \<open>A text with two statements\<close>

definition two_statements :: "statement list" where
  "two_statements = [CreateTable ''t'' [(''a'', [])],
     Insert ''t'' (Some \<lparr>query_body = Values [[Value (Number ''7'')]], query_limit = None\<rparr>)]"

definition two_env :: engine_env where
  "two_env = table_env (\<lambda>_. Inr two_statements)"

lemma two_plain: "plain_statements two_env [] two_statements"
proof -
  have "length (put_list put_schema [(''t'', \<lparr>schema_name = ''t'', columns = [''a''], auto_increment_col = None, next_id = 1\<rparr>)]) \<le> 450"
    by (simp add: put_list_def put_schema_def put_text_def put_vec_def put_word_def)
  then show ?thesis
    by (simp add: two_statements_def two_env_def plain_statement_def new_schema_def schema_ok_def plain_def ascii_def table_fits
        show_statement_table definitions_after_def)
qed

lemma two_runs:
  assumes "sql_run two_env empty_database two_statements r db"
  shows "map_sum id (join [CHR 0x0A]) r = Inr (''Table created'' @ [CHR 0x0A] @ ''Inserted 1 rows'')"
  using assms unfolding two_statements_def
  by (auto elim!: run_consE run_nilE step_createE step_insertE simp: statement_error_def empty_database_def)

theorem engine_refines_tables_witness:
  "\<exists>s s'. engine_open two_env (\<lambda>_. 0) True [] None = Some (Inr (), s)
    \<and> execute two_env ''CREATE; INSERT'' 0 s = Some (Inr (''Table created'' @ [CHR 0x0A] @ ''Inserted 1 rows''), s')"
proof -
  obtain s t where s: "engine_open two_env (\<lambda>_. 0) True [] None = Some (Inr (), s)" "shows_tables two_env s t empty_database"
    "has_room 4000000 1000000 s" "active_transactions s = []"
    by (rule engine_open_shows [of two_env 4000000 "\<lambda>_. 0" True]) (simp_all add: two_env_def)
  have p: "to_parser two_env ''CREATE; INSERT''" "parse_sql two_env ''CREATE; INSERT'' = Inr two_statements"
    by (rule to_parserI) (simp_all add: ascii_def blanks_def ascii_upper_def two_env_def)
  have "has_room 4000000 (0 + work (card (dom (contents empty_database))) two_statements) s"
    by (rule has_room_less [OF s(3)]) (simp add: two_statements_def empty_database_def writes_def added_rows_def)
  from engine_refines_tables [OF _ _ s(2) _ this _ p, of 0] s(4) two_plain two_runs show ?thesis
    using s(1) total_codec_table drawn_ids by (fastforce simp: two_env_def tx_of_def empty_database_def)
qed

end
