(* ===== verification/Engine_Snapshot.thy ===== *)
theory Engine_Snapshot
  imports Engine_Fresh
begin

text \<open>
  Transactions on a shown database: an UPDATE or DELETE inside a transaction stages its records
  and shows nothing, COMMIT makes the change of the statement visible, and a transaction that
  changed one of the same rows then fails with the conflict error.
\<close>

section \<open>Staged records\<close>

text \<open>The transaction holds, for exactly the keys \<open>ks\<close>, the changed records.\<close>

definition staged :: "engine_env \<Rightarrow> (db_record \<Rightarrow> db_record option) \<Rightarrow> engine \<Rightarrow> ptree \<Rightarrow> bytes list
    \<Rightarrow> transaction \<Rightarrow> bool" where
  "staged E change s t ks tx \<longleftrightarrow> map fst (updates tx) = ks \<and> distinct ks
     \<and> (\<forall>(k, b) \<in> set (updates tx). \<exists>d r r'. current_data s t k = Some d \<and> de_record E d = Some r
         \<and> change r = Some r' \<and> de_record E b = Some r')"

lemma staged_cong: "current_data s' t = current_data s t \<Longrightarrow> staged E change s' t ks tx = staged E change s t ks tx"
  by (simp add: staged_def)

abbreviation set_tx :: "u32 \<Rightarrow> transaction \<Rightarrow> engine \<Rightarrow> engine" where
  "set_tx c tx s \<equiv> s\<lparr>active_transactions := AList.update c tx (active_transactions s)\<rparr>"

lemma same_all_set:
  "same_all s s' \<Longrightarrow> same_all (s\<lparr>active_transactions := A (active_transactions s)\<rparr>) (s'\<lparr>active_transactions := A (active_transactions s')\<rparr>)"
  by (simp add: same_all_def same_db_def)

lemma update_new: "k \<notin> fst ` set xs \<Longrightarrow> AList.update k v xs = xs @ [(k, v)]"
  by (induction xs) auto

lemma update_twice: "AList.update k v (AList.update k w xs) = AList.update k v xs"
  by (induction xs) auto

context row_writer
begin

lemma stage_ok:
  assumes "record_codec E" and "stored E s t" and "tx_of c s = Some tx"
    and "current_data s t k = Some d" and "de_record E d = Some r" and "change r = Some r'" and "writable E r'"
    and "k \<notin> fst ` set (updates tx)"
  obtains s' b where "op k s = Some (Inr (), s')" and "stored E s' t" and "de_record E b = Some r'"
    and "same_all (set_tx c (tx\<lparr>updates := updates tx @ [(k, b)]\<rparr>) s) s'"
proof -
  obtain s1 where s1: "cached_or_stored E k s = Some (Inr (Some d), s1)" "stored E s1 t" "same_all s s1"
    using cached_or_stored_ok [OF assms(2), of k] assms(4) by metis
  have "ser_record E (r'\<lparr>version := version r'\<rparr>) \<noteq> None" using assms(7) by (metis option.distinct(1) writable_def)
  then obtain b where b: "ser_record E r' = Some b" by auto
  have tx: "tx_of c s1 = Some tx" using assms(3) s1(3) by (simp add: same_all_def tx_of_def)
  let ?tx = "tx\<lparr>updates := updates tx @ [(k, b)]\<rparr>"
  have "op k s = Some (Inr (), set_tx c ?tx s1)"
    using op_run [OF s1(1) assms(5,6)] b tx by (simp add: put_record_def stage_def update_new [OF assms(8)])
  moreover have "stored E (set_tx c ?tx s1) t" by (rule stored_tree [OF s1(2)]) simp
  moreover have "de_record E b = Some r'" using assms(1) b by (simp add: record_codec_def)
  ultimately show ?thesis using same_all_set [OF s1(3)] by (rule that)
qed

lemma stages_ok:
  assumes "record_codec E"
  shows "stored E s t \<Longrightarrow> tx_of c s = Some tx \<Longrightarrow> staged E change s t ds tx \<Longrightarrow> distinct (ds @ ks) \<Longrightarrow>
    (\<And>k. k \<in> set ks \<Longrightarrow> \<exists>d r r'. current_data s t k = Some d \<and> de_record E d = Some r
      \<and> change r = Some r' \<and> writable E r') \<Longrightarrow>
    \<exists>s' tx'. for_each ks op s = Some (Inr (), s') \<and> stored E s' t \<and> same_all (set_tx c tx' s) s'
      \<and> snapshot_version tx' = snapshot_version tx \<and> staged E change s t (ds @ ks) tx'"
proof (induction ks arbitrary: s ds tx)
  case Nil
  then have "set_tx c tx s = s" by (simp add: tx_of_def update_same)
  with Nil show ?case using al.refl [of s] by force
next
  case (Cons k ks)
  obtain d r r' where k: "current_data s t k = Some d" "de_record E d = Some r" "change r = Some r'" "writable E r'"
    using Cons.prems(5) [of k] by auto
  have "set ds = fst ` set (updates tx)" using Cons.prems(3) unfolding staged_def by (metis set_map)
  then have nw: "k \<notin> fst ` set (updates tx)" using Cons.prems(4) by auto
  then have nk: "(k, v) \<notin> set (updates tx)" for v by (metis fst_conv image_eqI)
  obtain s1 b where s1: "op k s = Some (Inr (), s1)" "stored E s1 t" "de_record E b = Some r'"
    "same_all (set_tx c (tx\<lparr>updates := updates tx @ [(k, b)]\<rparr>) s) s1"
    by (rule stage_ok [OF assms Cons.prems(1,2) k nw])
  let ?tx = "tx\<lparr>updates := updates tx @ [(k, b)]\<rparr>"
  have cd: "current_data s1 t = current_data s t"
    using same_all_data [OF s1(4), of t] by (simp add: fun_eq_iff current_data_def)
  have act: "active_transactions s1 = AList.update c ?tx (active_transactions s)"
    using s1(4) by (simp add: same_all_def)
  have "staged E change s1 t (ds @ [k]) ?tx"
    using Cons.prems(3,4) k s1(3) nk unfolding staged_def cd by auto
  from Cons.IH [OF s1(2) _ this] Cons.prems(4,5) act obtain s' tx' where
    s': "for_each ks op s1 = Some (Inr (), s')" "stored E s' t" "same_all (set_tx c tx' s1) s'"
      "snapshot_version tx' = snapshot_version tx" "staged E change s1 t (ds @ k # ks) tx'"
    unfolding cd by (auto simp: tx_of_def update_conv')
  have "same_all (set_tx c tx' s) (set_tx c tx' s1)"
    using same_all_set [OF s1(4), of "AList.update c tx'"] by (simp add: update_twice)
  with s' s1(1) show ?case
    unfolding staged_cong [OF cd] by (auto simp: seq_Inr intro: al.trans)
qed

end

section \<open>Statements inside a transaction\<close>

context row_writer
begin

lemma statement_staged:
  assumes tc: "total_codec E" and sh: "shows_tables E s t db" and tx: "tx_of c s = Some tx" "updates tx = []"
    and ks: "ks = target_keys E tbl (current_version s) cond (cached_entries s) (entries t)"
    and ch: "\<forall>r row. de_row E (rec_value r) = Some row \<longrightarrow> change r \<noteq> None"
  shows "\<exists>s' tx'. seq (scan_table_with_filter E tbl (current_version s) cond) (\<lambda>rows.
       let ks = selected_keys E cond rows in
       seq (for_each ks op) (\<lambda>_. seq (flush_outside_tx E c) (\<lambda>_. ret (f ks)))) s = Some (Inr (f ks), s')
    \<and> stored E s' t \<and> same_all (set_tx c tx' s) s' \<and> snapshot_version tx' = snapshot_version tx
    \<and> staged E change s t ks tx'"
proof -
  let ?ver = "current_version s"
  note st = shownD(1) [OF sh]
  obtain s1 where s1: "scan_table_with_filter E tbl ?ver cond s
      = Some (full_scan E tbl ?ver (cached_entries s @ entries t), s1)" "stored E s1 t" "same_all s s1"
    by (rule scan_unindexed [OF st tables_unindexed [OF sh]])
  have fs: "full_scan E tbl ?ver (cached_entries s @ entries t)
      = Inr (table_rows E tbl ?ver (cached_entries s) (entries t))"
    using full_scan_eq [OF stored_distinct [OF st]] tables_readable [OF sh, of tbl] by simp
  have sk: "selected_keys E cond (table_rows E tbl ?ver (cached_entries s) (entries t)) = ks"
    using target_keys [of "cached_entries s" "entries t" E tbl ?ver cond] tables_key_ok [OF sh] ks by simp
  have d: "distinct ks" unfolding ks by (rule target_keys_distinct [OF stored_distinct [OF st]])
  have cd: "current_data s1 t = current_data s t" by (rule same_all_data [OF s1(3)])
  have "\<exists>d r r'. current_data s1 t k = Some d \<and> de_record E d = Some r \<and> change r = Some r' \<and> writable E r'"
    if k: "k \<in> set ks" for k
  proof -
    obtain i where i: "k = row_key tbl i" "i \<in> matching E db tbl cond"
      using k tables_targets(1) [OF sh ks] by blast
    then obtain row where row: "contents db (tbl, i) = Some row" by (auto simp: matching_def row_numbers_def)
    obtain d r where dr: "de_record E d = Some r" "de_row E (rec_value r) = Some row"
      "current_data s t (row_key tbl i) = Some d"
      by (rule shown_live [OF sh row])
    obtain r' where "change r = Some r'" using ch dr(2) by blast
    with tc i dr show ?thesis unfolding cd by (auto simp: total_codec_def writable_def)
  qed
  moreover have "record_codec E" using tc by (simp add: total_codec_def)
  moreover have "tx_of c s1 = Some tx" using tx(1) s1(3) by (simp add: same_all_def tx_of_def)
  moreover have "staged E change s1 t [] tx" using tx(2) by (simp add: staged_def)
  ultimately obtain s2 tx' where s2: "for_each ks op s1 = Some (Inr (), s2)" "stored E s2 t"
    "same_all (set_tx c tx' s1) s2" "snapshot_version tx' = snapshot_version tx" "staged E change s1 t ks tx'"
    using stages_ok [OF _ s1(2), of tx "[]" ks] d by auto
  have "tx_of c s2 = Some tx'" using s2(3) by (simp add: same_all_def tx_of_def update_conv')
  then have fl: "flush_outside_tx E c s2 = Some (Inr (), s2)" by (simp add: flush_outside_tx_def)
  have "same_all (set_tx c tx' s) s2" using same_all_set [OF s1(3)] s2(3) by (rule al.trans)
  with s1(1) s2(1,2,4,5) fl show ?thesis by (auto simp: seq_Inr fs sk staged_cong [OF cd])
qed

end

lemma shown_set:
  assumes "shows_tables E s t db" and "stored E s' t" and "same_all (s\<lparr>active_transactions := A\<rparr>) s'" and "has_room T n s"
  shows "shows_tables E s' t db" and "has_room T n s'" and "active_transactions s' = A"
proof -
  let ?s = "s\<lparr>active_transactions := A\<rparr>"
  have sh: "shows_tables E ?s t db"
    using assms(1) stored_tree [OF shownD(1) [OF assms(1)], of ?s] by (simp add: shows_tables_def)
  have rm: "has_room T n ?s" using assms(4) by (simp add: has_room_def)
  from same_all_simps(1) [OF assms(3)] have ce: "cached_entries s' = cached_entries s" by simp
  with sh assms(2,3) same_all_lookup [OF assms(3)] show "shows_tables E s' t db"
    by (simp add: shows_tables_def same_all_def same_db_def)
  from same_all_left [OF sh assms(2,3) rm] show "has_room T n s'" by (simp add: left_with_def)
  show "active_transactions s' = A" using assms(3) by (simp add: same_all_def)
qed

text \<open>A transaction that updated and did not commit: the state shows the database as before.\<close>

definition pending :: "engine_env \<Rightarrow> engine \<Rightarrow> ptree \<Rightarrow> database \<Rightarrow> u32 \<Rightarrow> str \<Rightarrow> expr option
    \<Rightarrow> (str \<times> expr) list \<Rightarrow> transaction \<Rightarrow> bool" where
  "pending E s t db c tbl cond asg tx \<longleftrightarrow> tx_of c s = Some tx \<and> snapshot_version tx = current_version s
     \<and> (\<exists>ks. set ks = row_key tbl ` matching E db tbl cond \<and> length ks = card (matching E db tbl cond)
         \<and> staged E (updated_record E asg (current_version s)) s t ks tx)"

lemma update_pending:
  assumes tc: "total_codec E" and sh: "shows_tables E s t db" and rm: "has_room T n s"
    and tx: "tx_of c s = Some tx" "updates tx = []" "snapshot_version tx = current_version s"
  shows "\<exists>s' tx'. handle_update E tbl asg cond c s
      = Some (Inr (''Updated '' @ show_nat (card (matching E db tbl cond)) @ '' rows''), s')
    \<and> shows_tables E s' t db \<and> has_room T n s' \<and> current_data s' t = current_data s t
    \<and> current_version s' = current_version s
    \<and> active_transactions s' = AList.update c tx' (active_transactions s) \<and> pending E s' t db c tbl cond asg tx'"
proof -
  let ?ks = "target_keys E tbl (current_version s) cond (cached_entries s) (entries t)"
  have "\<forall>r row. de_row E (rec_value r) = Some row \<longrightarrow> updated_record E asg (current_version s) r \<noteq> None"
    using tc by (auto simp: updated_record_def total_codec_def)
  moreover have "read_version c s = current_version s" using tx(1,3) by (simp add: read_version_def)
  ultimately have "\<exists>s' tx'. handle_update E tbl asg cond c s = Some (Inr (''Updated '' @ show_nat (length ?ks) @ '' rows''), s')
    \<and> stored E s' t \<and> same_all (set_tx c tx' s) s' \<and> snapshot_version tx' = snapshot_version tx
    \<and> staged E (updated_record E asg (current_version s)) s t ?ks tx'"
    using upd.statement_staged [OF tc sh tx(1,2) refl, where f = "\<lambda>ks. ''Updated '' @ show_nat (length ks) @ '' rows''"
      and tbl = tbl and cond = cond and ver = "current_version s" and asg = asg]
    by (simp only: handle_update_def seq_simps)
  then obtain s' tx' where s': "handle_update E tbl asg cond c s = Some (Inr (''Updated '' @ show_nat (length ?ks) @ '' rows''), s')"
    "stored E s' t" "same_all (set_tx c tx' s) s'" "snapshot_version tx' = snapshot_version tx"
    "staged E (updated_record E asg (current_version s)) s t ?ks tx'" by blast
  note shown = shown_set [OF sh s'(2,3) rm]
  have cd: "current_data s' t = current_data s t"
    using same_all_data [OF s'(3), of t] by (simp add: fun_eq_iff current_data_def)
  have cv: "current_version s' = current_version s" using s'(3) by (simp add: same_all_def same_db_def)
  have "pending E s' t db c tbl cond asg tx'"
    unfolding pending_def staged_cong [OF cd] cv
    using shown(3) s'(4,5) tx(3) tables_targets [OF sh refl, of tbl cond] by (auto simp: tx_of_def update_conv')
  with s'(1) shown cd cv tables_targets(2) [OF sh refl, of tbl cond] show ?thesis by metis
qed

lemma pending_same:
  "pending E s t db c tbl cond asg tx \<Longrightarrow> tx_of c s' = tx_of c s \<Longrightarrow> current_version s' = current_version s \<Longrightarrow>
    current_data s' t = current_data s t \<Longrightarrow> pending E s' t db c tbl cond asg tx"
  using staged_cong [of s' t s] by (simp add: pending_def)

section \<open>COMMIT\<close>

text \<open>Installation of the updates: each key gets its record under the new version.\<close>

lemma installs_run:
  shows "stored E s t \<Longrightarrow> distinct (map fst ups) \<Longrightarrow> length ups \<le> log_room s \<Longrightarrow> room_for (length ups) (tier s) \<Longrightarrow>
    \<forall>u \<in> set ups. \<exists>r. de_record E (snd u) = Some r \<and> writable E r \<Longrightarrow>
    \<exists>s'. for_each ups (install E ver) s = Some (Inr (), s') \<and> stored E s' t \<and> same_meta s s' \<and> spent (length ups) s s'
      \<and> (\<forall>k. k \<notin> fst ` set ups \<longrightarrow> mt_lookup (tier s') k = mt_lookup (tier s) k)
      \<and> (\<forall>u \<in> set ups. \<exists>r b. de_record E (snd u) = Some r \<and> ser_record E (r\<lparr>version := ver\<rparr>) = Some b
          \<and> mt_lookup (tier s') (fst u) = Some b)"
proof (induction ups arbitrary: s)
  case Nil
  then show ?case using same_all_meta [OF al.refl] by (simp add: spent_refl)
next
  case (Cons kv ups)
  obtain k v where kv: "kv = (k, v)" by (cases kv)
  obtain r where r: "de_record E v = Some r" "writable E r" using Cons.prems(5) kv by auto
  then obtain b where rb: "de_record E v = Some r" "ser_record E (r\<lparr>version := ver\<rparr>) = Some b"
    unfolding writable_def by blast
  have "0 < log_room s" "room_for (Suc (length ups)) (tier s)" using Cons.prems(3,4) by simp_all
  note ne = no_evict [OF this(2)]
  obtain s1 where s1: "seq (tier_insert E k b) (\<lambda>_. enqueue E k b) s = Some (Inr (), s1)" "stored E s1 t" "same_meta s s1"
    "ticks s1 = Suc (ticks s)" "tier s1 = mt_insert (clock_nanos E (ticks s)) k b (tier s)"
    "log_queue s1 = log_queue s @ [RecordUpdate k b]"
    using put_ok [OF Cons.prems(1) \<open>0 < log_room s\<close>] by blast
  have sp: "spent 1 s s1" by (rule put_spent [OF s1(4,5,6)])
  have run: "install E ver kv s = Some (Inr (), s1)" using rb s1(1) by (simp add: install_def kv)
  have tail: "distinct (map fst ups)" "\<forall>u \<in> set ups. \<exists>r. de_record E (snd u) = Some r \<and> writable E r"
    using Cons.prems(2,5) by simp_all
  have "length ups \<le> log_room s1" using Cons.prems(3) s1(6) by (simp add: room_def)
  moreover have "room_for (length ups) (tier s1)" using ne s1(5) by simp
  ultimately obtain s' where s': "for_each ups (install E ver) s1 = Some (Inr (), s')" "stored E s' t" "same_meta s1 s'"
    "spent (length ups) s1 s'" "\<forall>x. x \<notin> fst ` set ups \<longrightarrow> mt_lookup (tier s') x = mt_lookup (tier s1) x"
    "\<forall>u \<in> set ups. \<exists>r b. de_record E (snd u) = Some r \<and> ser_record E (r\<lparr>version := ver\<rparr>) = Some b
      \<and> mt_lookup (tier s') (fst u) = Some b"
    using Cons.IH [OF s1(2)] tail by blast
  have "mt_lookup (tier s1) = (mt_lookup (tier s))(k \<mapsto> b)" using ne s1(5) by simp
  moreover have "k \<notin> fst ` set ups" using Cons.prems(2) kv by simp
  ultimately have l: "mt_lookup (tier s') k = Some b"
    and o: "\<And>x. x \<notin> fst ` set (kv # ups) \<Longrightarrow> mt_lookup (tier s') x = mt_lookup (tier s) x"
    using s'(5) kv by auto
  have "spent (length (kv # ups)) s s'" using spent_trans [OF sp s'(4)] by simp
  moreover have "same_meta s s'" using s1(3) s'(3) by (simp add: same_meta_def)
  moreover have "\<forall>u \<in> set (kv # ups). \<exists>r b. de_record E (snd u) = Some r \<and> ser_record E (r\<lparr>version := ver\<rparr>) = Some b
      \<and> mt_lookup (tier s') (fst u) = Some b"
    using s'(6) l rb kv by auto
  ultimately show ?case using run s'(1,2) o by (auto simp: seq_Inr)
qed

lemma pages_commit: "keeps same_pages (commit_tx E c)"
proof -
  have "keeps same_pages (install E ver kv)" for ver kv
    unfolding install_def by (intro pages_intros)
  then show ?thesis
    unfolding commit_tx_def drop_tx_def bump_version_def
    by (auto intro!: pages_intros keeps_all_pages [OF keeps_occ_check] split: option.split)
qed

lemma commit_pending:
  assumes tc: "total_codec E" and sh: "shows_tables E s t db" and pd: "pending E s t db c tbl cond asg tx"
    and key: "''__key__'' \<notin> fst ` set asg" and rm: "has_room T (n + Suc (card (matching E db tbl cond))) s"
  shows "\<exists>s'. commit_tx E c s = Some (Inr ''Transaction committed'', s')
    \<and> shows_tables E s' t (db\<lparr>contents := set_rows tbl (matching E db tbl cond) (\<lambda>r. Some (assign E asg r)) (contents db)\<rparr>)
    \<and> has_room T n s' \<and> active_transactions s' = AList.delete c (active_transactions s)
    \<and> current_version s' = current_version s + 1
    \<and> (\<forall>i \<in> matching E db tbl cond. \<exists>b r. mt_lookup (tier s') (row_key tbl i) = Some b
        \<and> de_record E b = Some r \<and> version r = current_version s')"
proof -
  let ?I = "matching E db tbl cond" and ?v = "current_version s + 1"
  obtain ks where ks: "set ks = row_key tbl ` ?I" "length ks = card ?I"
    and sg: "staged E (updated_record E asg (current_version s)) s t ks tx"
    and tx: "tx_of c s = Some tx" "snapshot_version tx = current_version s"
    using pd by (auto simp: pending_def)
  then have ups: "map fst (updates tx) = ks" "distinct ks" by (simp_all add: staged_def)
  then have fu: "fst ` set (updates tx) = set ks" by (metis set_map)
  have lu: "length (updates tx) = card ?I" using ups(1) ks(2) by (metis length_map)
  let ?s0 = "s\<lparr>active_transactions := AList.delete c (active_transactions s)\<rparr>"
  have s0: "stored E ?s0 t" by (rule stored_tree [OF shownD(1) [OF sh]]) simp
  have cd0: "current_data ?s0 t = current_data s t" by (simp add: fun_eq_iff current_data_def)
  have cur: "\<exists>r. de_record E d = Some r \<and> version r \<le> current_version s"
    if k: "k \<in> set ks" and d: "current_data s t k = Some d" for k d
  proof -
    obtain i row where i: "k = row_key tbl i" "contents db (tbl, i) = Some row"
      using k unfolding ks(1) by (auto simp: matching_def row_numbers_def)
    then obtain d' where "mt_lookup (tier s) k = Some d'" "current_data s t k = Some d'"
      using shown_live [OF sh i(2)] by metis
    with d have "(k, d) \<in> set (cached_entries s)" using cached_lookup [OF shownD(1) [OF sh]] by simp
    from shownD(6) [OF sh this] show ?thesis by (auto simp: row_entry_def)
  qed
  obtain s1 where s1: "for_each (map fst (updates tx)) (occ_check E (snapshot_version tx)) ?s0 = Some (Inr (), s1)"
    "stored E s1 t" "same_all ?s0 s1"
    using occ_checks_ok [OF s0, where ks = ks and snap = "current_version s"] cur unfolding ups(1) tx(2) cd0 by blast
  have cv1: "current_version s1 = current_version s" using s1(3) by (simp add: same_all_def same_db_def)
  let ?s1 = "s1\<lparr>current_version := ?v\<rparr>"
  have rm1: "length (updates tx) \<le> log_room ?s1" "room_for (length (updates tx)) (tier ?s1)"
    using rm lu same_all_queue [OF s1(3)] same_all_room [OF s1(3)] has_room_less [OF rm, of "card ?I"]
    by (simp_all add: has_room_def room_def)
  have "\<forall>u \<in> set (updates tx). \<exists>r. de_record E (snd u) = Some r \<and> writable E r"
    using sg tc by (fastforce simp: staged_def total_codec_def writable_def)
  then obtain s2 where s2: "for_each (updates tx) (install E ?v) ?s1 = Some (Inr (), s2)" "stored E s2 t" "same_meta ?s1 s2"
    "spent (length (updates tx)) ?s1 s2"
    "\<forall>k. k \<notin> fst ` set (updates tx) \<longrightarrow> mt_lookup (tier s2) k = mt_lookup (tier ?s1) k"
    "\<forall>u \<in> set (updates tx). \<exists>r b. de_record E (snd u) = Some r \<and> ser_record E (r\<lparr>version := ?v\<rparr>) = Some b
      \<and> mt_lookup (tier s2) (fst u) = Some b"
    using installs_run [of E ?s1 t "updates tx" ?v] stored_tree [OF s1(2), of ?s1] ups rm1 by auto
  obtain s3 where s3: "flush E s2 = Some (Inr (), s3)" "stored E s3 t" "same_but_log s2 s3"
    "suffix (log_queue s3) (log_queue s2)"
    by (rule flush_ok [OF s2(2)])
  have run: "commit_tx E c s = Some (Inr ''Transaction committed'', s3)"
    using s1(1) s2(1) s3(1) cv1 tx(1) by (simp add: commit_tx_def drop_tx_def bump_version_def seq_assoc seq_Inr)
  note log = same_but_log_meta [OF s3(3)]
  have meta: "schemas s3 = schemas s" "indices s3 = indices s" "current_version s3 = ?v"
    "active_transactions s3 = AList.delete c (active_transactions s)"
    using log s2(3) s1(3) by (simp_all add: same_meta_def same_all_def same_db_def)
  have lookup: "mt_lookup (tier ?s1) = mt_lookup (tier s)" using same_all_lookup [OF s1(3)] by simp
  have "spent 0 ?s0 s1" by (rule same_all_spent [OF s1(3)])
  then have s01: "spent 0 s ?s1" by (simp add: spent_def)
  have sp: "spent (card ?I) s s3"
    using spent_trans [OF s01 spent_trans [OF s2(4) flush_spent [OF s3(3,4)]]] by (simp add: lu)
  have new: "\<exists>d r r' b. current_data s t k = Some d \<and> de_record E d = Some r
      \<and> updated_record E asg (current_version s) r = Some r' \<and> mt_lookup (tier s3) k = Some b
      \<and> de_record E b = Some (r'\<lparr>version := ?v\<rparr>)" if k: "k \<in> set ks" for k
  proof -
    obtain b0 where b0: "(k, b0) \<in> set (updates tx)" using k fu by force
    then obtain d r r' where d: "current_data s t k = Some d" "de_record E d = Some r"
      "updated_record E asg (current_version s) r = Some r'" "de_record E b0 = Some r'"
      using sg by (fastforce simp: staged_def)
    obtain b where b: "ser_record E (r'\<lparr>version := ?v\<rparr>) = Some b" "mt_lookup (tier s2) k = Some b"
      using s2(6) b0 d(4) by fastforce
    have "de_record E b = Some (r'\<lparr>version := ?v\<rparr>)" using tc b(1) by (simp add: total_codec_def record_codec_def)
    with d b(2) log show ?thesis by auto
  qed
  have v: "unat (current_version s) + 1 < 2 ^ 64" using rm by (simp add: has_room_def)
  have "shows_tables E s3 t (db\<lparr>contents := set_rows tbl ?I (\<lambda>r. Some (assign E asg r)) (contents db)\<rparr>)"
  proof (rule changed_tables [OF sh s3(2) _ ks(1) changes_updated [OF tc key]])
    show "ticks s \<le> ticks s3" using sp by (simp add: spent_def)
    show "current_version s \<le> current_version s3" using version_le(2) [OF v le_refl] meta(3) by simp
    show "mt_lookup (tier s3) k = mt_lookup (tier s) k" if "k \<notin> set ks" for k
      using s2(5) that fu lookup log by simp
    show "\<exists>d r r' b v. current_data s t k = Some d \<and> de_record E d = Some r
        \<and> updated_record E asg (current_version s) r = Some r' \<and> mt_lookup (tier s3) k = Some b
        \<and> de_record E b = Some (r'\<lparr>version := v\<rparr>) \<and> v \<le> current_version s3" if "k \<in> set ks" for k
      using new [OF that] meta(3) by fastforce
  qed (rule meta)+
  moreover have "has_room T n s3"
  proof (rule has_room_spent [OF rm])
    show "spent (Suc (card ?I)) s s3" using sp by (auto simp: spent_def)
    show "unat (current_version s3) \<le> unat (current_version s) + Suc (card ?I)"
      using version_le(3) [OF v le_refl] meta(3) by simp
    show "pages (tree s3) = pages (tree s)" using keepsD [OF pages_commit run] by (simp add: same_pages_def)
  qed
  moreover have "\<forall>i \<in> ?I. \<exists>b r. mt_lookup (tier s3) (row_key tbl i) = Some b
      \<and> de_record E b = Some r \<and> version r = current_version s3"
    using new unfolding ks(1) meta(3) by fastforce
  ultimately show ?thesis using run meta(3,4) by blast
qed

section \<open>Conflicts\<close>

lemma occ_checks_conflict:
  assumes "stored E s t" and "\<And>k d. k \<in> set ks \<Longrightarrow> current_data s t k = Some d \<Longrightarrow> de_record E d \<noteq> None"
    and "k \<in> set ks" and "current_data s t k = Some d" and "de_record E d = Some r" and "snap < version r"
  shows "\<exists>s'. for_each ks (occ_check E snap) s = Some (Inl (Msg ''Transaction conflict detected (OCC)''), s')
    \<and> stored E s' t \<and> same_all s s'"
  using assms(1-4)
proof (induction ks arbitrary: s)
  case (Cons x ks)
  obtain s1 where s1: "cached_else_stored E x s = Some (Inr (current_data s t x), s1)" "stored E s1 t" "same_all s s1"
    by (rule cached_else_stored_ok [OF Cons.prems(1)])
  have run: "occ_check E snap x s = Some (case current_data s t x of None \<Rightarrow> Inr ()
      | Some d \<Rightarrow> if snap < version (the (de_record E d)) then Inl (Msg ''Transaction conflict detected (OCC)'') else Inr (), s1)"
    using s1(1) Cons.prems(2) [of x] by (auto simp: occ_check_def seq_Inr split: option.split)
  show ?case
  proof (cases "\<exists>d. current_data s t x = Some d \<and> snap < version (the (de_record E d))")
    case True
    with run s1(2,3) show ?thesis by (auto simp: seq_Inl)
  next
    case False
    with Cons.prems(3,4) assms(5,6) have "k \<in> set ks" by auto
    then have "\<exists>s'. for_each ks (occ_check E snap) s1 = Some (Inl (Msg ''Transaction conflict detected (OCC)''), s')
        \<and> stored E s' t \<and> same_all s1 s'"
      using Cons.prems(2,4) same_all_data [OF s1(3)] by (intro Cons.IH [OF s1(2)]) auto
    moreover have "occ_check E snap x s = Some (Inr (), s1)" using run False by (auto split: option.splits)
    ultimately show ?thesis using s1(3) by (auto simp: seq_Inr intro: al.trans)
  qed
qed simp

lemma commit_conflicts:
  assumes "stored E s t" and "tx_of c s = Some tx"
    and "\<And>k d. k \<in> fst ` set (updates tx) \<Longrightarrow> current_data s t k = Some d \<Longrightarrow> de_record E d \<noteq> None"
    and "k \<in> fst ` set (updates tx)" and "current_data s t k = Some d" and "de_record E d = Some r"
    and "snapshot_version tx < version r"
  shows "\<exists>s'. commit_tx E c s = Some (Inl (Msg ''Transaction conflict detected (OCC)''), s') \<and> stored E s' t
    \<and> same_all (s\<lparr>active_transactions := AList.delete c (active_transactions s)\<rparr>) s'"
proof -
  let ?s0 = "s\<lparr>active_transactions := AList.delete c (active_transactions s)\<rparr>"
  have s0: "stored E ?s0 t" by (rule stored_tree [OF assms(1)]) simp
  have cd: "current_data ?s0 t = current_data s t" by (simp add: fun_eq_iff current_data_def)
  have "\<exists>s'. for_each (map fst (updates tx)) (occ_check E (snapshot_version tx)) ?s0
      = Some (Inl (Msg ''Transaction conflict detected (OCC)''), s') \<and> stored E s' t \<and> same_all ?s0 s'"
    by (rule occ_checks_conflict [OF s0 _ _ _ assms(6,7), of _ k]) (use assms(3-5) cd in auto)
  with assms(2) show ?thesis by (auto simp: commit_tx_def drop_tx_def seq_Inl)
qed

section \<open>Two connections\<close>

text \<open>The results of texts, each sent on its connection.\<close>

fun results :: "engine_env \<Rightarrow> (str \<times> u32) list \<Rightarrow> engine \<Rightarrow> ((err + str) list \<times> engine) option" where
  "results E [] s = Some ([], s)"
| "results E ((sql, c) # calls) s = (case execute E sql c s of
      None \<Rightarrow> None
    | Some (r, s1) \<Rightarrow> map_option (\<lambda>(rs, s2). (r # rs, s2)) (results E calls s1))"

lemma tx_texts:
  "to_upper E (trim ''BEGIN'') = ''BEGIN''" "to_upper E (trim ''COMMIT'') = ''COMMIT''"
  by (simp_all add: trim_id trimmedI ascii_def blanks_def to_uppercase_def ascii_upper_def less_eq_char_def)

lemma execute_tx: "execute E ''BEGIN'' c = begin_tx E c" "execute E ''COMMIT'' c = commit_tx E c"
  by (simp_all add: execute_def tx_texts)

lemma begin_shown:
  assumes "shows_tables E s t db" and "has_room T (Suc n) s"
  shows "\<exists>s' tx. begin_tx E c s = Some (Inr ''Transaction started'', s') \<and> shows_tables E s' t db \<and> has_room T n s'
    \<and> current_data s' t = current_data s t \<and> current_version s' = current_version s
    \<and> active_transactions s' = AList.update c tx (active_transactions s)
    \<and> updates tx = [] \<and> snapshot_version tx = current_version s"
proof -
  let ?tx = "\<lparr>tx_id = of_int (clock_micros E (ticks s)), snapshot_version = current_version s, updates = []\<rparr>"
  let ?s = "s\<lparr>ticks := Suc (ticks s), active_transactions := AList.update c ?tx (active_transactions s)\<rparr>"
  have "begin_tx E c s = Some (Inr ''Transaction started'', ?s)"
    by (simp add: begin_tx_def tick_def seq_def)
  moreover have "shows_tables E ?s t db"
    using assms(1) stored_tree [OF shownD(1) [OF assms(1)], of ?s]
    by (auto simp: shows_tables_def intro: row_entry_mono)
  moreover have "has_room T n ?s"
    using assms(2) has_room_less [OF assms(2), of n] by (simp add: has_room_def)
  moreover have "current_data ?s t = current_data s t" by (simp add: fun_eq_iff current_data_def)
  ultimately show ?thesis by (intro exI [of _ ?s] exI [of _ ?tx]) simp
qed

lemma execute_update:
  assumes "to_parser E sql" and "parse_sql E sql = Inr [Update (Table tbl) asg cond]"
    and "\<not> prefix ''CALL'' (show_statement E (Update (Table tbl) asg cond))"
    and "handle_update E tbl asg cond c s = Some (Inr x, s')"
  shows "execute E sql c s = Some (Inr x, s')"
proof -
  have "run_statement E (Update (Table tbl) asg cond) c 0 s = Some (Inr x, s')"
    using assms(4) by (simp add: run_statement.simps execute_dispatch [OF assms(3)] dispatch_def factor_table_def seq_def)
  then have "run_statements E [Update (Table tbl) asg cond] c s = Some (Inr [x], s')" by (simp add: seq_Inr)
  from execute_parsed [OF assms(1,2) this] show ?thesis by simp
qed

lemma shown_decodes:
  assumes "shows_tables E s t db" and "current_data s t (row_key tbl i) = Some d"
  shows "de_record E d \<noteq> None"
proof (cases "mt_lookup (tier s) (row_key tbl i)")
  case None
  with assms(2) have "(row_key tbl i, d) \<in> set (entries t)" by (auto simp: current_data_def dest: map_of_SomeD)
  then show ?thesis using meta_entries [OF shownD(2) [OF assms(1)]] schemas_key_row [of tbl i] by force
next
  case (Some x)
  with assms have "(row_key tbl i, d) \<in> set (cached_entries s)"
    using cached_lookup [OF shownD(1) [OF assms(1)]] by (simp add: current_data_def)
  from shownD(6) [OF assms(1) this] show ?thesis by (auto simp: row_entry_def)
qed

text \<open>A text that is one UPDATE.\<close>

definition update_text :: "engine_env \<Rightarrow> str \<Rightarrow> str \<Rightarrow> (str \<times> expr) list \<Rightarrow> expr option \<Rightarrow> bool" where
  "update_text E sql tbl asg cond \<longleftrightarrow> to_parser E sql \<and> parse_sql E sql = Inr [Update (Table tbl) asg cond]
     \<and> \<not> prefix ''CALL'' (show_statement E (Update (Table tbl) asg cond)) \<and> ''__key__'' \<notin> fst ` set asg"

lemma commit_then_conflict:
  assumes tc: "total_codec E" and sh: "shows_tables E s t db" and "c \<noteq> d"
    and pc: "pending E s t db c tbl cond1 asg1 tx1" and pd: "pending E s t db d tbl cond2 asg2 tx2"
    and key: "''__key__'' \<notin> fst ` set asg1" and i: "i \<in> matching E db tbl cond1" "i \<in> matching E db tbl cond2"
    and rm: "has_room T (n + Suc (card (matching E db tbl cond1))) s"
  shows "\<exists>s'. results E [(''COMMIT'', c), (''COMMIT'', d)] s
      = Some ([Inr ''Transaction committed'', Inl (Msg ''Transaction conflict detected (OCC)'')], s')
    \<and> shows_tables E s' t (db\<lparr>contents :=
        set_rows tbl (matching E db tbl cond1) (\<lambda>r. Some (assign E asg1 r)) (contents db)\<rparr>)
    \<and> has_room T n s' \<and> tx_of c s' = None \<and> tx_of d s' = None"
proof -
  let ?I = "matching E db tbl cond1" and ?J = "matching E db tbl cond2"
  from commit_pending [OF tc sh pc key rm] obtain s1 where
    s1: "commit_tx E c s = Some (Inr ''Transaction committed'', s1)"
      "shows_tables E s1 t (db\<lparr>contents := set_rows tbl ?I (\<lambda>r. Some (assign E asg1 r)) (contents db)\<rparr>)"
      "has_room T n s1" "active_transactions s1 = AList.delete c (active_transactions s)"
      "current_version s1 = current_version s + 1"
      "\<forall>i \<in> ?I. \<exists>b r. mt_lookup (tier s1) (row_key tbl i) = Some b \<and> de_record E b = Some r \<and> version r = current_version s1"
    by blast
  from pd have tx: "tx_of d s = Some tx2" "snapshot_version tx2 = current_version s"
    "fst ` set (updates tx2) = row_key tbl ` ?J"
    by (auto simp: pending_def staged_def simp flip: set_map)
  then have t1: "tx_of d s1 = Some tx2" using s1(4) assms(3) by (simp add: tx_of_def delete_conv')
  obtain b r where b: "current_data s1 t (row_key tbl i) = Some b" "de_record E b = Some r" "version r = current_version s1"
    using s1(6) i(1) by (auto simp: current_data_def)
  have "unat (current_version s) + 1 < 2 ^ 64" using rm by (simp add: has_room_def)
  from version_le(3) [OF this le_refl] have lt: "snapshot_version tx2 < version r"
    unfolding tx(2) b(3) s1(5) by (simp add: word_less_nat_alt)
  have dec: "de_record E x \<noteq> None" if "k \<in> fst ` set (updates tx2)" "current_data s1 t k = Some x" for k x
    using that shown_decodes [OF s1(2)] unfolding tx(3) by blast
  have "row_key tbl i \<in> fst ` set (updates tx2)" unfolding tx(3) using i(2) by (rule imageI)
  then have "\<exists>s2. commit_tx E d s1 = Some (Inl (Msg ''Transaction conflict detected (OCC)''), s2) \<and> stored E s2 t
    \<and> same_all (s1\<lparr>active_transactions := AList.delete d (active_transactions s1)\<rparr>) s2"
    by (rule commit_conflicts [OF shownD(1) [OF s1(2)] t1 _ _ b(1,2) lt, rotated]) (rule dec)
  then obtain s2 where s2: "commit_tx E d s1 = Some (Inl (Msg ''Transaction conflict detected (OCC)''), s2)" "stored E s2 t"
    "same_all (s1\<lparr>active_transactions := AList.delete d (active_transactions s1)\<rparr>) s2" by blast
  note sh2 = shown_set [OF s1(2) s2(2,3) s1(3)]
  have "tx_of c s2 = None" "tx_of d s2 = None" unfolding tx_of_def sh2(3) s1(4) by (simp_all add: delete_conv')
  with sh2(1,2) s1(1) s2(1) show ?thesis by (intro exI [of _ s2]) (simp add: execute_tx)
qed

lemma two_transactions:
  assumes "total_codec E" and "shows_tables E s t db" and "c \<noteq> d"
    and "update_text E sql1 tbl asg1 cond1" and "update_text E sql2 tbl asg2 cond2"
    and "matching E db tbl cond1 \<inter> matching E db tbl cond2 \<noteq> {}"
    and "has_room T (n + 3 + card (matching E db tbl cond1)) s"
  shows "\<exists>s'. results E [(''BEGIN'', c), (''BEGIN'', d), (sql1, c), (sql2, d), (''COMMIT'', c), (''COMMIT'', d)] s = Some
      ([Inr ''Transaction started'', Inr ''Transaction started'',
        Inr (''Updated '' @ show_nat (card (matching E db tbl cond1)) @ '' rows''),
        Inr (''Updated '' @ show_nat (card (matching E db tbl cond2)) @ '' rows''),
        Inr ''Transaction committed'', Inl (Msg ''Transaction conflict detected (OCC)'')], s')
    \<and> shows_tables E s' t (db\<lparr>contents :=
        set_rows tbl (matching E db tbl cond1) (\<lambda>r. Some (assign E asg1 r)) (contents db)\<rparr>)
    \<and> has_room T n s' \<and> tx_of c s' = None \<and> tx_of d s' = None"
proof -
  let ?I = "matching E db tbl cond1" and ?J = "matching E db tbl cond2"
  have "has_room T (Suc (Suc (n + Suc (card ?I)))) s" using assms(7) by (simp add: numeral_3_eq_3)
  from begin_shown [OF assms(2) this, of c] obtain s1 tx1 where
    s1: "begin_tx E c s = Some (Inr ''Transaction started'', s1)" "shows_tables E s1 t db"
      "has_room T (Suc (n + Suc (card ?I))) s1" "active_transactions s1 = AList.update c tx1 (active_transactions s)"
      "updates tx1 = []" "snapshot_version tx1 = current_version s1" by auto
  from begin_shown [OF s1(2,3), of d] obtain s2 tx2 where
    s2: "begin_tx E d s1 = Some (Inr ''Transaction started'', s2)" "shows_tables E s2 t db"
      "has_room T (n + Suc (card ?I)) s2" "current_version s2 = current_version s1"
      "active_transactions s2 = AList.update d tx2 (active_transactions s1)"
      "updates tx2 = []" "snapshot_version tx2 = current_version s2" by auto
  have t2: "tx_of c s2 = Some tx1" "tx_of d s2 = Some tx2"
    using s1(4) s2(5) assms(3) by (simp_all add: tx_of_def update_conv')
  obtain s3 tx3 where s3: "handle_update E tbl asg1 cond1 c s2 = Some (Inr (''Updated '' @ show_nat (card ?I) @ '' rows''), s3)"
      "shows_tables E s3 t db" "has_room T (n + Suc (card ?I)) s3" "current_version s3 = current_version s2"
      "active_transactions s3 = AList.update c tx3 (active_transactions s2)" "pending E s3 t db c tbl cond1 asg1 tx3"
    using update_pending [OF assms(1) s2(2,3) t2(1) s1(5), where tbl = tbl and cond = cond1 and asg = asg1] s1(6) s2(4) by auto
  have t3: "tx_of d s3 = Some tx2" using s3(5) t2(2) assms(3) by (simp add: tx_of_def update_conv')
  obtain s4 tx4 where s4: "handle_update E tbl asg2 cond2 d s3 = Some (Inr (''Updated '' @ show_nat (card ?J) @ '' rows''), s4)"
      "shows_tables E s4 t db" "has_room T (n + Suc (card ?I)) s4" "current_data s4 t = current_data s3 t"
      "current_version s4 = current_version s3"
      "active_transactions s4 = AList.update d tx4 (active_transactions s3)" "pending E s4 t db d tbl cond2 asg2 tx4"
    using update_pending [OF assms(1) s3(2,3) t3 s2(6), where tbl = tbl and cond = cond2 and asg = asg2] s2(7) s3(4) by auto
  have "tx_of c s4 = tx_of c s3" using s4(6) assms(3) by (simp add: tx_of_def update_conv')
  then have p4: "pending E s4 t db c tbl cond1 asg1 tx3" by (rule pending_same [OF s3(6) _ s4(5,4)])
  have key: "''__key__'' \<notin> fst ` set asg1" using assms(4) by (simp add: update_text_def)
  obtain i where i: "i \<in> ?I" "i \<in> ?J" using assms(6) by blast
  from commit_then_conflict [OF assms(1) s4(2) assms(3) p4 s4(7) key i s4(3)] obtain s6 where
    s6: "results E [(''COMMIT'', c), (''COMMIT'', d)] s4
        = Some ([Inr ''Transaction committed'', Inl (Msg ''Transaction conflict detected (OCC)'')], s6)"
      "shows_tables E s6 t (db\<lparr>contents := set_rows tbl ?I (\<lambda>r. Some (assign E asg1 r)) (contents db)\<rparr>)"
      "has_room T n s6" "tx_of c s6 = None" "tx_of d s6 = None" by blast
  have "execute E sql1 c s2 = Some (Inr (''Updated '' @ show_nat (card ?I) @ '' rows''), s3)"
    using execute_update [OF _ _ _ s3(1)] assms(4) by (simp add: update_text_def)
  moreover have "execute E sql2 d s3 = Some (Inr (''Updated '' @ show_nat (card ?J) @ '' rows''), s4)"
    using execute_update [OF _ _ _ s4(1)] assms(5) by (simp add: update_text_def)
  ultimately show ?thesis
    using s1(1) s2(1) s6 by (intro exI [of _ s6]) (simp add: execute_tx split: option.splits prod.splits)
qed

text \<open>
  C7 (first committer wins): two connections begin transactions, update overlapping sets of rows
  of a table and commit, on a state that shows a database. Both updates report the rows that
  match in the database as it was before, since neither sees the other; the first COMMIT
  succeeds and its change becomes visible; the second fails with the conflict error, changes
  nothing and ends its transaction.
\<close>

theorem first_committer_wins:
  assumes "total_codec E" and "shows_tables E s t db" and "c \<noteq> d"
    and "update_text E sql1 tbl asg1 cond1" and "update_text E sql2 tbl asg2 cond2"
    and "matching E db tbl cond1 \<inter> matching E db tbl cond2 \<noteq> {}"
    and "has_room T (n + 3 + card (matching E db tbl cond1)) s"
  shows "\<exists>s'. results E [(''BEGIN'', c), (''BEGIN'', d), (sql1, c), (sql2, d), (''COMMIT'', c), (''COMMIT'', d)] s = Some
      ([Inr ''Transaction started'', Inr ''Transaction started'',
        Inr (''Updated '' @ show_nat (card (matching E db tbl cond1)) @ '' rows''),
        Inr (''Updated '' @ show_nat (card (matching E db tbl cond2)) @ '' rows''),
        Inr ''Transaction committed'', Inl (Msg ''Transaction conflict detected (OCC)'')], s')
    \<and> shows_tables E s' t (db\<lparr>contents :=
        set_rows tbl (matching E db tbl cond1) (\<lambda>r. Some (assign E asg1 r)) (contents db)\<rparr>)
    \<and> has_room T n s' \<and> tx_of c s' = None \<and> tx_of d s' = None"
  by (rule two_transactions [OF assms])

end
