(* ===== verification/Test_Rules.thy ===== *)
theory Test_Rules
  imports Table_Samples Engine_Snapshot
begin

text \<open>
  Programs that call \<open>execute\<close> and check the results, and rules to run them on \<open>Tables\<close>: one per
  statement, over a listing of the rows, and \<open>test_passes\<close>, which carries the run to an engine
  opened on missing files. Only the statements of the program run; the drain thread takes no
  round meanwhile.
\<close>

section \<open>Tests\<close>

text \<open>A call: the text, the connection and the assertions on the result.\<close>

type_synonym call = "str \<times> u32 \<times> (err + str \<Rightarrow> bool)"

text \<open>The result of a call as a value; a panic ends the test.\<close>

definition attempt :: "('s, 'a) act \<Rightarrow> ('s, err + 'a) act" where
  "attempt m s = (case m s of
      Some (Inl e, s') \<Rightarrow> if e = Panicked then Some (Inl e, s') else Some (Inr (Inl e), s')
    | Some (Inr x, s') \<Rightarrow> Some (Inr (Inr x), s')
    | None \<Rightarrow> None)"

fun run_calls :: "engine_env \<Rightarrow> call list \<Rightarrow> (engine, unit) act" where
  "run_calls E [] = ret ()"
| "run_calls E ((sql, c, check) # calls) = seq (attempt (execute E sql c)) (\<lambda>r.
     if check r then run_calls E calls else throw Panicked)"

text \<open>The files are removed, the engine is opened, the calls are made.\<close>

definition run_test :: "engine_env \<Rightarrow> (nat \<Rightarrow> int) \<Rightarrow> bool \<Rightarrow> call list \<Rightarrow> ((err + unit) \<times> engine) option" where
  "run_test E clock boots calls = (case engine_open E clock boots [] None of
      None \<Rightarrow> None | Some (Inl e, s) \<Rightarrow> Some (Inl e, s) | Some (Inr _, s) \<Rightarrow> run_calls E calls s)"

definition passes :: "((err + unit) \<times> engine) option \<Rightarrow> bool" where
  "passes r \<longleftrightarrow> (case r of Some (Inr _, s) \<Rightarrow> True | _ \<Rightarrow> False)"

definition quoted :: "str \<Rightarrow> str" where
  "quoted s = [CHR 0x27] @ s @ [CHR 0x27]"

definition unwraps :: "err + str \<Rightarrow> bool" where
  "unwraps r \<longleftrightarrow> \<not> isl r"

text \<open>A text that contains the first strings and none of the others.\<close>

definition contains_only :: "str list \<Rightarrow> str list \<Rightarrow> err + str \<Rightarrow> bool" where
  "contains_only yes no r \<longleftrightarrow> (case r of Inl e \<Rightarrow> False
     | Inr t \<Rightarrow> (\<forall>p \<in> set yes. contains t p) \<and> (\<forall>p \<in> set no. \<not> contains t p))"

text \<open>An error whose text contains the string.\<close>

definition fails_with :: "str \<Rightarrow> err + str \<Rightarrow> bool" where
  "fails_with p r \<longleftrightarrow> (case r of Inl (Msg m) \<Rightarrow> contains m p | _ \<Rightarrow> False)"

section \<open>Runs of calls\<close>

lemma run_calls_append: "run_calls E (xs @ ys) s = seq (run_calls E xs) (\<lambda>_. run_calls E ys) s"
proof (induction xs arbitrary: s)
  case (Cons x xs)
  obtain sql c check where x: "x = (sql, c, check)" by (cases x)
  show ?case
  proof (cases "attempt (execute E sql c) s")
    case (Some p)
    then show ?thesis using Cons by (cases p; cases "fst p") (simp_all add: x seq_def)
  qed (simp add: x seq_def)
qed simp

lemma run_results:
  "results E (map (\<lambda>(sql, c, check). (sql, c)) calls) s = Some (rs, s') \<Longrightarrow>
    list_all2 (\<lambda>(sql, c, check) r. check r \<and> r \<noteq> Inl Panicked) calls rs \<Longrightarrow> run_calls E calls s = Some (Inr (), s')"
proof (induction calls arbitrary: s rs)
  case (Cons x calls)
  obtain sql c check where x: "x = (sql, c, check)" by (cases x)
  with Cons.prems obtain r s1 rs' where r: "execute E sql c s = Some (r, s1)" "rs = r # rs'"
    "results E (map (\<lambda>(sql, c, check). (sql, c)) calls) s1 = Some (rs', s')"
    by (auto split: option.splits)
  have "attempt (execute E sql c) s = Some (Inr r, s1)"
    using r(1,2) Cons.prems(2) by (cases r) (auto simp: attempt_def x)
  with Cons.IH [OF r(3)] Cons.prems(2) r(2) show ?case by (simp add: x seq_Inr)
qed simp

text \<open>The calls whose text goes to the parser.\<close>

definition parsed_calls :: "call list \<Rightarrow> call list" where
  "parsed_calls calls = filter (\<lambda>(sql, c, check). sql \<notin> {''BEGIN'', ''COMMIT''}) calls"

section \<open>Statements\<close>

text \<open>What the parser makes of simple texts.\<close>

definition insert_into :: "str \<Rightarrow> expr list \<Rightarrow> statement" where
  "insert_into tbl es = Insert tbl (Some \<lparr>query_body = Values [es], query_limit = None\<rparr>)"

definition select_from :: "select_item list \<Rightarrow> table_with_joins \<Rightarrow> expr option \<Rightarrow> statement" where
  "select_from items tw cond = Query \<lparr>query_body = Select \<lparr>from_tables = [tw], projection = items, selection = cond\<rparr>,
     query_limit = None\<rparr>"

definition just :: "str \<Rightarrow> table_with_joins" where
  "just tbl = \<lparr>relation = Table tbl, joins = []\<rparr>"

definition text_value :: "str \<Rightarrow> expr" where
  "text_value t = Value (SingleQuotedString t)"

definition id_is :: "str \<Rightarrow> expr option" where
  "id_is t = Some (BinaryOp (Identifier ''id'') Eq (text_value t))"

definition columns_of :: "str list \<Rightarrow> (str \<times> str list) list" where
  "columns_of cs = map (\<lambda>c. (c, [])) cs"

definition parses :: "engine_env \<Rightarrow> call list \<Rightarrow> statement list \<Rightarrow> bool" where
  "parses E calls sts \<longleftrightarrow> map (\<lambda>(sql, c, check). parse_sql E sql) calls = map (\<lambda>st. Inr [st]) sts
     \<and> (\<forall>st \<in> set sts. \<not> prefix ''CALL'' (show_statement E st))"

text \<open>How sqlparser prints the expressions of the tests.\<close>

definition prints :: "engine_env \<Rightarrow> bool" where
  "prints E \<longleftrightarrow> (\<forall>n. show_value E (Number n) = n) \<and> (\<forall>t. CHR 0x27 \<notin> set t \<longrightarrow> show_value E (SingleQuotedString t) = quoted t)
     \<and> (\<forall>i. show_expr E (Identifier i) = i) \<and> (\<forall>v. show_expr E (Value v) = show_value E v)
     \<and> (\<forall>l r. show_expr E (BinaryOp l Eq r) = show_expr E l @ '' = '' @ show_expr E r)"

definition fits_small :: "engine_env \<Rightarrow> bool" where
  "fits_small E \<longleftrightarrow> (\<forall>m. length (put_list put_schema m) \<le> 450 \<longrightarrow> catalogue_fits E m)"

section \<open>Databases as lists\<close>

type_synonym listing = "((str \<times> u64) \<times> row) list"

definition listed :: "database \<Rightarrow> listing \<Rightarrow> bool" where
  "listed db kvs \<longleftrightarrow> contents db = map_of kvs \<and> distinct (map fst kvs)"

lemma listed_empty: "listed empty_database []"
  by (simp add: listed_def empty_database_def fun_eq_iff)

lemma listed_numbers: "listed db kvs \<Longrightarrow> row_numbers db tbl = {i. (tbl, i) \<in> fst ` set kvs}"
  by (auto simp: listed_def row_numbers_def map_of_eq_None_iff)

lemma listed_insert:
  assumes "listed db kvs" and "length is = length rs" and "distinct is" and "set is \<inter> row_numbers db tbl = {}"
  shows "listed \<lparr>definitions = m, contents = add_rows tbl is rs (contents db)\<rparr> (kvs @ zip (map (Pair tbl) is) rs)"
proof -
  let ?new = "zip (map (Pair tbl) is) rs"
  have keys: "map fst ?new = map (Pair tbl) is" using assms(2) by (simp add: map_fst_zip)
  have d: "distinct (map fst ?new)" unfolding keys using assms(3) by (simp add: distinct_map inj_on_def)
  have "set (map fst ?new) = Pair tbl ` set is" unfolding keys by simp
  then have disj: "set (map fst kvs) \<inter> set (map fst ?new) = {}"
    using assms(4) unfolding listed_numbers [OF assms(1)] by auto
  then have "map_of kvs ++ map_of ?new = map_of (kvs @ ?new)"
    unfolding map_of_append by (intro map_add_comm) (simp add: dom_map_of_conv_image_fst)
  then show ?thesis
    using assms(1) d disj by (auto simp: listed_def add_rows_def)
qed

definition change_listing :: "engine_env \<Rightarrow> str \<Rightarrow> expr option \<Rightarrow> (row \<Rightarrow> row option) \<Rightarrow> listing \<Rightarrow> listing" where
  "change_listing E tbl cond f kvs = List.map_filter (\<lambda>((t, i), r).
     if t = tbl \<and> meets E cond (row_at t i r) then map_option (Pair (t, i)) (f r) else Some ((t, i), r)) kvs"

lemma change_keys: "fst ` set (change_listing E tbl cond f kvs) \<subseteq> fst ` set kvs"
  by (force simp: change_listing_def List.map_filter_def split: if_splits)

lemma change_distinct: "distinct (map fst kvs) \<Longrightarrow> distinct (map fst (change_listing E tbl cond f kvs))"
proof (induction kvs)
  case (Cons kv kvs)
  obtain t i r where kv: "kv = ((t, i), r)" by (metis prod.exhaust)
  have "(t, i) \<notin> fst ` set (change_listing E tbl cond f kvs)"
    using Cons.prems change_keys [of E tbl cond f kvs] by (auto simp: kv)
  with Cons show ?case
    by (auto simp: kv change_listing_def map_filter_Cons split: option.split)
qed (simp add: change_listing_def List.map_filter_simps)

lemma change_lookup:
  "distinct (map fst kvs) \<Longrightarrow> map_of (change_listing E tbl cond f kvs) (t, i) =
    Option.bind (map_of kvs (t, i)) (\<lambda>r. if t = tbl \<and> meets E cond (row_at t i r) then f r else Some r)"
proof (induction kvs)
  case (Cons kv kvs)
  obtain t' i' r where kv: "kv = ((t', i'), r)" by (metis prod.exhaust)
  let ?c = "change_listing E tbl cond f kvs"
  have step: "change_listing E tbl cond f (kv # kvs) = (case (if t' = tbl \<and> meets E cond (row_at t' i' r)
      then map_option (Pair (t', i')) (f r) else Some ((t', i'), r)) of Some y \<Rightarrow> [y] | None \<Rightarrow> []) @ ?c"
    by (cases "f r") (simp_all add: kv change_listing_def map_filter_Cons)
  have fresh: "map_of kvs (t', i') = None" using Cons.prems by (simp add: kv map_of_eq_None_iff)
  then have "map_of ?c (t', i') = None"
    using change_keys [of E tbl cond f kvs] unfolding map_of_eq_None_iff by blast
  then show ?case
    using Cons fresh unfolding step by (cases "f r") (auto simp: kv)
qed (simp add: change_listing_def List.map_filter_simps)

lemma listed_change:
  assumes "listed db kvs"
  shows "listed (db\<lparr>contents := set_rows tbl (matching E db tbl cond) f (contents db)\<rparr>) (change_listing E tbl cond f kvs)"
proof -
  have "set_rows tbl (matching E db tbl cond) f (contents db) = map_of (change_listing E tbl cond f kvs)"
  proof
    fix x :: "str \<times> u64"
    obtain t i where x: "x = (t, i)" by (cases x)
    show "set_rows tbl (matching E db tbl cond) f (contents db) x = map_of (change_listing E tbl cond f kvs) x"
      using assms change_lookup [of kvs E tbl cond f t i]
      by (cases "map_of kvs (t, i)") (auto simp: x listed_def set_rows_def matching_def row_numbers_def full_row_def)
  qed
  then show ?thesis using assms change_distinct by (simp add: listed_def)
qed

lemma listed_rows:
  assumes "listed db kvs" and "lists db L"
  shows "mset (L tbl) = mset (map (\<lambda>((t, i), r). row_at t i r) (filter (\<lambda>kv. fst (fst kv) = tbl) kvs))"
proof -
  let ?ks = "filter (\<lambda>kv. fst (fst kv) = tbl) kvs"
  obtain "is" where "is": "distinct is" "set is = row_numbers db tbl" "L tbl = map (full_row db tbl) is"
    using assms(2) unfolding lists_def by blast
  have d: "distinct (map fst kvs)" "contents db = map_of kvs" using assms(1) by (simp_all add: listed_def)
  have "distinct ?ks" using d(1) by (simp add: distinct_map)
  moreover have "inj_on (snd \<circ> fst) (set ?ks)"
    by (rule inj_onI) (auto dest: eq_key_imp_eq_value [OF d(1)])
  ultimately have dk: "distinct (map (snd \<circ> fst) ?ks)" by (simp only: distinct_map)
  have "set is = set (map (snd \<circ> fst) ?ks)"
    unfolding "is"(2) listed_numbers [OF assms(1)] by force
  with "is"(1) dk have m: "mset is = mset (map (snd \<circ> fst) ?ks)" by (simp only: set_eq_iff_mset_eq_distinct)
  have "mset (L tbl) = image_mset (full_row db tbl) (mset is)" unfolding "is"(3) by simp
  also have "\<dots> = mset (map (full_row db tbl \<circ> (snd \<circ> fst)) ?ks)" unfolding m by (simp add: multiset.map_comp)
  also have "map (full_row db tbl \<circ> (snd \<circ> fst)) ?ks = map (\<lambda>((t, i), r). row_at t i r) ?ks"
    using d by (intro map_cong [OF refl]) (auto simp: full_row_def)
  finally show ?thesis .
qed

section \<open>Tests on tables\<close>

type_synonym checked = "statement \<times> (err + str \<Rightarrow> bool)"

text \<open>Every run of the statements passes the checks and ends in a database with \<open>Q\<close>.\<close>

fun holds_after :: "engine_env \<Rightarrow> (database \<Rightarrow> bool) \<Rightarrow> database \<Rightarrow> checked list \<Rightarrow> bool" where
  "holds_after E Q db [] \<longleftrightarrow> Q db"
| "holds_after E Q db ((st, check) # steps) \<longleftrightarrow> (\<forall>r db'. sql_step E db st r db' \<longrightarrow>
     check r \<and> r \<noteq> Inl Panicked \<and> holds_after E Q db' steps)"

text \<open>The parser reads the text of a call as the statement.\<close>

definition reads :: "engine_env \<Rightarrow> call \<Rightarrow> checked \<Rightarrow> bool" where
  "reads E call step \<longleftrightarrow> snd (snd call) = snd step \<and> to_parser E (fst call) \<and> parse_sql E (fst call) = Inr [fst step]"

lemma calls_pass:
  assumes tc: "total_codec E" and ids: "inj_on (random_id E) {..<T}"
  shows "list_all2 (reads E) calls steps \<Longrightarrow> shows_tables E s t db \<Longrightarrow> active_transactions s = [] \<Longrightarrow>
    card (dom (contents db)) \<le> m \<Longrightarrow> has_room T (n + work m (map fst steps)) s \<Longrightarrow>
    plain_statements E (definitions db) (map fst steps) \<Longrightarrow> holds_after E Q db steps \<Longrightarrow>
    \<exists>s' t' db'. run_calls E calls s = Some (Inr (), s') \<and> shows_tables E s' t' db' \<and> Q db' \<and> has_room T n s'
      \<and> active_transactions s' = []"
proof (induction calls arbitrary: steps s t db m)
  case (Cons call calls)
  obtain sql c check where call: "call = (sql, c, check)" by (cases call)
  obtain step steps' where step: "steps = step # steps'" "reads E call step" "list_all2 (reads E) calls steps'"
    using Cons.prems(1) by (auto simp: list_all2_Cons1)
  then obtain st where steps: "steps = (st, check) # steps'"
    and rd: "to_parser E sql" "parse_sql E sql = Inr [st]"
    by (cases step) (simp add: call reads_def)
  let ?w = "n + work (m + added_rows st) (map fst steps')"
  have "?w + writes (card (dom (contents db))) st \<le> n + work m (map fst steps)"
    using writes_mono [OF Cons.prems(4), of st] by (simp add: steps)
  then have rm: "has_room T (?w + writes (card (dom (contents db))) st) s" by (rule has_room_less [OF Cons.prems(5)])
  have ps: "plain_statement E (definitions db) st" using Cons.prems(6) by (simp add: steps)
  have tx: "tx_of c s = None" using Cons.prems(3) by (simp add: tx_of_def)
  obtain r s1 db1 where r: "execute E sql c s = Some (r, s1)" "sql_step E db st r db1" "left_with E T ?w s s1 db1"
    by (rule execute_one [OF tc ids Cons.prems(2) tx rm ps rd])
  from Cons.prems(7) r(2) have ok: "check r" "r \<noteq> Inl Panicked" "holds_after E Q db1 steps'" by (simp_all add: steps)
  obtain t1 where t1: "shows_tables E s1 t1 db1" "has_room T ?w s1" "active_transactions s1 = []"
    using r(3) Cons.prems(3) by (auto simp: left_with_def)
  have "card (dom (contents db1)) \<le> m + added_rows st"
    using step_card [OF r(2) contents_finite [OF Cons.prems(2)]] Cons.prems(4) by linarith
  moreover have "plain_statements E (definitions db1) (map fst steps')"
    using Cons.prems(6) by (simp add: steps step_definitions [OF r(2)])
  ultimately obtain s' t' db' where "run_calls E calls s1 = Some (Inr (), s')"
    "shows_tables E s' t' db'" "Q db'" "has_room T n s'" "active_transactions s' = []"
    using Cons.IH [OF step(3) t1(1,3) _ t1(2)] ok(3) by blast
  moreover have "attempt (execute E sql c) s = Some (Inr r, s1)"
    using r(1) ok(2) by (cases r) (simp_all add: attempt_def)
  ultimately show ?case using ok(1) by (simp add: call seq_Inr) blast
qed (simp, blast)

text \<open>
  The steps hold from every database with these definitions and rows. One rule per statement
  carries a listing of the rows through the test.
\<close>

definition always :: "engine_env \<Rightarrow> (database \<Rightarrow> bool) \<Rightarrow> (str \<times> table_schema) list \<Rightarrow> listing \<Rightarrow> checked list \<Rightarrow> bool" where
  "always E Q m kvs steps \<longleftrightarrow> (\<forall>db. listed db kvs \<longrightarrow> definitions db = m \<longrightarrow> holds_after E Q db steps)"

lemma always_done: "(\<And>db. listed db kvs \<Longrightarrow> definitions db = m \<Longrightarrow> Q db) \<Longrightarrow> always E Q m kvs []"
  by (simp add: always_def)

lemma always_create:
  assumes "always E Q (AList.update name (new_schema E name cols) m) kvs steps"
  shows "always E Q m kvs ((CreateTable name cols, unwraps) # steps)"
  unfolding always_def holds_after.simps
proof (intro allI impI)
  fix db r db' assume db: "listed db kvs" "definitions db = m" and st: "sql_step E db (CreateTable name cols) r db'"
  from st show "unwraps r \<and> r \<noteq> Inl Panicked \<and> holds_after E Q db' steps"
    by (rule step_createE) (use assms db in \<open>auto simp: always_def listed_def unwraps_def statement_error_def\<close>)
qed

lemma always_insert:
  assumes "map_of m tbl = Some sc" and "query_body q = Values [exprs]"
    and "\<And>i. (tbl, i) \<notin> fst ` set kvs \<Longrightarrow> always E Q (AList.update tbl (schema_after 1 sc) m)
      (kvs @ [((tbl, i), insert_row_data sc (next_id sc) exprs)]) steps"
  shows "always E Q m kvs ((Insert tbl (Some q), unwraps) # steps)"
  unfolding always_def holds_after.simps
proof (intro allI impI)
  fix db r db' assume db: "listed db kvs" "definitions db = m" and st: "sql_step E db (Insert tbl (Some q)) r db'"
  obtain "is" where r: "\<not> isl r" and "is": "length is = 1" "set is \<inter> row_numbers db tbl = {}"
    and db': "db' = \<lparr>definitions = AList.update tbl (schema_after 1 sc) m,
      contents = add_rows tbl is [insert_row_data sc (next_id sc) exprs] (contents db)\<rparr>"
    by (rule step_insertE [OF st]) (use assms(1,2) db(2) that in \<open>auto simp: statement_error_def\<close>)
  from "is"(1) obtain i where i: "is = [i]" by (cases "is") auto
  have "listed db' (kvs @ [((tbl, i), insert_row_data sc (next_id sc) exprs)])"
    using listed_insert [OF db(1) _ _ "is"(2), of "[insert_row_data sc (next_id sc) exprs]"] i db' by simp
  moreover have "(tbl, i) \<notin> fst ` set kvs" using "is"(2) i listed_numbers [OF db(1), of tbl] by auto
  ultimately have "holds_after E Q db' steps" using assms(3) [of i] db' by (simp add: always_def)
  with r show "unwraps r \<and> r \<noteq> Inl Panicked \<and> holds_after E Q db' steps" by (auto simp: unwraps_def)
qed

lemma always_update:
  assumes "always E Q m (change_listing E tbl cond (\<lambda>r. Some (assign E asg r)) kvs) steps"
  shows "always E Q m kvs ((Update (Table tbl) asg cond, unwraps) # steps)"
  unfolding always_def holds_after.simps
proof (intro allI impI)
  fix db r db' assume db: "listed db kvs" "definitions db = m" and st: "sql_step E db (Update (Table tbl) asg cond) r db'"
  from st show "unwraps r \<and> r \<noteq> Inl Panicked \<and> holds_after E Q db' steps"
    by (rule step_updateE)
      (use assms db listed_change [OF db(1)] in \<open>auto simp: always_def unwraps_def statement_error_def\<close>)
qed

lemma always_delete:
  assumes "always E Q m (change_listing E tbl cond (\<lambda>r. None) kvs) steps"
  shows "always E Q m kvs ((Delete (Table tbl # tfs) cond, unwraps) # steps)"
  unfolding always_def holds_after.simps
proof (intro allI impI)
  fix db r db' assume db: "listed db kvs" "definitions db = m" and st: "sql_step E db (Delete (Table tbl # tfs) cond) r db'"
  from st show "unwraps r \<and> r \<noteq> Inl Panicked \<and> holds_after E Q db' steps"
    by (rule step_deleteE)
      (use assms db listed_change [OF db(1)] in \<open>auto simp: always_def unwraps_def statement_error_def\<close>)
qed

abbreviation rows_in :: "listing \<Rightarrow> str \<Rightarrow> row list" where
  "rows_in kvs tbl \<equiv> map (\<lambda>((t, i), r). row_at t i r) (filter (\<lambda>kv. fst (fst kv) = tbl) kvs)"

lemma always_query:
  assumes "\<And>L. (\<And>tbl. mset (L tbl) = mset (rows_in kvs tbl)) \<Longrightarrow> contains_only yes no (query_text E m L q)"
    and "always E Q m kvs steps"
  shows "always E Q m kvs ((Query q, contains_only yes no) # steps)"
  unfolding always_def holds_after.simps
proof (intro allI impI)
  fix db r db' assume db: "listed db kvs" "definitions db = m" and st: "sql_step E db (Query q) r db'"
  from st show "contains_only yes no r \<and> r \<noteq> Inl Panicked \<and> holds_after E Q db' steps"
  proof (rule step_queryE)
    fix L assume L: "lists db L" and r: "r = query_text E (definitions db) L q" and db': "db' = db"
    have "contains_only yes no r" unfolding r db(2) by (rule assms(1)) (rule listed_rows [OF db(1) L])
    then show ?thesis using assms(2) db db' by (auto simp: always_def contains_only_def)
  qed (simp add: statement_error_def)
qed

definition steps_of :: "call list \<Rightarrow> statement list \<Rightarrow> checked list" where
  "steps_of calls sts = zip sts (map (\<lambda>(sql, c, check). check) calls)"

section \<open>Text columns\<close>

definition text_schema :: "str \<Rightarrow> str list \<Rightarrow> table_schema" where
  "text_schema tbl cs = \<lparr>schema_name = tbl, columns = cs, auto_increment_col = None, next_id = 1\<rparr>"

lemma text_schema_simps [simp]:
  "new_schema E tbl (columns_of cs) = text_schema tbl cs"
  "schema_after n (text_schema tbl cs) = text_schema tbl cs"
  "columns (text_schema tbl cs) = cs" "auto_increment_col (text_schema tbl cs) = None" "schema_name (text_schema tbl cs) = tbl"
proof -
  have "find (\<lambda>c. \<exists>opt \<in> set (snd c). is_auto_increment E opt) (columns_of cs) = None"
    by (auto simp: columns_of_def find_None_iff)
  moreover have "map fst (columns_of cs) = cs" by (simp add: columns_of_def comp_def)
  ultimately show "new_schema E tbl (columns_of cs) = text_schema tbl cs"
    by (simp add: new_schema_def text_schema_def)
  have "(id_after (text_schema tbl cs) ^^ n) 1 = 1" by (induction n) (simp_all add: id_after_def text_schema_def)
  then show "schema_after n (text_schema tbl cs) = text_schema tbl cs" by (simp add: schema_after_def text_schema_def)
qed (simp_all add: text_schema_def)

lemma text_row: "c1 \<noteq> c2 \<Longrightarrow> insert_row_data (text_schema tbl [c1, c2]) n [e1, e2] = [(c1, insert_value e1), (c2, insert_value e2)]"
  by (simp add: insert_row_data_def)

lemma text_value_simps [simp]: "insert_value (text_value t) = t" "insert_value (Value (Number n)) = n"
  by (simp_all add: insert_value_def text_value_def)

lemma filter_one: "mset xs = mset ys \<Longrightarrow> filter P ys = [y] \<Longrightarrow> filter P xs = [y]"
  by (metis mset_filter mset_single_iff_right mset.simps(1) mset.simps(2))

text \<open>A shown row with two columns.\<close>

definition two_cells :: "str \<Rightarrow> u64 \<Rightarrow> str \<Rightarrow> str \<Rightarrow> str \<Rightarrow> str \<Rightarrow> row" where
  "two_cells tbl i c1 v1 c2 v2 = [(''__key__'', tbl @ '':'' @ hex16 i), (c1, v1), (tbl @ ''.'' @ c1, v1),
     (c2, v2), (tbl @ ''.'' @ c2, v2)]"

definition column_name :: "str \<Rightarrow> bool" where
  "column_name c \<longleftrightarrow> CHR ''.'' \<notin> set c \<and> c \<noteq> ''__key__''"

lemma row_at_two:
  assumes "c1 \<noteq> c2" and "column_name c1" and "column_name c2"
  shows "row_at tbl i [(c1, v1), (c2, v2)] = two_cells tbl i c1 v1 c2 v2"
proof -
  have "CHR ''.'' \<in> set (tbl @ CHR ''.'' # c)" for c by simp
  moreover have "CHR ''.'' \<notin> set ''__key__''" by simp
  ultimately have "tbl @ CHR ''.'' # c \<noteq> c1" "tbl @ CHR ''.'' # c \<noteq> c2" "tbl @ CHR ''.'' # c \<noteq> ''__key__''" for c
    using assms(2,3) unfolding column_name_def by metis+
  note n = this this [symmetric]
  show ?thesis using assms by (auto simp: n row_at_def make_row_def two_cells_def column_name_def)
qed

section \<open>Queries with one row\<close>

lemma where_meets:
  "(\<And>e. cond = Some e \<Longrightarrow> \<not> contains (show_expr E e) ''VECTOR_SEARCH'') \<Longrightarrow> where_rows E cond rows = filter (meets E cond) rows"
  by (auto simp: where_rows_def meets_def [abs_def] split: option.split)

lemma always_one:
  assumes "map_of m tbl = Some sc" and "\<not> is_aggregate E items"
    and "\<And>e. cond = Some e \<Longrightarrow> \<not> contains (show_expr E e) ''VECTOR_SEARCH''"
    and "filter (meets E cond) (rows_in kvs tbl) = [y]"
    and "contains_only yes no (Inr (render_rows (with_prefix tbl sc) [y]))" and "always E Q m kvs steps"
  shows "always E Q m kvs ((select_from items (just tbl) cond, contains_only yes no) # steps)"
  unfolding select_from_def
proof (rule always_query [OF _ assms(6)])
  fix L assume L: "\<And>tbl. mset (L tbl) = mset (rows_in kvs tbl)"
  have "where_rows E cond (L tbl) = [y]"
    using where_meets [of cond E] assms(3) filter_one [OF L assms(4)] by simp
  with assms(1,2,5) show "contains_only yes no (query_text E m L \<lparr>query_body = Select \<lparr>from_tables = [just tbl],
      projection = items, selection = cond\<rparr>, query_limit = None\<rparr>)"
    by (simp add: query_text_def from_part_def just_def factor_table_def vec_get_def table_def_def render_def limit_rows_def)
qed

lemma join_mset:
  assumes "mset ls = mset ls'" and "mset rs = mset rs'" and "join_rows E jo ls' rs' = [y]"
  shows "join_rows E jo ls rs = [y]"
proof -
  have cm: "mset (concat (map (\<lambda>l. map (combine l) rs) ls)) = (\<Sum>l\<in>#mset ls. image_mset (combine l) (mset rs))" for ls rs
    by (induction ls) simp_all
  have "mset (concat (map (\<lambda>l. map (combine l) rs) ls)) = mset (concat (map (\<lambda>l. map (combine l) rs') ls'))"
    unfolding cm assms(1,2) ..
  from filter_one [OF this] assms(3) show ?thesis unfolding join_rows_def by blast
qed

lemma always_one_join:
  assumes "map_of m tbl = Some sc" and "map_of m jt = Some jsc" and "\<not> is_aggregate E items"
    and "join_rows E jo (rows_in kvs tbl) (rows_in kvs jt) = [y]"
    and "contains_only yes no (Inr (render_rows (with_prefix tbl sc @ with_prefix jt jsc) [y]))" and "always E Q m kvs steps"
  shows "always E Q m kvs ((select_from items \<lparr>relation = Table tbl, joins = [(Table jt, jo)]\<rparr> None, contains_only yes no) # steps)"
  unfolding select_from_def
proof (rule always_query [OF _ assms(6)])
  fix L assume L: "\<And>tbl. mset (L tbl) = mset (rows_in kvs tbl)"
  have "join_rows E jo (L tbl) (L jt) = [y]" by (rule join_mset [OF L L assms(4)])
  with assms(1,2,3,5) show "contains_only yes no (query_text E m L \<lparr>query_body = Select \<lparr>from_tables =
      [\<lparr>relation = Table tbl, joins = [(Table jt, jo)]\<rparr>], projection = items, selection = None\<rparr>, query_limit = None\<rparr>)"
    by (simp add: query_text_def from_part_def factor_table_def vec_get_def table_def_def render_def limit_rows_def where_rows_def)
qed

lemma always_insert_row:
  assumes "map_of m tbl = Some (text_schema tbl [c1, c2])" and "c1 \<noteq> c2"
    and "\<And>i. always E Q m (kvs @ [((tbl, i), [(c1, insert_value e1), (c2, insert_value e2)])]) steps"
  shows "always E Q m kvs ((insert_into tbl [e1, e2], unwraps) # steps)"
  unfolding insert_into_def
proof (rule always_insert [OF assms(1)])
  fix i
  have "AList.update tbl (schema_after 1 (text_schema tbl [c1, c2])) m = m"
    unfolding text_schema_simps(2) by (rule update_same [OF assms(1)])
  with assms(3) show "always E Q (AList.update tbl (schema_after 1 (text_schema tbl [c1, c2])) m) (kvs @
      [((tbl, i), insert_row_data (text_schema tbl [c1, c2]) (next_id (text_schema tbl [c1, c2])) [e1, e2])]) steps"
    by (simp only: text_row [OF assms(2)])
qed simp

lemma dotted_name:
  assumes "column_name c"
  shows "tbl @ CHR ''.'' # d \<noteq> c" and "c \<noteq> tbl @ CHR ''.'' # d" and "tbl @ CHR ''.'' # d \<noteq> ''__key__''"
proof -
  have "CHR ''.'' \<in> set (tbl @ CHR ''.'' # d)" by simp
  moreover have "CHR ''.'' \<notin> set ''__key__''" by simp
  ultimately show "tbl @ CHR ''.'' # d \<noteq> c" "c \<noteq> tbl @ CHR ''.'' # d" "tbl @ CHR ''.'' # d \<noteq> ''__key__''"
    using assms unfolding column_name_def by metis+
qed

lemma cell_two:
  assumes "c1 \<noteq> c2" and "column_name c1" and "column_name c2"
  shows "cell (two_cells tbl i c1 v1 c2 v2) (tbl @ CHR ''.'' # c1) = v1"
    and "cell (two_cells tbl i c1 v1 c2 v2) (tbl @ CHR ''.'' # c2) = v2"
  using assms dotted_name [OF assms(2)] dotted_name [OF assms(3)] by (simp_all add: cell_def two_cells_def or_else_def)

lemma render_two:
  assumes "c1 \<noteq> c2" and "column_name c1" and "column_name c2"
  shows "render_rows (with_prefix tbl (text_schema tbl [c1, c2])) [two_cells tbl i c1 v1 c2 v2]
    = header_lines [tbl @ ''.'' @ c1, tbl @ ''.'' @ c2] @ v1 @ '' | '' @ v2 @ [CHR 0x0A]"
  by (simp add: render_rows_def with_prefix_def cell_two [OF assms])

section \<open>The conditions of the tests\<close>

lemma show_value_sqlp [simp]: "show_value (sqlp E) = show_value E"
  by (simp add: sql_print.truncate_def)

lemma unquote_value: "prints E \<Longrightarrow> CHR 0x27 \<notin> set t \<Longrightarrow> unquote (show_value E (SingleQuotedString t)) = t"
  by (auto simp: prints_def unquote_def quoted_def intro: filter_True)

lemma meets_id:
  assumes "prints E" and "CHR 0x27 \<notin> set t" and "t \<noteq> []"
  shows "meets E (id_is t) (two_cells tbl i ''id'' v c n) \<longleftrightarrow> v = t"
  using assms by (simp add: meets_def id_is_def text_value_def get_data_def two_cells_def unquote_value)

lemma id_is_plain:
  assumes "prints E" and "id_is t = Some e" and "t \<in> {''1'', ''2''}"
  shows "\<not> contains (show_expr E e) ''VECTOR_SEARCH''"
  using assms by (auto simp: id_is_def prints_def text_value_def quoted_def contains_def sublist_Cons_right)

lemma assign_name: "prints E \<Longrightarrow> CHR 0x27 \<notin> set t \<Longrightarrow> assign E [(c, text_value t)] r = AList.update c t r"
  using unquote_value [of E t] by (simp add: assign_def prints_def text_value_def)

lemma change_Nil [simp]: "change_listing E tbl cond f [] = []"
  by (simp add: change_listing_def List.map_filter_simps)

lemma change_Cons [simp]: "change_listing E tbl cond f (((t, i), r) # kvs) =
    (if t = tbl \<and> meets E cond (row_at t i r) then (case f r of Some r' \<Rightarrow> [((t, i), r')] | None \<Rightarrow> [])
     else [((t, i), r)]) @ change_listing E tbl cond f kvs"
  by (cases "t = tbl") (simp_all add: change_listing_def map_filter_Cons split: option.split)

lemma meets_none [simp]: "meets E None row"
  by (simp add: meets_def)

section \<open>The tests pass\<close>

lemma calls_reach:
  assumes E: "total_codec E" "inj_on (random_id E) {..<4000000}" "posix (penv (benv E))" "node_codec (benv E)"
    and ps: "parses E calls sts" and al: "always E Q [] [] (steps_of calls sts)" and pl: "plain_statements E [] sts"
    and tp: "list_all (\<lambda>(sql, c, check). to_parser E sql) calls" and w: "work 0 sts \<le> 1000"
  obtains s s' t db where "engine_open E clock boots [] None = Some (Inr (), s)" and "run_calls E calls s = Some (Inr (), s')"
    and "shows_tables E s' t db" and "Q db" and "has_room 4000000 1000 s'" and "active_transactions s' = []"
proof -
  obtain s t where s: "engine_open E clock boots [] None = Some (Inr (), s)" "shows_tables E s t empty_database"
    "has_room 4000000 1000000 s" "active_transactions s = []"
    by (rule engine_open_shows [OF E(3,4), of 4000000 clock boots]) simp
  have len: "length calls = length sts" using ps unfolding parses_def by (metis length_map)
  then have fst: "map fst (steps_of calls sts) = sts" by (simp add: steps_of_def)
  have "list_all2 (reads E) calls (steps_of calls sts)"
    using ps tp len by (fastforce simp: list_all2_conv_all_nth steps_of_def parses_def reads_def list_all_length
        list_eq_iff_nth_eq split: prod.splits)
  moreover have "has_room 4000000 (1000 + work 0 (map fst (steps_of calls sts))) s"
    unfolding fst using w by (intro has_room_less [OF s(3)]) simp
  moreover have "holds_after E Q empty_database (steps_of calls sts)"
    using al listed_empty by (simp add: always_def empty_database_def)
  ultimately show ?thesis
    using calls_pass [OF E(1,2) _ s(2,4), of calls "steps_of calls sts" 0 1000 Q] pl that [OF s(1)] unfolding fst
    by (auto simp: empty_database_def)
qed

lemma test_passes:
  assumes "total_codec E" and "inj_on (random_id E) {..<4000000}" and "posix (penv (benv E))" and "node_codec (benv E)"
    and "parses E calls sts" and "always E (\<lambda>_. True) [] [] (steps_of calls sts)" and "plain_statements E [] sts"
    and "list_all (\<lambda>(sql, c, check). to_parser E sql) calls" and "work 0 sts \<le> 1000"
  shows "passes (run_test E clock boots calls)"
  by (rule calls_reach [OF assms, of clock boots]) (simp add: run_test_def passes_def)

section \<open>Texts and catalogues of tests\<close>

definition statement_text :: "str \<Rightarrow> bool" where
  "statement_text sql \<longleftrightarrow> ascii sql \<and> sql \<noteq> [] \<and> hd sql \<notin> set blanks \<and> last sql \<notin> set blanks
     \<and> map ascii_upper (take 3 sql) \<notin> {''FLU'', ''SEA'', ''BEG'', ''COM'', ''ROL''}"

lemma statement_text_parser: "statement_text sql \<Longrightarrow> to_parser E sql"
  by (auto simp: statement_text_def intro: to_parserI)

lemma plain_other:
  "\<not> prefix ''CALL'' (show_statement E st) \<Longrightarrow> (case st of Insert tbl q \<Rightarrow> True | Query q \<Rightarrow> True | Delete tfs cond \<Rightarrow> True
    | Update tf asg cond \<Rightarrow> ''__key__'' \<notin> fst ` set asg | _ \<Rightarrow> False) \<Longrightarrow> plain_statement E m st"
  by (auto simp: plain_statement_def split: statement.splits)

lemma plain_create:
  "\<not> prefix ''CALL'' (show_statement E (CreateTable name (columns_of cs))) \<Longrightarrow> fits_small E \<Longrightarrow> plain name \<Longrightarrow>
    ''__key__'' \<notin> set cs \<Longrightarrow> length (put_list put_schema (AList.update name (text_schema name cs) m)) \<le> 450 \<Longrightarrow>
    plain_statement E m (CreateTable name (columns_of cs))"
  by (simp add: plain_statement_def schema_ok_def fits_small_def)

lemma after_create [simp]:
  "definitions_after E m (CreateTable name (columns_of cs)) = AList.update name (text_schema name cs) m"
  by (simp add: definitions_after_def)

lemma after_insert:
  "map_of m tbl = Some (text_schema tbl cs) \<Longrightarrow> definitions_after E m (insert_into tbl es) = m"
  by (simp add: definitions_after_def insert_into_def update_same)

lemma after_other [simp]:
  "definitions_after E m (select_from items tw cond) = m" "definitions_after E m (Update tf asg cond) = m"
  "definitions_after E m (Delete tfs cond) = m"
  by (simp_all add: definitions_after_def select_from_def)

lemma catalogue_size: "length (put_schema (name, text_schema tbl cs))
    = 33 + length name + length tbl + sum_list (map (\<lambda>c. 8 + length c) cs)"
proof -
  have "length (concat (map put_text cs)) = sum_list (map (\<lambda>c. 8 + length c) cs)"
    by (induction cs) (simp_all add: put_text_def put_vec_def)
  then show ?thesis by (simp add: put_schema_def text_schema_def put_text_def put_vec_def put_list_def put_word_def)
qed

end
