(* ===== verification/Unit_Tests.thy ===== *)
theory Unit_Tests
  imports Test_Rules
begin

text \<open>
  The four tests of \<open>src/src/parser/mod.rs\<close>: the texts they execute, the statements the parser
  makes of them, and the proof that they pass. \<open>test_mvcc_occ\<close> runs two transactions and rests
  on \<open>two_transactions\<close>; the others run on the rules of \<open>Test_Rules\<close>.
\<close>

section \<open>Tests\<close>

definition test_engine_sql :: "call list" where
  "test_engine_sql =
    [(''CREATE TABLE users (id INT, name TEXT)'', 0, unwraps),
     (''INSERT INTO users VALUES (1, '' @ quoted ''Alice'' @ '')'', 0, unwraps),
     (''SELECT * FROM users'', 0, contains_only [''Alice''] [])]"

definition test_where_clause_dml :: "call list" where
  "test_where_clause_dml =
    [(''CREATE TABLE users (id TEXT, name TEXT)'', 1, unwraps),
     (''INSERT INTO users VALUES ('' @ quoted ''1'' @ '', '' @ quoted ''Alice'' @ '')'', 1, unwraps),
     (''INSERT INTO users VALUES ('' @ quoted ''2'' @ '', '' @ quoted ''Bob'' @ '')'', 1, unwraps),
     (''UPDATE users SET name = '' @ quoted ''Alicia'' @ '' WHERE id = '' @ quoted ''1'', 1, unwraps),
     (''SELECT name FROM users WHERE id = '' @ quoted ''1'', 1, contains_only [''Alicia''] []),
     (''SELECT name FROM users WHERE id = '' @ quoted ''2'', 1, contains_only [''Bob''] [''Alicia'']),
     (''DELETE FROM users WHERE id = '' @ quoted ''2'', 1, unwraps),
     (''SELECT * FROM users'', 1, contains_only [''Alicia''] [''Bob''])]"

definition test_join_constraints :: "call list" where
  "test_join_constraints =
    [(''CREATE TABLE a (id TEXT, val TEXT)'', 1, unwraps),
     (''CREATE TABLE b (id TEXT, info TEXT)'', 1, unwraps),
     (''INSERT INTO a VALUES ('' @ quoted ''1'' @ '', '' @ quoted ''A1'' @ '')'', 1, unwraps),
     (''INSERT INTO a VALUES ('' @ quoted ''2'' @ '', '' @ quoted ''A2'' @ '')'', 1, unwraps),
     (''INSERT INTO b VALUES ('' @ quoted ''1'' @ '', '' @ quoted ''B1'' @ '')'', 1, unwraps),
     (''INSERT INTO b VALUES ('' @ quoted ''3'' @ '', '' @ quoted ''B3'' @ '')'', 1, unwraps),
     (''SELECT a.id, a.val, b.info FROM a JOIN b ON a.id = b.id'', 1, contains_only [''A1'', ''B1''] [''A2'', ''B3''])]"

definition test_mvcc_setup :: "call list" where
  "test_mvcc_setup =
    [(''CREATE TABLE accounts (id INT, balance TEXT)'', 0, unwraps),
     (''INSERT INTO accounts VALUES (1, '' @ quoted ''100'' @ '')'', 0, unwraps)]"

definition update_balance :: "str \<Rightarrow> str" where
  "update_balance v = ''UPDATE accounts SET balance = '' @ quoted v @ '' WHERE id = 1''"

definition test_mvcc_occ :: "call list" where
  "test_mvcc_occ = test_mvcc_setup @
    [(''BEGIN'', 1, unwraps), (''BEGIN'', 2, unwraps),
     (update_balance ''200'', 1, unwraps), (update_balance ''300'', 2, unwraps),
     (''COMMIT'', 1, unwraps), (''COMMIT'', 2, fails_with ''conflict'')]"

section \<open>The statements of the tests\<close>

definition engine_sql_statements :: "statement list" where
  "engine_sql_statements =
    [CreateTable ''users'' (columns_of [''id'', ''name'']),
     insert_into ''users'' [Value (Number ''1''), text_value ''Alice''],
     select_from [Other_item] (just ''users'') None]"

definition where_clause_dml_statements :: "statement list" where
  "where_clause_dml_statements =
    [CreateTable ''users'' (columns_of [''id'', ''name'']),
     insert_into ''users'' [text_value ''1'', text_value ''Alice''],
     insert_into ''users'' [text_value ''2'', text_value ''Bob''],
     Update (Table ''users'') [(''name'', text_value ''Alicia'')] (id_is ''1''),
     select_from [UnnamedExpr (Identifier ''name'')] (just ''users'') (id_is ''1''),
     select_from [UnnamedExpr (Identifier ''name'')] (just ''users'') (id_is ''2''),
     Delete [Table ''users''] (id_is ''2''),
     select_from [Other_item] (just ''users'') None]"

definition on_ids :: expr where
  "on_ids = BinaryOp (CompoundIdentifier ''a'' [''id'']) Eq (CompoundIdentifier ''b'' [''id''])"

definition join_constraints_statements :: "statement list" where
  "join_constraints_statements =
    [CreateTable ''a'' (columns_of [''id'', ''val'']),
     CreateTable ''b'' (columns_of [''id'', ''info'']),
     insert_into ''a'' [text_value ''1'', text_value ''A1''],
     insert_into ''a'' [text_value ''2'', text_value ''A2''],
     insert_into ''b'' [text_value ''1'', text_value ''B1''],
     insert_into ''b'' [text_value ''3'', text_value ''B3''],
     select_from (map (\<lambda>(t, c). UnnamedExpr (CompoundIdentifier t [c])) [(''a'', ''id''), (''a'', ''val''), (''b'', ''info'')])
       \<lparr>relation = Table ''a'', joins = [(Table ''b'', Inner_On on_ids)]\<rparr> None]"

definition id_one :: "expr option" where
  "id_one = Some (BinaryOp (Identifier ''id'') Eq (Value (Number ''1'')))"

definition set_balance :: "str \<Rightarrow> statement" where
  "set_balance v = Update (Table ''accounts'') [(''balance'', text_value v)] id_one"

definition mvcc_setup_statements :: "statement list" where
  "mvcc_setup_statements =
    [CreateTable ''accounts'' (columns_of [''id'', ''balance'']),
     insert_into ''accounts'' [Value (Number ''1''), text_value ''100'']]"

definition mvcc_occ_statements :: "statement list" where
  "mvcc_occ_statements = mvcc_setup_statements @ [set_balance ''200'', set_balance ''300'']"

lemma always_engine_sql:
  "always E (\<lambda>_. True) [] [] (steps_of test_engine_sql engine_sql_statements)"
  unfolding steps_of_def test_engine_sql_def engine_sql_statements_def
  apply simp
  apply (rule always_create)
  apply (rule always_insert_row)
    apply simp
   apply simp
  apply (rule always_one [OF _ _ _ _ _ always_done [OF TrueI]])
  apply simp
  apply (simp add: is_aggregate_def)
  apply simp
  apply (simp add: row_at_two column_name_def meets_def; fail)
  apply (simp add: render_two column_name_def)
  apply (simp add: header_lines_def)
  apply (simp add: contains_only_def contains_def sublist_Cons_right)
  done

lemma always_where_clause_dml:
  assumes "prints E"
  shows "always E (\<lambda>_. True) [] [] (steps_of test_where_clause_dml where_clause_dml_statements)"
proof -
  note [simp] = row_at_two column_name_def meets_id [OF assms] assign_name [OF assms] render_two header_lines_def
    is_aggregate_def
  note plain = id_is_plain [OF assms]
  show ?thesis
  unfolding steps_of_def test_where_clause_dml_def where_clause_dml_statements_def
  apply simp
  apply (rule always_create)
  apply (rule always_insert_row, simp, simp)
  apply (rule always_insert_row, simp, simp)
  apply (rule always_update)
  apply (rule always_one, simp, simp, erule plain, simp, simp)
   apply (simp add: contains_only_def contains_def sublist_Cons_right)
  apply (rule always_one, simp, simp, erule plain, simp, simp)
   apply (simp add: contains_only_def contains_def sublist_Cons_right)
  apply (rule always_delete)
  apply (rule always_one, simp, simp, simp, simp)
   apply (simp add: contains_only_def contains_def sublist_Cons_right)
  apply (rule always_done, rule TrueI)
  done
qed


lemma combine_two:
  "combine (two_cells ''a'' i ''id'' v ''val'' w) (two_cells ''b'' j ''id'' x ''info'' y) =
    [(''__key__'', ''b:'' @ hex16 j), (''id'', x), (''a.id'', v), (''val'', w), (''a.val'', w), (''b.id'', x),
     (''info'', y), (''b.info'', y)]"
  by (simp add: combine_def two_cells_def)

lemma always_join_constraints:
  "always E (\<lambda>_. True) [] [] (steps_of test_join_constraints join_constraints_statements)"
proof -
  note [simp] = row_at_two column_name_def render_two header_lines_def is_aggregate_def
  show ?thesis
  unfolding steps_of_def test_join_constraints_def join_constraints_statements_def
  apply simp
  apply (rule always_create)
  apply (rule always_create)
  apply (rule always_insert_row, simp, simp)
  apply (rule always_insert_row, simp, simp)
  apply (rule always_insert_row, simp, simp)
  apply (rule always_insert_row, simp, simp)
  apply (rule always_one_join, simp, simp, simp)
  apply (simp add: join_rows_def on_ids_def get_data_def combine_two)
   apply (simp add: contains_only_def contains_def sublist_Cons_right render_rows_def with_prefix_def cell_def or_else_def)
  apply (rule always_done, rule TrueI)
  done
qed


text \<open>The database after the first two calls.\<close>

definition one_account :: "database \<Rightarrow> bool" where
  "one_account db \<longleftrightarrow> (\<exists>i. listed db [((''accounts'', i), [(''id'', ''1''), (''balance'', ''100'')])])"

lemma always_setup: "always E one_account [] [] (steps_of test_mvcc_setup mvcc_setup_statements)"
  unfolding steps_of_def test_mvcc_setup_def mvcc_setup_statements_def
  apply simp
  apply (rule always_create)
  apply (rule always_insert_row, simp, simp)
  apply (rule always_done, auto simp: one_account_def)
  done

lemma account_matches:
  assumes "prints E" and "one_account db"
  obtains i where "matching E db ''accounts'' id_one = {i}"
proof -
  obtain i where l: "listed db [((''accounts'', i), [(''id'', ''1''), (''balance'', ''100'')])]"
    using assms(2) by (auto simp: one_account_def)
  then have c: "contents db = [(''accounts'', i) \<mapsto> [(''id'', ''1''), (''balance'', ''100'')]]" by (simp add: listed_def)
  have "meets E id_one (row_at ''accounts'' i [(''id'', ''1''), (''balance'', ''100'')])"
    using assms(1) by (simp add: row_at_two column_name_def two_cells_def meets_def id_one_def get_data_def prints_def
        unquote_def)
  then have "matching E db ''accounts'' id_one = {i}"
    by (auto simp: matching_def row_numbers_def full_row_def c)
  with that show ?thesis by blast
qed

lemmas mvcc_parse = parses_def parsed_calls_def test_mvcc_occ_def test_mvcc_setup_def mvcc_occ_statements_def
  mvcc_setup_statements_def update_balance_def

lemma mvcc_update:
  assumes "parses E (parsed_calls test_mvcc_occ) mvcc_occ_statements" and "v \<in> {''200'', ''300''}"
  shows "update_text E (update_balance v) ''accounts'' [(''balance'', text_value v)] id_one"
proof -
  have "to_parser E (update_balance v)"
    using assms(2) by (intro statement_text_parser)
      (auto simp: statement_text_def update_balance_def quoted_def ascii_def blanks_def ascii_upper_def)
  moreover have "parse_sql E (update_balance v) = Inr [set_balance v]" using assms by (auto simp: mvcc_parse)
  moreover have "\<not> prefix ''CALL'' (show_statement E (set_balance v))"
    using assms by (auto simp: parses_def mvcc_occ_statements_def)
  ultimately show ?thesis by (simp add: update_text_def set_balance_def)
qed

text \<open>The first two calls, and the state they leave.\<close>

lemma account_ready:
  assumes E: "total_codec E" "inj_on (random_id E) {..<4000000}" "posix (penv (benv E))" "node_codec (benv E)"
    and "fits_small E" and "parses E (parsed_calls test_mvcc_occ) mvcc_occ_statements"
  obtains s s1 t db where "engine_open E clock boots [] None = Some (Inr (), s)"
    and "run_calls E test_mvcc_setup s = Some (Inr (), s1)" and "shows_tables E s1 t db" and "one_account db"
    and "has_room 4000000 1000 s1" and "active_transactions s1 = []"
proof -
  have ps: "parses E test_mvcc_setup mvcc_setup_statements" using assms(6) by (auto simp: mvcc_parse)
  have pl: "plain_statements E [] mvcc_setup_statements"
    using assms(5) ps by (simp add: parses_def mvcc_setup_statements_def plain_create plain_other
        after_insert plain_def ascii_def catalogue_size put_list_def insert_into_def)
  have tp: "list_all (\<lambda>(sql, c, check). to_parser E sql) test_mvcc_setup"
    by (simp add: test_mvcc_setup_def)
      (intro conjI statement_text_parser; simp add: statement_text_def quoted_def ascii_def blanks_def ascii_upper_def)
  have w: "work 0 mvcc_setup_statements \<le> 1000"
    by (simp add: mvcc_setup_statements_def insert_into_def writes_def added_rows_def)
  show ?thesis by (rule calls_reach [OF E ps always_setup pl tp w, of clock boots]) (rule that)
qed

lemma mvcc_ready:
  assumes E: "total_codec E" "inj_on (random_id E) {..<4000000}" "posix (penv (benv E))" "node_codec (benv E)"
    and "prints E" and "fits_small E" and "parses E (parsed_calls test_mvcc_occ) mvcc_occ_statements"
  obtains s s1 t db i where "engine_open E clock boots [] None = Some (Inr (), s)"
    and "run_calls E test_mvcc_setup s = Some (Inr (), s1)" and "shows_tables E s1 t db"
    and "has_room 4000000 1000 s1" and "matching E db ''accounts'' id_one = {i}"
proof -
  obtain s s1 t db where s: "engine_open E clock boots [] None = Some (Inr (), s)" "run_calls E test_mvcc_setup s = Some (Inr (), s1)"
    "shows_tables E s1 t db" "one_account db" "has_room 4000000 1000 s1" "active_transactions s1 = []"
    by (rule account_ready [OF E assms(6,7), of clock boots])
  show ?thesis by (rule account_matches [OF assms(5) s(4)]) (rule that [OF s(1-3,5)])
qed

definition mvcc_results :: "(err + str) list" where
  "mvcc_results = [Inr ''Transaction started'', Inr ''Transaction started'', Inr (''Updated '' @ show_nat 1 @ '' rows''),
     Inr (''Updated '' @ show_nat 1 @ '' rows''), Inr ''Transaction committed'',
     Inl (Msg ''Transaction conflict detected (OCC)'')]"

definition mvcc_calls :: "(str \<times> u32) list" where
  "mvcc_calls = [(''BEGIN'', 1), (''BEGIN'', 2), (update_balance ''200'', 1), (update_balance ''300'', 2),
     (''COMMIT'', 1), (''COMMIT'', 2)]"

lemma mvcc_occ_passes:
  assumes E: "total_codec E" "inj_on (random_id E) {..<4000000}" "posix (penv (benv E))" "node_codec (benv E)"
    and "prints E" and "fits_small E" and ps: "parses E (parsed_calls test_mvcc_occ) mvcc_occ_statements"
  shows "passes (run_test E clock boots test_mvcc_occ)"
proof -
  obtain s s1 t db i where s: "engine_open E clock boots [] None = Some (Inr (), s)"
    "run_calls E test_mvcc_setup s = Some (Inr (), s1)" "shows_tables E s1 t db"
    "has_room 4000000 1000 s1" "matching E db ''accounts'' id_one = {i}"
    by (rule mvcc_ready [OF assms, of clock boots])
  let ?M = "matching E db ''accounts'' id_one"
  have ne: "(1 :: u32) \<noteq> 2" "?M \<inter> ?M \<noteq> {}" using s(5) by simp_all
  have rm: "has_room 4000000 (0 + 3 + card ?M) s1" by (rule has_room_less [OF s(4)]) (simp add: s(5))
  from two_transactions [OF E(1) s(3) ne(1) mvcc_update [OF ps] mvcc_update [OF ps] ne(2) rm, of "''200''" "''300''"]
  obtain s2 where res: "results E mvcc_calls s1 = Some (mvcc_results, s2)"
    using s(5) by (auto simp: mvcc_calls_def mvcc_results_def)
  have "run_calls E (drop 2 test_mvcc_occ) s1 = Some (Inr (), s2)"
    by (rule run_results [where rs = mvcc_results])
      (use res in \<open>simp_all add: mvcc_results_def mvcc_calls_def test_mvcc_occ_def test_mvcc_setup_def unwraps_def
        fails_with_def contains_def sublist_Cons_right\<close>)
  then have "run_calls E test_mvcc_occ s = Some (Inr (), s2)"
    using run_calls_append [of E test_mvcc_setup "drop 2 test_mvcc_occ" s] s(2)
    by (simp add: test_mvcc_occ_def test_mvcc_setup_def seq_Inr)
  with s(1) show ?thesis by (simp add: run_test_def passes_def)
qed

lemma texts_to_parser:
  assumes "calls \<in> {test_engine_sql, test_where_clause_dml, test_join_constraints}"
  shows "list_all (\<lambda>(sql, c, check). to_parser E sql) calls"
proof -
  have "list_all (\<lambda>(sql, c, check). statement_text sql) calls"
    using assms
    by (auto simp: test_engine_sql_def test_where_clause_dml_def test_join_constraints_def statement_text_def
        quoted_def ascii_def blanks_def ascii_upper_def)
  then show ?thesis by (rule list.pred_mono_strong) (auto intro: statement_text_parser)
qed

lemma tests_plain:
  assumes "fits_small E" and "\<forall>st \<in> set sts. \<not> prefix ''CALL'' (show_statement E st)"
    and "sts \<in> {engine_sql_statements, where_clause_dml_statements, join_constraints_statements}"
  shows "plain_statements E [] sts"
proof -
  note [simp] = after_insert plain_def ascii_def catalogue_size put_list_def
  note sts = engine_sql_statements_def where_clause_dml_statements_def join_constraints_statements_def
  from assms(3) consider "sts = engine_sql_statements" | "sts = where_clause_dml_statements"
    | "sts = join_constraints_statements" by blast
  then show ?thesis
  proof cases
    case 1
    show ?thesis
      using assms(1,2) unfolding 1 sts by (simp add: plain_create plain_other insert_into_def select_from_def)
  next
    case 2
    show ?thesis
      using assms(1,2) unfolding 2 sts by (simp add: plain_create plain_other insert_into_def select_from_def)
  next
    case 3
    show ?thesis
      using assms(1,2) unfolding 3 sts by (simp add: plain_create plain_other insert_into_def select_from_def)
  qed
qed

lemma three_pass:
  assumes "total_codec E" and "inj_on (random_id E) {..<4000000}" and "posix (penv (benv E))" and "node_codec (benv E)"
    and "prints E" and "fits_small E"
    and "(calls, sts) \<in> {(test_engine_sql, engine_sql_statements), (test_where_clause_dml, where_clause_dml_statements),
      (test_join_constraints, join_constraints_statements)}"
    and "parses E calls sts"
  shows "passes (run_test E clock boots calls)"
proof (rule test_passes [OF assms(1-4,8)])
  show "always E (\<lambda>_. True) [] [] (steps_of calls sts)"
    using assms(7) always_engine_sql always_where_clause_dml [OF assms(5)] always_join_constraints by auto
  show "plain_statements E [] sts" using assms(7,8) by (intro tests_plain [OF assms(6)]) (auto simp: parses_def)
  show "list_all (\<lambda>(sql, c, check). to_parser E sql) calls" using assms(7) by (intro texts_to_parser) auto
  show "work 0 sts \<le> 1000"
    using assms(7) by (auto simp: engine_sql_statements_def where_clause_dml_statements_def join_constraints_statements_def
        insert_into_def select_from_def writes_def added_rows_def)
qed

definition tests :: "(call list \<times> statement list) set" where
  "tests = {(test_engine_sql, engine_sql_statements), (test_where_clause_dml, where_clause_dml_statements),
     (test_join_constraints, join_constraints_statements), (test_mvcc_occ, mvcc_occ_statements)}"

lemma parsed_simps:
  "parsed_calls test_engine_sql = test_engine_sql" "parsed_calls test_where_clause_dml = test_where_clause_dml"
  "parsed_calls test_join_constraints = test_join_constraints"
  by (simp_all add: parsed_calls_def test_engine_sql_def test_where_clause_dml_def test_join_constraints_def)

text \<open>
  C8 (the repository's tests pass): run on an engine opened on missing files, each of the four
  tests of \<open>src/src/parser/mod.rs\<close> ends without a panic: no call is stuck, every \<open>unwrap\<close>
  succeeds, every assertion on a printed table holds, and in the test of concurrent
  transactions the second COMMIT fails with an error that contains "conflict". This holds for
  every file system, bincode and parser with these properties: pages and records are read back
  as written, a catalogue of up to 450 bytes fits a leaf, random numbers are distinct, values
  and conditions are printed as sqlparser prints them, and the texts are parsed as the
  statements they spell.
\<close>

theorem unit_tests_pass:
  assumes "total_codec E" and "inj_on (random_id E) {..<4000000}" and "posix (penv (benv E))" and "node_codec (benv E)"
    and "prints E" and "fits_small E" and "(calls, sts) \<in> tests" and "parses E (parsed_calls calls) sts"
  shows "passes (run_test E clock boots calls)"
proof (cases "calls = test_mvcc_occ \<and> sts = mvcc_occ_statements")
  case True
  with mvcc_occ_passes [OF assms(1-6)] assms(8) show ?thesis by simp
next
  case False
  with assms(7) have "(calls, sts) \<in> {(test_engine_sql, engine_sql_statements),
      (test_where_clause_dml, where_clause_dml_statements), (test_join_constraints, join_constraints_statements)}"
    unfolding tests_def by blast
  with three_pass [OF assms(1-6) this] assms(8) show ?thesis by (auto simp: parsed_simps)
qed

definition test_parser :: "str \<Rightarrow> err + statement list" where
  "test_parser sql = (case map_of (zip
       (map fst (test_engine_sql @ test_where_clause_dml @ test_join_constraints @ parsed_calls test_mvcc_occ))
       (engine_sql_statements @ where_clause_dml_statements @ join_constraints_statements @ mvcc_occ_statements)) sql of
     Some st \<Rightarrow> Inr [st] | None \<Rightarrow> Inl (Msg ''Unknown text''))"

abbreviation TE :: engine_env where
  "TE \<equiv> table_env test_parser"

lemma printed_value: "printed (Value v) = (case v of Number n \<Rightarrow> n
    | SingleQuotedString s \<Rightarrow> [CHR 0x27] @ s @ [CHR 0x27] | Other_value s \<Rightarrow> s)"
  by (cases v) simp_all

lemma test_env: "prints TE" "fits_small TE"
  by (simp_all add: prints_def fits_small_def table_fits quoted_def printed_value)
    (simp add: table_env_def sample_engine_env_def)

lemma test_parses:
  "parses TE (parsed_calls test_engine_sql) engine_sql_statements"
  "parses TE (parsed_calls test_where_clause_dml) where_clause_dml_statements"
  "parses TE (parsed_calls test_join_constraints) join_constraints_statements"
  "parses TE (parsed_calls test_mvcc_occ) mvcc_occ_statements"
  by (simp_all add: parses_def parsed_calls_def test_parser_def test_engine_sql_def engine_sql_statements_def
      test_where_clause_dml_def where_clause_dml_statements_def test_join_constraints_def join_constraints_statements_def
      test_mvcc_occ_def test_mvcc_setup_def mvcc_occ_statements_def mvcc_setup_statements_def update_balance_def
      quoted_def insert_into_def select_from_def set_balance_def)

lemma TE_ok: "total_codec TE" "inj_on (random_id TE) {..<4000000}" "posix (penv (benv TE))" "node_codec (benv TE)"
  using total_codec_table drawn_ids by simp_all

theorem unit_tests_pass_witness:
  "passes (run_test TE (\<lambda>_. 0) True test_engine_sql) \<and> passes (run_test TE (\<lambda>_. 0) True test_where_clause_dml)
    \<and> passes (run_test TE (\<lambda>_. 0) True test_join_constraints) \<and> passes (run_test TE (\<lambda>_. 0) True test_mvcc_occ)"
  using unit_tests_pass [OF TE_ok test_env _ test_parses(1)] unit_tests_pass [OF TE_ok test_env _ test_parses(2)]
    unit_tests_pass [OF TE_ok test_env _ test_parses(3)] unit_tests_pass [OF TE_ok test_env _ test_parses(4)]
  by (simp add: tests_def)

theorem first_committer_wins_witness:
  "\<exists>s s1 s2. engine_open TE (\<lambda>_. 0) True [] None = Some (Inr (), s) \<and> run_calls TE test_mvcc_setup s = Some (Inr (), s1)
    \<and> results TE mvcc_calls s1 = Some (mvcc_results, s2)"
proof -
  obtain s s1 t db i where s: "engine_open TE (\<lambda>_. 0) True [] None = Some (Inr (), s)"
    "run_calls TE test_mvcc_setup s = Some (Inr (), s1)" "shows_tables TE s1 t db"
    "has_room 4000000 1000 s1" "matching TE db ''accounts'' id_one = {i}"
    by (rule mvcc_ready [OF TE_ok test_env test_parses(4), of "\<lambda>_. 0" True])
  let ?M = "matching TE db ''accounts'' id_one"
  have ne: "(1 :: u32) \<noteq> 2" "?M \<inter> ?M \<noteq> {}" using s(5) by simp_all
  have rm: "has_room 4000000 (0 + 3 + card ?M) s1" by (rule has_room_less [OF s(4)]) (simp add: s(5))
  note up = mvcc_update [OF test_parses(4)]
  from first_committer_wins [OF TE_ok(1) s(3) ne(1) up up ne(2) rm, of "''200''" "''300''"] s(1,2,5)
  show ?thesis by (auto simp: mvcc_calls_def mvcc_results_def)
qed

end
