(* ===== verification/Engine_Undo.thy ===== *)
theory Engine_Undo
  imports Unit_Tests
begin

text \<open>
  What \<open>undo\<close> and \<open>redo\<close> do to the tables: they move the version at which the tables are read.
  An UPDATE or DELETE overwrites the records of its rows under newer versions, so lowering the
  version again hides these rows; it does not bring their old contents back.
\<close>

section \<open>Repeated undo and redo\<close>

fun repeated :: "nat \<Rightarrow> (engine, unit) act \<Rightarrow> (engine, unit) act" where
  "repeated 0 m = ret ()"
| "repeated (Suc n) m = seq m (\<lambda>_. repeated n m)"

lemma repeated_undo:
  "n \<le> unat (current_version s) \<Longrightarrow>
    repeated n undo s = Some (Inr (), s\<lparr>current_version := current_version s - of_nat n\<rparr>)"
proof (induction n arbitrary: s)
  case (Suc n)
  then have pos: "0 < current_version s" by (simp add: word_less_nat_alt)
  then have "unat (current_version s - 1) = unat (current_version s) - 1"
    by (intro unat_minus_one) auto
  with Suc pos show ?case by (simp add: undo_def seq_def)
qed simp

lemma repeated_redo: "repeated n redo s = Some (Inr (), s\<lparr>current_version := current_version s + of_nat n\<rparr>)"
  by (induction n arbitrary: s) (simp_all add: redo_def seq_def)

section \<open>Scans after an undo\<close>

text \<open>A scan of any table at the current version lists its rows in the database.\<close>

definition scans_as :: "engine_env \<Rightarrow> engine \<Rightarrow> database \<Rightarrow> bool" where
  "scans_as E s db \<longleftrightarrow> (\<exists>L. lists db L \<and> (\<forall>tbl. \<exists>s'. scan_table E tbl (current_version s) s = Some (Inr (L tbl), s')))"

lemma scans_listed:
  assumes "stored E s t" and "lists db (stored_rows E (current_version s) s t)"
    and "\<And>tbl. rows_readable E (current_version s) s t tbl"
  shows "scans_as E s db"
proof -
  have "\<exists>s'. scan_table E tbl (current_version s) s = Some (Inr (stored_rows E (current_version s) s t tbl), s')" for tbl
    by (rule table_scan_sim [OF assms(1,3)]) blast
  with assms(2) show ?thesis unfolding scans_as_def by blast
qed

lemma shown_scans: "shows_tables E s t db \<Longrightarrow> scans_as E s db"
  by (rule scans_listed [OF shownD(1) tables_listed tables_readable])

text \<open>The database without some rows of a table.\<close>

definition without_rows :: "str \<Rightarrow> u64 set \<Rightarrow> database \<Rightarrow> database" where
  "without_rows tbl I db = db\<lparr>contents := (\<lambda>(t, i). if t = tbl \<and> i \<in> I then None else contents db (t, i))\<rparr>"

lemma rows_filter: "(\<And>x. x \<in> set xs \<Longrightarrow> \<not> P x \<Longrightarrow> f x = None) \<Longrightarrow>
    List.map_filter f xs = List.map_filter f (filter P xs)"
  by (induction xs) (auto simp: map_filter_Cons List.map_filter_simps split: option.split)

lemma newer_hidden:
  fixes v :: u64
  assumes "unat v + n < 2 ^ 64" and "j \<in> {1..n}"
  shows "\<not> v + of_nat j \<le> v"
proof -
  have "unat (v + of_nat j) = unat v + j" using version_le(3) [of v j j] assms by simp
  then show ?thesis using assms(2) by (simp add: word_le_nat_alt)
qed

lemma undone_scans:
  assumes sh: "shows_tables E s t db" and st: "stored E s' t" and wr: "written E change s t ks s'"
    and ks: "set ks = row_key tbl ` I" "I \<subseteq> row_numbers db tbl" and v: "unat (current_version s) + length ks < 2 ^ 64"
  shows "scans_as E (s'\<lparr>current_version := current_version s\<rparr>) (without_rows tbl I db)"
proof -
  let ?v = "current_version s" and ?u = "s'\<lparr>current_version := current_version s\<rparr>"
  let ?es = "filter (\<lambda>kv. fst kv \<notin> set ks) (cached_entries s')"
  have su: "stored E ?u t" by (rule stored_tree [OF st]) simp
  have old: "(k, d) \<in> set ?es \<longleftrightarrow> (k, d) \<in> set (cached_entries s) \<and> k \<notin> set ks" for k d
    using wr cached_lookup [OF st] cached_lookup [OF shownD(1) [OF sh]] by (auto simp: written_def)
  have entry: "row_entry E (ticks s) ?v kv" if "kv \<in> set ?es" for kv
    using that old [of "fst kv" "snd kv"] shownD(6) [OF sh] by simp
  have hidden: "visible_row E tb ?v k d = Inr None" if kd: "(k, d) \<in> set (cached_entries s')" "k \<in> set ks" for tb k d
  proof -
    have l: "mt_lookup (tier s') k = Some d" using kd(1) cached_lookup [OF st] by simp
    obtain d0 r r' b j where "mt_lookup (tier s') k = Some b" "j \<in> {1..length ks}"
      "de_record E b = Some (r'\<lparr>version := ?v + of_nat j\<rparr>)"
      using wr kd(2) unfolding written_def by blast
    with l newer_hidden [OF v] show ?thesis by (auto simp: visible_row_def visible_def)
  qed
  have none: "row_of E tb ?v kv = None" if "kv \<in> set (cached_entries s')" "fst kv \<in> set ks" for tb kv
    using hidden [of "fst kv" "snd kv"] that by (simp add: row_of_def)
  have ok: "readable E tb ?v kv" if "kv \<in> set (cached_entries s')" for tb kv
    using hidden [of "fst kv" "snd kv"] entry_readable [OF entry, of kv] that
    by (cases "fst kv \<in> set ks") (auto simp: readable_def)
  have rows: "rows_of E tb ?v (cached_entries s') = rows_of E tb ?v ?es" for tb
    using none by (intro rows_filter) blast
  have "distinct (map fst ?es)"
    using stored_distinct(1) [OF st] by (rule distinct_keys_filter)
  then have "\<exists>is. distinct is \<and> set is = row_numbers (without_rows tbl I db) tb
      \<and> rows_of E tb ?v ?es = map (full_row (without_rows tbl I db) tb) is" for tb
  proof (rule rows_listed)
    show "\<forall>kv \<in> set ?es. row_entry E (ticks s) ?v kv" using entry by blast
    show "contents (without_rows tbl I db) (tb, i) = Some r
      \<longleftrightarrow> plain tb \<and> (\<exists>d. (row_key tb i, d) \<in> set ?es \<and> live E d = Some r)" for i r
    proof (cases "plain tb")
      case True
      have "plain tbl" if "i \<in> I" for i
        using ks(2) that shownD(7) [OF sh, of tbl i] by (auto simp: row_numbers_def split: if_splits)
      then have "row_key tb i \<in> set ks \<longleftrightarrow> tb = tbl \<and> i \<in> I"
        unfolding ks(1) by (auto simp: row_key_inj [OF True])
      moreover have "(\<exists>d. (row_key tb i, d) \<in> set ?es \<and> live E d = Some r) \<longleftrightarrow>
          row_key tb i \<notin> set ks \<and> (\<exists>d. (row_key tb i, d) \<in> set (cached_entries s) \<and> live E d = Some r)"
        unfolding old by blast
      moreover have "contents (without_rows tbl I db) (tb, i) = (if tb = tbl \<and> i \<in> I then None else contents db (tb, i))"
        by (simp add: without_rows_def)
      ultimately show ?thesis
        using True shown_contents [OF sh True, of i r] by (simp del: set_filter)
    next
      case False
      then show ?thesis using shownD(7) [OF sh, of tb i] by (simp add: without_rows_def)
    qed
  qed
  then have "lists (without_rows tbl I db) (stored_rows E ?v ?u t)"
    by (simp add: lists_def meta_rows [OF shownD(2) [OF sh]] rows)
  moreover have "rows_readable E ?v ?u t tb" for tb
    using ok meta_row [OF shownD(2) [OF sh]] by (simp add: table_readable_def)
  ultimately show ?thesis by (intro scans_listed [OF su]) simp_all
qed


section \<open>Undo after UPDATE and DELETE\<close>

lemma undo_written:
  assumes "shows_tables E s t db" and "stored E s' t" and "written E change s t ks s'"
    and "ks = target_keys E tbl (current_version s) cond (cached_entries s) (entries t)"
    and "has_room T (card (matching E db tbl cond)) s"
  obtains u where "repeated (card (matching E db tbl cond)) undo s' = Some (Inr (), u)"
    and "current_version u = current_version s" and "scans_as E u (without_rows tbl (matching E db tbl cond) db)"
    and "repeated (card (matching E db tbl cond)) redo u = Some (Inr (), s')"
proof -
  let ?n = "card (matching E db tbl cond)" and ?u = "s'\<lparr>current_version := current_version s\<rparr>"
  note ks = tables_targets [OF assms(1,4)]
  have v: "unat (current_version s) + length ks < 2 ^ 64" using assms(5) ks(2) by (simp add: has_room_def)
  have cv: "current_version s' = current_version s + of_nat ?n" using assms(3) ks(2) by (simp add: written_def)
  then have "?n \<le> unat (current_version s')" using version_le(3) [OF v le_refl] ks(2) by simp
  then have "repeated ?n undo s' = Some (Inr (), ?u)" using repeated_undo [of ?n s'] cv by simp
  moreover have "repeated ?n redo ?u = Some (Inr (), s')" using repeated_redo [of ?n ?u] cv by simp
  moreover have "scans_as E ?u (without_rows tbl (matching E db tbl cond) db)"
    by (rule undone_scans [OF assms(1-3) ks(1) _ v]) (auto simp: matching_def)
  ultimately show thesis by (intro that [of ?u]) simp_all
qed

text \<open>
  C28 (engine, undo and redo): when an UPDATE outside a transaction has changed \<open>n\<close> rows, \<open>n\<close>
  calls of \<open>undo\<close> bring back the version number of before, but not the rows: a scan of the table
  then lists the rows that the UPDATE did not change, and none of the \<open>n\<close>, neither with the old
  nor with the new columns; all other tables are as before. \<open>n\<close> calls of \<open>redo\<close> lead to the state
  after the UPDATE again. The rows of a DELETE do not come back either. The state shows a
  database (C1), there is room for \<open>n\<close> records in the tier and in the log, bincode encodes every
  row, and the UPDATE does not assign to the internal column \<open>__key__\<close>.
\<close>

theorem undo_restores_nothing:
  assumes "total_codec E" and "shows_tables E s t db" and "tx_of c s = None"
    and "has_room T (card (matching E db tbl cond)) s" and "''__key__'' \<notin> fst ` set asg"
  shows "scans_as E s db
    \<and> (\<exists>s' u. handle_update E tbl asg cond c s
            = Some (Inr (''Updated '' @ show_nat (card (matching E db tbl cond)) @ '' rows''), s')
        \<and> scans_as E s' (db\<lparr>contents := set_rows tbl (matching E db tbl cond) (\<lambda>r. Some (assign E asg r)) (contents db)\<rparr>)
        \<and> repeated (card (matching E db tbl cond)) undo s' = Some (Inr (), u) \<and> current_version u = current_version s
        \<and> scans_as E u (without_rows tbl (matching E db tbl cond) db)
        \<and> repeated (card (matching E db tbl cond)) redo u = Some (Inr (), s'))
    \<and> (\<exists>s' u. handle_delete E tbl cond c s
            = Some (Inr (''Deleted '' @ show_nat (card (matching E db tbl cond)) @ '' rows''), s')
        \<and> repeated (card (matching E db tbl cond)) undo s' = Some (Inr (), u) \<and> current_version u = current_version s
        \<and> scans_as E u (without_rows tbl (matching E db tbl cond) db))"
proof (intro conjI)
  let ?ks = "target_keys E tbl (current_version s) cond (cached_entries s) (entries t)"
  let ?db = "db\<lparr>contents := set_rows tbl (matching E db tbl cond) (\<lambda>r. Some (assign E asg r)) (contents db)\<rparr>"
  note len = tables_targets(2) [OF assms(2) refl]
  show "scans_as E s db" by (rule shown_scans [OF assms(2)])
  have "updated_record E asg (current_version s) r \<noteq> None" if "de_row E (rec_value r) = Some row" for r row
    using assms(1) that by (auto simp: updated_record_def total_codec_def)
  then have "ready_to_write E c tbl cond (updated_record E asg (current_version s)) s t ?ks"
    by (intro shown_ready [OF assms(1-4)]) auto
  from handle_update_ok [OF this] obtain s' where
    s': "handle_update E tbl asg cond c s = Some (Inr (''Updated '' @ show_nat (length ?ks) @ '' rows''), s')"
    "stored E s' t" "written E (updated_record E asg (current_version s)) s t ?ks s'" "spent (length ?ks) s s'" by blast
  have "left_with E T 0 s s' ?db"
    by (rule written_left [OF assms(2) s'(2-4) refl _ changes_updated [OF assms(1,5)] keepsD [OF pages_update s'(1)]])
      (simp add: assms(4))
  then have scan: "scans_as E s' ?db" unfolding left_with_def by (blast intro: shown_scans)
  obtain u where "repeated (card (matching E db tbl cond)) undo s' = Some (Inr (), u)"
    "current_version u = current_version s" "scans_as E u (without_rows tbl (matching E db tbl cond) db)"
    "repeated (card (matching E db tbl cond)) redo u = Some (Inr (), s')"
    by (rule undo_written [OF assms(2) s'(2,3) refl assms(4)])
  with s'(1) scan len show "\<exists>s' u. handle_update E tbl asg cond c s
            = Some (Inr (''Updated '' @ show_nat (card (matching E db tbl cond)) @ '' rows''), s')
        \<and> scans_as E s' ?db
        \<and> repeated (card (matching E db tbl cond)) undo s' = Some (Inr (), u) \<and> current_version u = current_version s
        \<and> scans_as E u (without_rows tbl (matching E db tbl cond) db)
        \<and> repeated (card (matching E db tbl cond)) redo u = Some (Inr (), s')" by metis
  have "ready_to_write E c tbl cond (deleted_record (current_version s)) s t ?ks"
    by (intro shown_ready [OF assms(1-4)]) (auto simp: deleted_record_def)
  from handle_delete_ok [OF this] obtain s1 where
    s1: "handle_delete E tbl cond c s = Some (Inr (''Deleted '' @ show_nat (length ?ks) @ '' rows''), s1)"
    "stored E s1 t" "written E (deleted_record (current_version s)) s t ?ks s1" by blast
  obtain u1 where "repeated (card (matching E db tbl cond)) undo s1 = Some (Inr (), u1)"
    "current_version u1 = current_version s" "scans_as E u1 (without_rows tbl (matching E db tbl cond) db)"
    by (rule undo_written [OF assms(2) s1(2,3) refl assms(4)])
  with s1(1) len show "\<exists>s' u. handle_delete E tbl cond c s
            = Some (Inr (''Deleted '' @ show_nat (card (matching E db tbl cond)) @ '' rows''), s')
        \<and> repeated (card (matching E db tbl cond)) undo s' = Some (Inr (), u) \<and> current_version u = current_version s
        \<and> scans_as E u (without_rows tbl (matching E db tbl cond) db)" by metis
qed

section \<open>Witness\<close>

text \<open>
  The account of the tests: its balance is 100, then 200 by an UPDATE, and after one \<open>undo\<close> the
  table is empty.
\<close>

lemma one_account_rows:
  assumes "one_account db"
  obtains i where "contents db = [(''accounts'', i) \<mapsto> [(''id'', ''1''), (''balance'', ''100'')]]"
proof -
  obtain i where "listed db [((''accounts'', i), [(''id'', ''1''), (''balance'', ''100'')])]"
    using assms by (auto simp: one_account_def)
  then show thesis by (intro that [of i]) (simp add: listed_def)
qed

lemma scans_none: "scans_as E s db \<Longrightarrow> row_numbers db tbl = {} \<Longrightarrow>
    \<exists>s'. scan_table E tbl (current_version s) s = Some (Inr [], s')"
  unfolding scans_as_def lists_def by (metis list.simps(8) set_empty)

lemma scans_one: "scans_as E s db \<Longrightarrow> row_numbers db tbl = {i} \<Longrightarrow>
    \<exists>s'. scan_table E tbl (current_version s) s = Some (Inr [full_row db tbl i], s')"
proof -
  assume "scans_as E s db" and i: "row_numbers db tbl = {i}"
  then obtain L "is" where L: "\<exists>s'. scan_table E tbl (current_version s) s = Some (Inr (L tbl), s')"
    "distinct is" "set is = {i}" "L tbl = map (full_row db tbl) is"
    unfolding scans_as_def lists_def by metis
  then have "is = [i]" by (cases "is" rule: remdups_adj.cases) auto
  with L show ?thesis by simp
qed

text \<open>The row of the account, with its key and its qualified columns.\<close>

abbreviation account_row :: "u64 \<Rightarrow> str \<Rightarrow> row" where
  "account_row i balance \<equiv> make_row ''accounts'' (''accounts:'' @ hex16 i) [(''id'', ''1''), (''balance'', balance)]"

theorem undo_restores_nothing_witness:
  "\<exists>i s1 s2 s' u u1 u2. scan_table TE ''accounts'' (current_version s1) s1 = Some (Inr [account_row i ''100''], s2)
    \<and> handle_update TE ''accounts'' [(''balance'', text_value ''200'')] id_one 0 s1 = Some (Inr ''Updated 1 rows'', s')
    \<and> scan_table TE ''accounts'' (current_version s') s' = Some (Inr [account_row i ''200''], u1)
    \<and> undo s' = Some (Inr (), u) \<and> scan_table TE ''accounts'' (current_version u) u = Some (Inr [], u2)
    \<and> redo u = Some (Inr (), s')"
proof -
  obtain s s1 t db where s: "engine_open TE (\<lambda>_. 0) True [] None = Some (Inr (), s)"
    "run_calls TE test_mvcc_setup s = Some (Inr (), s1)" "shows_tables TE s1 t db" "one_account db" "has_room 4000000 1000 s1" "active_transactions s1 = []"
    by (rule account_ready [OF TE_ok test_env(2) test_parses(4), of "\<lambda>_. 0" True])
  obtain i where c: "contents db = [(''accounts'', i) \<mapsto> [(''id'', ''1''), (''balance'', ''100'')]]"
    by (rule one_account_rows [OF s(4)])
  obtain j where j: "matching TE db ''accounts'' id_one = {j}" by (rule account_matches [OF test_env(1) s(4)])
  then have m: "matching TE db ''accounts'' id_one = {i}" by (auto simp: matching_def row_numbers_def c split: if_splits)
  let ?asg = "[(''balance'', text_value ''200'')]"
  let ?db = "db\<lparr>contents := set_rows ''accounts'' {i} (\<lambda>r. Some (assign TE ?asg r)) (contents db)\<rparr>"
  have new: "assign TE ?asg [(''id'', ''1''), (''balance'', ''100'')] = [(''id'', ''1''), (''balance'', ''200'')]"
    using assign_name [OF test_env(1), of "''200''" "''balance''"] by simp
  have rows: "row_numbers db ''accounts'' = {i}" "row_numbers ?db ''accounts'' = {i}"
    "row_numbers (without_rows ''accounts'' {i} db) ''accounts'' = {}"
    by (auto simp: row_numbers_def c set_rows_def without_rows_def)
  have full: "full_row db ''accounts'' i = account_row i ''100''" "full_row ?db ''accounts'' i = account_row i ''200''"
    by (simp_all add: full_row_def row_at_def c set_rows_def new)
  have none: "tx_of 0 s1 = None" by (simp add: tx_of_def s(6))
  have "has_room 4000000 (card (matching TE db ''accounts'' id_one)) s1"
    by (rule has_room_less [OF s(5)]) (simp add: m)
  from undo_restores_nothing [OF TE_ok(1) s(3) none this, of ?asg] obtain s' u where
    u: "scans_as TE s1 db" "handle_update TE ''accounts'' ?asg id_one 0 s1 = Some (Inr (''Updated '' @ show_nat 1 @ '' rows''), s')"
    "scans_as TE s' ?db" "repeated 1 undo s' = Some (Inr (), u)" "scans_as TE u (without_rows ''accounts'' {i} db)"
    "repeated 1 redo u = Some (Inr (), s')"
    unfolding m by (auto simp: card_1_singleton_iff)
  have "undo s' = Some (Inr (), u)" "redo u = Some (Inr (), s')"
    using u(4,6) by (simp_all add: undo_def redo_def seq_def)
  with u(2) scans_one [OF u(1) rows(1)] scans_one [OF u(3) rows(2)] scans_none [OF u(5) rows(3)] show ?thesis
    unfolding full by simp blast
qed

end
