(* ===== verification/Select_Spec.thy ===== *)
theory Select_Spec
  imports Engine_Select
begin

text \<open>
  What a SELECT should answer, written over tables whose rows are maps from column names to texts
  and independently of the code: the pairs of a join, the rows that meet the condition, the
  first rows up to the limit, the aggregates, the lines of the answer; and the proof that the
  engine's answer is this one.
\<close>

section \<open>The meaning of a query\<close>

type_synonym cells = "str \<Rightarrow> str option"

text \<open>
  The value of an operand in a row: the text of the named column, or the literal. \<open>None\<close> when the
  row has no such column or the operand has another form.
\<close>

fun operand :: "cells \<Rightarrow> expr \<Rightarrow> str option" where
  "operand m (Identifier c) = m c"
| "operand m (CompoundIdentifier t [c]) = m (t @ ''.'' @ c)"
| "operand m (Value (Number n)) = (if CHR 0x27 \<in> set n then None else Some n)"
| "operand m (Value (SingleQuotedString x)) = (if CHR 0x27 \<in> set x then None else Some x)"
| "operand m _ = None"

text \<open>
  Comparisons are on texts; the empty text, which also stands for a missing value, equals nothing.
\<close>

fun compares :: "binary_op \<Rightarrow> str \<Rightarrow> str \<Rightarrow> bool option" where
  "compares Eq x y = Some (x = y \<and> x \<noteq> [])"
| "compares NotEq x y = Some (x \<noteq> y)"
| "compares Gt x y = Some (y < x)"
| "compares Lt x y = Some (x < y)"
| "compares (Other_op _) x y = None"

fun holds :: "cells \<Rightarrow> expr \<Rightarrow> bool option" where
  "holds m (BinaryOp l op r) = (case (operand m l, operand m r) of
      (Some x, Some y) \<Rightarrow> compares op x y | _ \<Rightarrow> None)"
| "holds m (Nested e) = holds m e"
| "holds m _ = None"

text \<open>FROM: the rows of the table, or the pairs of its rows with those of the joined table.\<close>

definition pairs :: "row list \<Rightarrow> row list \<Rightarrow> cells list" where
  "pairs ls rs = [map_of l ++ map_of r. l \<leftarrow> ls, r \<leftarrow> rs]"

fun joined :: "row list \<Rightarrow> (str \<Rightarrow> row list) \<Rightarrow> (str \<times> join_operator) option \<Rightarrow> cells list" where
  "joined ls right None = map map_of ls"
| "joined ls right (Some (jt, Inner_On e)) = [m \<leftarrow> pairs ls (right jt). holds m e = Some True]"
| "joined ls right (Some (jt, Other_join)) = pairs ls (right jt)"

text \<open>WHERE and LIMIT.\<close>

fun chosen :: "expr option \<Rightarrow> cells list \<Rightarrow> cells list" where
  "chosen None ms = ms"
| "chosen (Some e) ms = [m \<leftarrow> ms. holds m e = Some True]"

fun first_rows :: "nat option \<Rightarrow> cells list \<Rightarrow> cells list" where
  "first_rows None ms = ms"
| "first_rows (Some n) ms = take n ms"

text \<open>Aggregates over the numbers in a column.\<close>

definition numbers :: "engine_env \<Rightarrow> str \<Rightarrow> cells list \<Rightarrow> f64 list" where
  "numbers E c ms = List.map_filter (\<lambda>m. Option.bind (m c) (parse_f64 E)) ms"

definition aggregate_value :: "engine_env \<Rightarrow> str \<Rightarrow> f64 list \<Rightarrow> nat \<Rightarrow> f64" where
  "aggregate_value E f xs n = (case map_of
     [(''COUNT'', f64_of_nat E n),
      (''SUM'', f64_sum E xs),
      (''AVG'', if xs = [] then f64_zero E else f64_div E (f64_sum E xs) (f64_of_nat E (length xs))),
      (''MIN'', fold (\<lambda>x y. f64_min E y x) xs (f64_infinity E)),
      (''MAX'', fold (\<lambda>x y. f64_max E y x) xs (f64_neg_infinity E))] f of
     Some x \<Rightarrow> x | None \<Rightarrow> f64_zero E)"

text \<open>The heading and the value of one item; an item that is no function gets none.\<close>

fun aggregated :: "engine_env \<Rightarrow> cells list \<Rightarrow> select_item \<Rightarrow> str \<times> str" where
  "aggregated E ms (UnnamedExpr (Function f [Some (Identifier c)])) =
     (to_upper E f, show_f64 E (aggregate_value E (to_upper E f) (numbers E c ms) (length ms)))"
| "aggregated E ms (UnnamedExpr (Function f args)) =
     (to_upper E f, show_f64 E (aggregate_value E (to_upper E f) [] (length ms)))"
| "aggregated E ms _ = (''?'', ''NULL'')"

text \<open>The lines of an answer: the heading, a rule, the rows.\<close>

definition answer_lines :: "str list \<Rightarrow> str list list \<Rightarrow> str" where
  "answer_lines heading body = (let h = join '' | '' heading in
     concat (map (\<lambda>l. l @ [CHR 0x0A]) (h # replicate (length h + 1) CHR ''-'' # map (join '' | '') body)))"

text \<open>
  The value printed for column \<open>c\<close> of table \<open>t\<close>. Where the row has no column under the qualified
  name, the plain name is tried, if there is one dot only.
\<close>

definition printed :: "cells \<Rightarrow> str \<times> str \<Rightarrow> str" where
  "printed m = (\<lambda>(t, c). case m (t @ ''.'' @ c) of Some v \<Rightarrow> v
     | None \<Rightarrow> (case m c of Some v \<Rightarrow> if CHR ''.'' \<in> set t \<union> set c then ''NULL'' else v | None \<Rightarrow> ''NULL''))"

definition has_aggregate :: "engine_env \<Rightarrow> select_item list \<Rightarrow> bool" where
  "has_aggregate E items \<longleftrightarrow> (\<exists>f args. UnnamedExpr (Function f args) \<in> set items
     \<and> to_upper E f \<in> {''COUNT'', ''SUM'', ''AVG'', ''MIN'', ''MAX''})"

definition answer :: "engine_env \<Rightarrow> select_item list \<Rightarrow> (str \<times> str) list \<Rightarrow> cells list \<Rightarrow> str" where
  "answer E items cols ms = (if has_aggregate E items
     then answer_lines (map (\<lambda>i. fst (aggregated E ms i)) items) [map (\<lambda>i. snd (aggregated E ms i)) items]
     else answer_lines (map (\<lambda>(t, c). t @ ''.'' @ c) cols) (map (\<lambda>m. map (printed m) cols) ms))"

fun query_columns :: "(str \<times> table_schema) list \<Rightarrow> str \<Rightarrow> (str \<times> join_operator) option \<Rightarrow> (str \<times> str) list" where
  "query_columns defs tbl None = map (Pair tbl) (columns (the (map_of defs tbl)))"
| "query_columns defs tbl (Some (jt, _)) =
     map (Pair tbl) (columns (the (map_of defs tbl))) @ map (Pair jt) (columns (the (map_of defs jt)))"

section \<open>Queries with a meaning\<close>

text \<open>The conditions compare columns that the rows have, or literals, by =, <>, < or >.\<close>

fun join_clear :: "row list \<Rightarrow> (str \<Rightarrow> row list) \<Rightarrow> (str \<times> join_operator) option \<Rightarrow> bool" where
  "join_clear ls right (Some (jt, Inner_On e)) = (\<forall>m \<in> set (pairs ls (right jt)). holds m e \<noteq> None)"
| "join_clear ls right _ = True"

definition where_clear :: "engine_env \<Rightarrow> expr option \<Rightarrow> cells list \<Rightarrow> bool" where
  "where_clear E cond ms \<longleftrightarrow> (case cond of None \<Rightarrow> True
     | Some e \<Rightarrow> \<not> contains (show_expr E e) ''VECTOR_SEARCH'' \<and> (\<forall>m \<in> set ms. holds m e \<noteq> None))"

text \<open>The functions are aggregates of one column that every row has, or COUNT of whatever.\<close>

fun item_clear :: "engine_env \<Rightarrow> cells list \<Rightarrow> select_item \<Rightarrow> bool" where
  "item_clear E ms (UnnamedExpr (Function f args)) = (to_upper E f = ''COUNT''
     \<or> (\<exists>c. args = [Some (Identifier c)] \<and> (\<forall>m \<in> set ms. m c \<noteq> None)))"
| "item_clear E ms _ = True"

text \<open>How the crate prints literals.\<close>

definition prints_literals :: "engine_env \<Rightarrow> bool" where
  "prints_literals E \<longleftrightarrow> (\<forall>n. show_value E (Number n) = n)
     \<and> (\<forall>x. CHR 0x27 \<notin> set x \<longrightarrow> show_value E (SingleQuotedString x) = [CHR 0x27] @ x @ [CHR 0x27])"

definition limit_expr :: "nat option \<Rightarrow> expr option" where
  "limit_expr lim = map_option (\<lambda>n. Value (Number (show_nat n))) lim"

section \<open>Rows as maps\<close>

lemma put_all: "map_of (foldl (\<lambda>row (k, v). AList.update k v row) acc kvs) = map_of acc ++ map_of (rev kvs)"
  by (induction kvs arbitrary: acc) (auto simp: fun_eq_iff map_add_def alist split: option.split)

lemma map_of_combine:
  assumes "distinct (map fst l)" and "distinct (map fst r)"
  shows "map_of (combine l r) = map_of l ++ map_of r"
proof -
  have "map_of (rev l) = map_of l" "map_of (rev r) = map_of r"
    using assms by (simp_all add: map_of_inject_set rev_map [symmetric])
  then show ?thesis by (simp add: combine_def put_all del: foldl_append)
qed

lemma make_row_distinct: "distinct (map fst (make_row tbl k base))"
proof -
  have "distinct (map fst acc) \<Longrightarrow> distinct (map fst (foldl (\<lambda>row (k, v).
      AList.update (tbl @ ''.'' @ k) v (AList.update k v row)) acc base))" for acc
    by (induction base arbitrary: acc) (auto intro!: distinct_keys_update)
  then show ?thesis by (simp add: make_row_def)
qed

lemma scanned_distinct:
  assumes "r \<in> set (stored_rows E ver s t tbl)"
  shows "distinct (map fst r)"
proof -
  have visible: "visible_row E tbl ver k d = Inr (Some r) \<Longrightarrow> distinct (map fst r)" for k d
    by (auto simp: visible_row_def make_row_distinct split: option.splits if_splits)
  have "row_of E tbl ver kv = Some r \<Longrightarrow> distinct (map fst r)" for kv
    using visible by (auto simp: row_of_def split: if_splits sum.splits)
  moreover have "r \<in> set (List.map_filter f es) \<Longrightarrow> \<exists>kv. f kv = Some r" for f and es :: "(bytes \<times> bytes) list"
    by (induction es) (auto simp: map_filter_Cons List.map_filter_simps simp del: split_paired_Ex split: option.splits)
  ultimately show ?thesis using assms unfolding table_rows_def by fastforce
qed

section \<open>The parts of a query\<close>

lemma get_operand:
  assumes "prints_literals E" and "operand (map_of row) e = Some x"
  shows "get_data (sqlp E) row e = x"
  using assms
  by (cases "(map_of row, e)" rule: operand.cases)
    (auto simp: get_data_def prints_literals_def unquote_def sql_print.truncate_def filter_id_conv split: if_splits)

lemma evaluate_holds:
  assumes "prints_literals E" and "holds (map_of row) e = Some b"
  shows "evaluate_where (sqlp E) e row = b"
  using assms(2)
proof (induction "map_of row" e rule: holds.induct)
  case (1 l op r)
  then obtain x y where "operand (map_of row) l = Some x" "operand (map_of row) r = Some y" "compares op x y = Some b"
    by (auto split: option.splits)
  then show ?case using get_operand [OF assms(1)] by (cases op) auto
qed auto

lemma filter_holds:
  assumes "prints_literals E" and "\<forall>m \<in> map_of ` set rows. holds m e \<noteq> None"
  shows "map map_of (filter (evaluate_where (sqlp E) e) rows) = [m \<leftarrow> map map_of rows. holds m e = Some True]"
proof -
  have "evaluate_where (sqlp E) e r = (holds (map_of r) e = Some True)" if "r \<in> set rows" for r
    using assms that evaluate_holds by fastforce
  then show ?thesis by (simp add: filter_map o_def cong: filter_cong)
qed

lemma join_pairs:
  assumes "\<forall>r \<in> set ls \<union> set rs. distinct (map fst r)"
  shows "map map_of (concat (map (\<lambda>l. map (combine l) rs) ls)) = pairs ls rs"
  using assms by (auto simp: pairs_def map_concat map_of_combine intro!: arg_cong [where f = concat])

lemma from_joined:
  assumes "prints_literals E" and "\<forall>r \<in> set ls. distinct (map fst r)" and "\<And>jt r. r \<in> set (right jt) \<Longrightarrow> distinct (map fst r)"
    and "join_clear ls right j"
  shows "map map_of (from_rows E ls right j) = joined ls right j"
proof (cases "(ls, right, j)" rule: joined.cases)
  case (2 ls' right' jt e)
  then have j: "j = Some (jt, Inner_On e)" by simp
  note ps = join_pairs [of ls "right jt"]
  have "set (pairs ls (right jt)) = map_of ` set (concat (map (\<lambda>l. map (combine l) (right jt)) ls))"
    using ps assms(2,3) by (metis UnE list.set_map)
  then show ?thesis
    using filter_holds [OF assms(1), of "concat (map (\<lambda>l. map (combine l) (right jt)) ls)" e] ps assms(2,3,4)
    by (simp add: j join_rows_def ball_Un)
next
  case (3 ls' right' jt)
  then show ?thesis using join_pairs [of ls "right jt"] assms(2,3) by (auto simp: join_rows_def)
qed simp

lemma where_chosen:
  assumes "prints_literals E" and "where_clear E cond (map map_of rows)"
  shows "map map_of (where_rows E cond rows) = chosen cond (map map_of rows)"
  using assms filter_holds [OF assms(1)] by (auto simp: where_rows_def where_clear_def split: option.splits)

lemma limit_first:
  assumes "\<forall>n \<in> set_option lim. n < 2 ^ 64"
  shows "map map_of (limit_rows (limit_expr lim) rows) = first_rows lim (map map_of rows)"
  using assms parse_show by (cases lim) (simp_all add: limit_rows_def limit_expr_def parse_usize_def take_map)

section \<open>The printed answer\<close>

lemma header_rule: "header_lines cols = (let h = join '' | '' cols in
    h @ [CHR 0x0A] @ replicate (length h + 1) CHR ''-'' @ [CHR 0x0A])"
  by (simp add: header_lines_def Let_def)

lemma split_on_pieces: "length (split_on c s) = Suc (count_list s c)"
  by (induction s) (auto split: list.split)

lemma cell_printed: "cell row (t @ ''.'' @ c) = printed (map_of row) (t, c)"
proof (cases "CHR ''.'' \<in> set t \<union> set c")
  case True
  have "split_on CHR ''.'' (t @ ''.'' @ c) \<noteq> [a, b]" for a b
  proof
    assume "split_on CHR ''.'' (t @ ''.'' @ c) = [a, b]"
    then have "count_list t CHR ''.'' + count_list c CHR ''.'' = 0"
      using split_on_pieces [of "CHR ''.''" "t @ ''.'' @ c"] by simp
    with True show False by (auto simp: count_list_0_iff)
  qed
  then have "(case split_on CHR ''.'' (t @ ''.'' @ c) of [a, b] \<Rightarrow> map_of row b | _ \<Rightarrow> None) = None"
    by (auto split: list.splits)
  with True show ?thesis by (auto simp: cell_def printed_def or_else_def split: option.splits)
next
  case False
  then have "split_on CHR ''.'' (t @ ''.'' @ c) = [t, c]"
    using split_on_sep [of "CHR ''.''" t c] split_on_none [of "CHR ''.''" c] by simp
  with False show ?thesis by (auto simp: cell_def printed_def or_else_def split: option.splits)
qed

lemma column_numbers:
  assumes "\<forall>r \<in> set rows. map_of r c \<noteq> None"
  shows "column_values E c rows = numbers E c (map map_of rows)"
  using assms
  by (induction rows)
    (auto simp: column_values_def numbers_def map_filter_Cons List.map_filter_simps or_else_def split: option.splits)

lemma aggregate_spec: "aggregate E f xs n = aggregate_value E f xs n"
  by (auto simp: aggregate_def aggregate_value_def foldl_conv_fold)

lemma aggregate_item_spec:
  assumes "item_clear E (map map_of rows) i"
  shows "aggregate_item E rows i = aggregated E (map map_of rows) i"
proof (cases "\<exists>f args. i = UnnamedExpr (Function f args)")
  case True
  then obtain f args where i: "i = UnnamedExpr (Function f args)" by auto
  have item: "aggregate_item E rows i = (to_upper E f, show_f64 E (aggregate_value E (to_upper E f) (column_values E
      (case args of Some (Identifier c) # _ \<Rightarrow> c | _ \<Rightarrow> ''*'') rows) (length rows)))"
    by (simp add: i aggregate_item_def aggregate_spec Let_def)
  show ?thesis
  proof (cases "to_upper E f = ''COUNT''")
    case True
    then show ?thesis unfolding item by (cases "(E, map map_of rows, i)" rule: aggregated.cases) (auto simp: i aggregate_value_def)
  next
    case False
    with assms obtain c where c: "args = [Some (Identifier c)]" "\<forall>r \<in> set rows. map_of r c \<noteq> None" by (auto simp: i)
    then show ?thesis unfolding item by (simp add: i column_numbers)
  qed
next
  case False
  then show ?thesis by (auto simp: aggregate_item_def split: select_item.splits expr.splits)
qed

lemma is_aggregate_spec: "is_aggregate E items = has_aggregate E items"
proof -
  have "(case i of UnnamedExpr (Function f args) \<Rightarrow> to_upper E f \<in> set aggregate_names | _ \<Rightarrow> False)
    \<longleftrightarrow> (\<exists>f args. i = UnnamedExpr (Function f args) \<and> to_upper E f \<in> set aggregate_names)" for i
    by (auto split: select_item.splits expr.splits)
  then show ?thesis by (auto simp: is_aggregate_def has_aggregate_def aggregate_names_def)
qed

lemma render_answer:
  assumes "\<forall>i \<in> set (projection sel). item_clear E (map map_of rows) i"
  shows "render E sel (map (\<lambda>(t, c). t @ ''.'' @ c) cols) rows = answer E (projection sel) cols (map map_of rows)"
proof -
  have items: "map fst (map (aggregate_item E rows) (projection sel)) = map (\<lambda>i. fst (aggregated E (map map_of rows) i)) (projection sel)"
    "map snd (map (aggregate_item E rows) (projection sel)) = map (\<lambda>i. snd (aggregated E (map map_of rows) i)) (projection sel)"
    using assms aggregate_item_spec by simp_all
  have cells: "map (cell row) (map (\<lambda>(t, c). t @ ''.'' @ c) cols) = map (printed (map_of row)) cols" for row
    using cell_printed by auto
  have body: "map (\<lambda>row. join '' | '' (map (cell row) (map (\<lambda>(t, c). t @ ''.'' @ c) cols)) @ [CHR 0x0A]) rows
      = map (\<lambda>l. l @ [CHR 0x0A]) (map (join '' | '') (map (\<lambda>m. map (printed m) cols) (map map_of rows)))"
    unfolding cells by simp
  show ?thesis
  proof (cases "has_aggregate E (projection sel)")
    case True
    then show ?thesis
      unfolding render_def answer_def is_aggregate_spec if_P [OF True] render_aggregates_def Let_def items header_rule
        answer_lines_def
      by simp
  next
    case False
    then show ?thesis
      unfolding render_def answer_def is_aggregate_spec if_not_P [OF False] render_rows_def header_rule body answer_lines_def
      by (simp add: Let_def del: map_map)
  qed
qed


section \<open>The answer of the engine\<close>

abbreviation query_rows :: "engine_env \<Rightarrow> engine \<Rightarrow> ptree \<Rightarrow> u32 \<Rightarrow> select \<Rightarrow> str \<Rightarrow> (str \<times> join_operator) option
    \<Rightarrow> nat option \<Rightarrow> cells list" where
  "query_rows E s t c sel tbl j lim \<equiv> first_rows lim (chosen (selection sel)
     (joined (stored_rows E (read_version c s) s t tbl) (stored_rows E (read_version c s) s t) j))"

definition query_clear :: "engine_env \<Rightarrow> engine \<Rightarrow> ptree \<Rightarrow> u32 \<Rightarrow> select \<Rightarrow> str \<Rightarrow> (str \<times> join_operator) option
    \<Rightarrow> nat option \<Rightarrow> bool" where
  "query_clear E s t c sel tbl j lim \<longleftrightarrow>
     (let ls = stored_rows E (read_version c s) s t tbl; right = stored_rows E (read_version c s) s t in
      join_clear ls right j \<and> where_clear E (selection sel) (joined ls right j)
      \<and> (\<forall>i \<in> set (projection sel). item_clear E (query_rows E s t c sel tbl j lim) i)
      \<and> (\<forall>n \<in> set_option lim. n < 2 ^ 64))"

lemma from_columns_names: "from_columns m tbl j = map (\<lambda>(t, c). t @ ''.'' @ c) (query_columns m tbl j)"
  by (cases "(m, tbl, j)" rule: query_columns.cases) (auto simp: with_prefix_def)

text \<open>
  C13 (engine, SELECT): the answer is the one written out in the section on the meaning of a
  query, over the rows that a scan of the tables shows at the version of the connection (its
  snapshot inside a transaction): the rows of the table, or the pairs of its rows with those of
  the joined table that meet the ON condition; of these the ones that meet the WHERE condition;
  of these the first ones up to LIMIT; printed under the qualified column names, or, when an
  aggregate is selected, their number, or the sum, average, least or greatest number in a
  column. The query changes no data. Conditions compare columns that all rows have, or
  literals without quotes, by =, <>, < or > and do not mention \<open>VECTOR_SEARCH\<close>; aggregates other
  than COUNT are of one column that all rows have; the limit fits a machine word; no index entry is
  found for the WHERE condition (C34 is the other case); the rows can be decoded; and the SQL
  crate prints literals as they are written.
\<close>

theorem select_spec:
  assumes "stored E s t" and "query_body q = Select sel" and "query_limit q = limit_expr lim"
    and "from_clause sel (schemas s) tbl j" and "unindexed E s t tbl (selection sel)"
    and "rows_readable E (read_version c s) s t tbl"
    and "\<And>jt jo. j = Some (jt, jo) \<Longrightarrow> rows_readable E (read_version c s) s t jt"
    and "prints_literals E" and "query_clear E s t c sel tbl j lim"
  shows "\<exists>s'. handle_query E q c s
      = Some (Inr (answer E (projection sel) (query_columns (schemas s) tbl j) (query_rows E s t c sel tbl j lim)), s')
    \<and> stored E s' t \<and> same_all s s'"
proof -
  let ?ls = "stored_rows E (read_version c s) s t tbl" and ?right = "stored_rows E (read_version c s) s t"
  note clear = assms(9) [unfolded query_clear_def Let_def]
  have joined: "map map_of (from_rows E ?ls ?right j) = joined ?ls ?right j"
    using clear scanned_distinct by (intro from_joined [OF assms(8)]) auto
  have "map map_of (where_rows E (selection sel) (from_rows E ?ls ?right j)) = chosen (selection sel) (joined ?ls ?right j)"
    using clear where_chosen [OF assms(8), of "selection sel" "from_rows E ?ls ?right j"] unfolding joined by simp
  then have rows: "map map_of (limit_rows (query_limit q) (where_rows E (selection sel) (from_rows E ?ls ?right j)))
      = query_rows E s t c sel tbl j lim"
    using clear unfolding assms(3) by (subst limit_first) simp_all
  have "render E sel (from_columns (schemas s) tbl j)
      (limit_rows (query_limit q) (where_rows E (selection sel) (from_rows E ?ls ?right j)))
    = answer E (projection sel) (query_columns (schemas s) tbl j) (query_rows E s t c sel tbl j lim)"
    using clear unfolding from_columns_names rows [symmetric] by (intro render_answer) simp
  with select_rows [OF assms(1,2,4,5,6,7)] show ?thesis by simp
qed


section \<open>Witness\<close>

text \<open>Tables \<open>t(a)\<close> with the rows 5, 7, 5 and \<open>u(a, b)\<close> with the row (5, 9), all in the tier.\<close>

definition query_env :: engine_env where
  "query_env = SE\<lparr>parse_f64 := (\<lambda>s. map_option of_nat (parse_usize s))\<rparr>"

definition entry_of :: "str \<Rightarrow> row \<Rightarrow> bytes \<times> bytes" where
  "entry_of key r = (to_bytes_of key,
     put_rec \<lparr>rec_value = put_list put_pair r, version = 0, is_deleted = False, timestamp = 0\<rparr>)"

abbreviation query_entries :: "(bytes \<times> bytes) list" where
  "query_entries \<equiv> [entry_of ''t:1'' [(''a'', ''5'')], entry_of ''t:2'' [(''a'', ''7'')],
     entry_of ''t:3'' [(''a'', ''5'')], entry_of ''u:1'' [(''a'', ''5''), (''b'', ''9'')]]"

abbreviation query_schemas :: "(str \<times> table_schema) list" where
  "query_schemas \<equiv>
     [(''t'', \<lparr>schema_name = ''t'', columns = [''a''], auto_increment_col = None, next_id = 1\<rparr>),
      (''u'', \<lparr>schema_name = ''u'', columns = [''a'', ''b''], auto_increment_col = None, next_id = 1\<rparr>)]"

lemma entry_shown:
  assumes "row_ok r" and "length (put_list put_pair r) < 2 ^ 64" and "ascii key"
  shows "row_of query_env tbl 0 (entry_of key r) = (if prefix (tbl @ '':'') key then Some (make_row tbl key r) else None)"
    and "readable query_env tbl 0 (entry_of key r)"
proof -
  let ?rec = "\<lparr>rec_value = put_list put_pair r, version = 0, is_deleted = False, timestamp = 0\<rparr>"
  have "record_ok ?rec" using assms(2) by (simp add: record_ok_def vec_ok_def)
  then have "de_record query_env (put_rec ?rec) = Some ?rec" "de_row query_env (put_list put_pair r) = Some r"
    using de_record_SE de_row_SE [OF assms(1)] by (simp_all add: query_env_def)
  then have "visible_row query_env tbl 0 (to_bytes_of key) (put_rec ?rec) = Inr (Some (make_row tbl key r))"
    using lossy_text [OF assms(3)] by (simp add: visible_row_def visible_def)
  then show "row_of query_env tbl 0 (entry_of key r) = (if prefix (tbl @ '':'') key then Some (make_row tbl key r) else None)"
    "readable query_env tbl 0 (entry_of key r)"
    using lossy_text [OF assms(3)] by (simp_all add: row_of_def readable_def entry_of_def in_table_def)
qed

lemma query_database:
  obtains s where "stored query_env s empty_tree" and "cached_entries s = query_entries" and "schemas s = query_schemas"
    and "read_version 1 s = 0"
proof -
  obtain b where b: "stored SE (fresh_engine b) empty_tree" "memory_tier b = mt_new 64" by (rule sample_empty)
  let ?e = "\<lambda>k r m. mt_insert 0 (fst (entry_of k r)) (snd (entry_of k r)) m"
  let ?m = "?e ''u:1'' [(''a'', ''5''), (''b'', ''9'')] (?e ''t:3'' [(''a'', ''5'')]
     (?e ''t:2'' [(''a'', ''7'')] (?e ''t:1'' [(''a'', ''5'')] (mt_new 64))))"
  let ?s = "(fresh_engine b)\<lparr>tree := b\<lparr>memory_tier := ?m\<rparr>, schemas := query_schemas\<rparr>"
  have rm: "room_for (Suc (Suc (Suc (Suc 0)))) (mt_new 64)" by (rule room_new) simp
  note ins1 = no_evict [OF rm] note ins2 = no_evict [OF ins1(2)] note ins3 = no_evict [OF ins2(2)]
  note cache = no_evict_cache [OF rm] no_evict_cache [OF ins1(2)] no_evict_cache [OF ins2(2)] no_evict_cache [OF ins3(2)]
  have "cache (mt_new 64) = []" by (simp add: mt_new_def)
  then have "cached_entries ?s = query_entries"
    by (simp add: cache entry_of_def inj_to_bytes update_fresh)
  moreover have "mt_inv ?m" by (intro mt_inv_insert mt_inv_new)
  then have "stored SE ?s empty_tree" by (intro stored_tier [OF b(1), of ?m]) simp_all
  then have "stored query_env ?s empty_tree" by (simp add: stored_def query_env_def)
  ultimately show thesis by (intro that [of ?s]) (simp_all add: read_version_def tx_of_def)
qed


abbreviation query_select :: "(table_factor \<times> join_operator) list \<Rightarrow> select_item list \<Rightarrow> expr option \<Rightarrow> select" where
  "query_select js items cond \<equiv>
     \<lparr>from_tables = [\<lparr>relation = Table ''t'', joins = js\<rparr>], projection = items, selection = cond\<rparr>"

abbreviation query_of :: "(table_factor \<times> join_operator) list \<Rightarrow> select_item list \<Rightarrow> expr option \<Rightarrow> nat option \<Rightarrow> sql_query" where
  "query_of js items cond lim \<equiv> \<lparr>query_body = Select (query_select js items cond), query_limit = limit_expr lim\<rparr>"

text \<open>\<open>SELECT * FROM t WHERE a = '5' LIMIT 1\<close>\<close>

abbreviation query_where :: sql_query where
  "query_where \<equiv> query_of [] [Other_item] (Some (BinaryOp (Identifier ''a'') Eq (Value (SingleQuotedString ''5'')))) (Some 1)"

text \<open>\<open>SELECT * FROM t JOIN u ON t.a = u.a WHERE b > 8\<close>\<close>

abbreviation t_a_is_u_a :: join_operator where
  "t_a_is_u_a \<equiv> Inner_On (BinaryOp (CompoundIdentifier ''t'' [''a'']) Eq (CompoundIdentifier ''u'' [''a'']))"

abbreviation b_above_8 :: "expr option" where
  "b_above_8 \<equiv> Some (BinaryOp (Identifier ''b'') Gt (Value (Number ''8'')))"

abbreviation query_join :: sql_query where
  "query_join \<equiv> query_of [(Table ''u'', t_a_is_u_a)] [Other_item] b_above_8 None"

text \<open>\<open>SELECT COUNT(*), SUM(a) FROM t WHERE a <> '7'\<close>\<close>

abbreviation sum_items :: "select_item list" where
  "sum_items \<equiv> [UnnamedExpr (Function ''COUNT'' [None]), UnnamedExpr (Function ''SUM'' [Some (Identifier ''a'')])]"

abbreviation a_not_7 :: "expr option" where
  "a_not_7 \<equiv> Some (BinaryOp (Identifier ''a'') NotEq (Value (SingleQuotedString ''7'')))"

abbreviation query_sum :: sql_query where
  "query_sum \<equiv> query_of [] sum_items a_not_7 None"

lemma query_names: "to_uppercase f ''COUNT'' = ''COUNT''" "to_uppercase f ''SUM'' = ''SUM''"
  by (simp_all add: to_uppercase_def ascii_upper_def less_eq_char_def)

lemma query_floats: "parse_f64 query_env x = map_option of_nat (parse_usize x)" "f64_of_nat query_env n = of_nat n"
  "f64_sum query_env xs = sum_list xs" "show_f64 query_env w = show_nat (unat w)" "f64_zero query_env = 0"
  by (simp_all add: query_env_def sample_engine_env_def)

lemma sum_aggregates: "has_aggregate query_env sum_items"
  unfolding has_aggregate_def by (intro exI [of _ "''SUM''"] exI [of _ "[Some (Identifier ''a'')]"]) (simp add: query_names)

lemma sum_numbers: "parse_usize ''5'' = Some 5" "show_nat 2 = ''2''" "show_nat 10 = ''10''"
  by (simp add: parse_usize_def parse_nat_def Let_def less_eq_char_def) code_simp+

lemma query_rows_stored:
  assumes "cached_entries s = query_entries"
  shows "stored_rows query_env 0 s empty_tree ''t''
      = [make_row ''t'' ''t:1'' [(''a'', ''5'')], make_row ''t'' ''t:2'' [(''a'', ''7'')], make_row ''t'' ''t:3'' [(''a'', ''5'')]]"
    and "stored_rows query_env 0 s empty_tree ''u'' = [make_row ''u'' ''u:1'' [(''a'', ''5''), (''b'', ''9'')]]"
    and "rows_readable query_env 0 s empty_tree tbl"
proof -
  have ok: "row_ok [(''a'', ''5'')]" "row_ok [(''a'', ''7'')]" "row_ok [(''a'', ''5''), (''b'', ''9'')]"
    by (simp_all add: row_ok_def vec_ok_def pair_ok_def text_ok_def)
  have small: "length (put_list put_pair [(''a'', ''5'')]) < 2 ^ 64" "length (put_list put_pair [(''a'', ''7'')]) < 2 ^ 64"
    "length (put_list put_pair [(''a'', ''5''), (''b'', ''9'')]) < 2 ^ 64"
    by (rule put_pairs_small; simp)+
  have key: "ascii ''t:1''" "ascii ''t:2''" "ascii ''t:3''" "ascii ''u:1''" by (simp_all add: ascii_def)
  note shown = entry_shown [OF ok(1) small(1) key(1)] entry_shown [OF ok(2) small(2) key(2)]
    entry_shown [OF ok(1) small(1) key(3)] entry_shown [OF ok(3) small(3) key(4)]
  show "stored_rows query_env 0 s empty_tree ''t''
      = [make_row ''t'' ''t:1'' [(''a'', ''5'')], make_row ''t'' ''t:2'' [(''a'', ''7'')], make_row ''t'' ''t:3'' [(''a'', ''5'')]]"
    "stored_rows query_env 0 s empty_tree ''u'' = [make_row ''u'' ''u:1'' [(''a'', ''5''), (''b'', ''9'')]]"
    unfolding assms by (simp_all add: table_rows_def map_filter_Cons List.map_filter_simps shown)
  show "rows_readable query_env 0 s empty_tree tbl"
    unfolding assms by (simp add: table_readable_def shown)
qed

theorem select_spec_witness:
  "\<exists>s s1 s2 s3. schemas s = query_schemas
    \<and> stored_rows query_env 0 s empty_tree ''t''
      = [make_row ''t'' ''t:1'' [(''a'', ''5'')], make_row ''t'' ''t:2'' [(''a'', ''7'')], make_row ''t'' ''t:3'' [(''a'', ''5'')]]
    \<and> stored_rows query_env 0 s empty_tree ''u'' = [make_row ''u'' ''u:1'' [(''a'', ''5''), (''b'', ''9'')]]
    \<and> handle_query query_env query_where 1 s = Some (Inr (''t.a'' @ [CHR 0x0A] @ ''----'' @ [CHR 0x0A] @ ''5'' @ [CHR 0x0A]), s1)
    \<and> handle_query query_env query_join 1 s = Some (Inr (''t.a | u.a | u.b'' @ [CHR 0x0A] @ ''----------------'' @ [CHR 0x0A]
        @ ''5 | 5 | 9'' @ [CHR 0x0A] @ ''5 | 5 | 9'' @ [CHR 0x0A]), s2)
    \<and> handle_query query_env query_sum 1 s = Some (Inr (''COUNT | SUM'' @ [CHR 0x0A] @ ''------------'' @ [CHR 0x0A]
        @ ''2 | 10'' @ [CHR 0x0A]), s3)"
proof -
  obtain s where s: "stored query_env s empty_tree" "cached_entries s = query_entries" "schemas s = query_schemas"
    "read_version 1 s = 0" by (rule query_database)
  note rows = query_rows_stored [OF s(2)]
  have lits: "prints_literals query_env" by (simp add: prints_literals_def query_env_def sample_engine_env_def)
  have expr: "show_expr query_env (BinaryOp l op r) = []" for l op r
    by (simp add: query_env_def sample_engine_env_def)
  have no_index: "unindexed query_env s empty_tree ''t'' (Some (BinaryOp (Identifier ''a'') Eq (Value (SingleQuotedString ''5''))))"
    using s(2)
    by (auto simp: unindexed_def index_probe_def current_data_def index_key_def inj_to_bytes entry_of_def or_else_def
        get_id_def get_val_def mt_lookup_def)
  have ask: "\<exists>s'. handle_query query_env (query_of js items cond lim) 1 s
      = Some (Inr (answer query_env items (query_columns query_schemas ''t'' j)
          (query_rows query_env s empty_tree 1 (query_select js items cond) ''t'' j lim)), s')"
    if "from_clause (query_select js items cond) query_schemas ''t'' j" "unindexed query_env s empty_tree ''t'' cond"
      "query_clear query_env s empty_tree 1 (query_select js items cond) ''t'' j lim" for js items cond lim j
    using select_spec [OF s(1), of "query_of js items cond lim" "query_select js items cond" lim "''t''" j 1] that lits rows(3)
    by (simp add: s(3,4)) blast
  have 1: "\<exists>s'. handle_query query_env query_where 1 s
      = Some (Inr (''t.a'' @ [CHR 0x0A] @ ''----'' @ [CHR 0x0A] @ ''5'' @ [CHR 0x0A]), s')"
    using ask [of "[]" "[Other_item]" _ None "Some 1", OF _ no_index]
    by (simp add: s(4) rows expr from_clause_def query_clear_def where_clear_def contains_def make_row_def ex_bool_eq
        answer_def has_aggregate_def answer_lines_def printed_def del: entries.simps set_filter)
  have 2: "\<exists>s'. handle_query query_env query_join 1 s
      = Some (Inr (''t.a | u.a | u.b'' @ [CHR 0x0A] @ ''----------------'' @ [CHR 0x0A]
        @ ''5 | 5 | 9'' @ [CHR 0x0A] @ ''5 | 5 | 9'' @ [CHR 0x0A]), s')"
    using ask [of "[(Table ''u'', t_a_is_u_a)]" "[Other_item]" b_above_8 "Some (''u'', t_a_is_u_a)" None]
    by (simp add: s(4) rows expr from_clause_def query_clear_def where_clear_def contains_def make_row_def pairs_def ex_bool_eq
        unindexed_def index_probe_def answer_def has_aggregate_def answer_lines_def printed_def del: entries.simps set_filter)
  have 3: "\<exists>s'. handle_query query_env query_sum 1 s
      = Some (Inr (''COUNT | SUM'' @ [CHR 0x0A] @ ''------------'' @ [CHR 0x0A] @ ''2 | 10'' @ [CHR 0x0A]), s')"
    using ask [of "[]" sum_items a_not_7 None None]
    by (simp add: s(4) rows expr from_clause_def query_clear_def where_clear_def contains_def make_row_def query_names ex_bool_eq
        unindexed_def index_probe_def answer_def sum_aggregates answer_lines_def aggregate_value_def numbers_def sum_numbers
        List.map_filter_simps query_floats del: entries.simps)
  from 1 2 3 s(3) rows show ?thesis by blast
qed

end
