(* ===== verification/Benchmark.thy ===== *)
theory Benchmark
  imports Test_Rules Startup
begin

text \<open>
  The program \<open>src/src/bin/benchmark.rs\<close> without its timing: it opens an engine on missing
  files, loads a table, switches to turbo mode, reads the table and then reads the entry of one
  key a million times. It is proved to end without error; a read of the memory tier that
  missed would be a panic.
\<close>

section \<open>The program\<close>

definition insert_bench :: "nat \<Rightarrow> str" where
  "insert_bench i = ''INSERT INTO bench VALUES ('' @ show_nat i @ '', '' @ quoted (''data_'' @ show_nat i) @ '')''"

definition bench_ids :: "nat list" where
  "bench_ids = [0..<100]"

definition load_texts :: "str list" where
  "load_texts = ''CREATE TABLE bench (id INT, val TEXT)'' # map insert_bench bench_ids"

text \<open>Each \<open>execute\<close> on connection 0, with the question mark.\<close>

definition execute_all :: "engine_env \<Rightarrow> str list \<Rightarrow> (engine, unit) act" where
  "execute_all E sqls = for_each sqls (\<lambda>sql. seq (execute E sql 0) (\<lambda>_. ret ()))"

definition set_turbo :: "(engine, unit) act" where
  "set_turbo = modify_st (\<lambda>s. s\<lparr>tree := (tree s)\<lparr>memory_tier := (tier s)\<lparr>turbo_mode := 1\<rparr>\<rparr>\<rparr>)"

definition iterations :: nat where
  "iterations = 1000000"

text \<open>
  \<open>pick\<close> is the first entry of the iterator of the concurrent map, which has no order; both
  unwraps panic on \<open>None\<close>.
\<close>

definition read_key :: "bytes \<Rightarrow> (engine, unit) act" where
  "read_key key = seq (tier_get key) (\<lambda>v. if v = None then throw Panicked else ret ())"

definition throughput_test :: "((bytes \<times> bytes) list \<Rightarrow> (bytes \<times> bytes) option) \<Rightarrow> (engine, unit) act" where
  "throughput_test pick = seq (read_st (\<lambda>s. pick (cached_entries s))) (\<lambda>e. case e of
      None \<Rightarrow> throw Panicked
    | Some (key, _) \<Rightarrow> for_each (replicate iterations key) read_key)"

definition benchmark :: "engine_env \<Rightarrow> ((bytes \<times> bytes) list \<Rightarrow> (bytes \<times> bytes) option) \<Rightarrow> (nat \<Rightarrow> int) \<Rightarrow> bool
    \<Rightarrow> ((err + unit) \<times> engine) option" where
  "benchmark E pick clock boots = (case engine_open E clock boots [] None of
      None \<Rightarrow> None | Some (Inl e, s) \<Rightarrow> Some (Inl e, s)
    | Some (Inr _, s) \<Rightarrow>
        seq (execute_all E load_texts) (\<lambda>_. seq set_turbo (\<lambda>_.
        seq (execute E ''SELECT * FROM bench LIMIT 100'' 0) (\<lambda>_. throughput_test pick))) s)"

section \<open>The load\<close>

definition bench_insert :: "nat \<Rightarrow> statement" where
  "bench_insert i = insert_into ''bench'' [Value (Number (show_nat i)), text_value (''data_'' @ show_nat i)]"

definition bench_create :: statement where
  "bench_create = CreateTable ''bench'' (columns_of [''id'', ''val''])"

definition bench_query :: statement where
  "bench_query = Query \<lparr>query_body = Select \<lparr>from_tables = [just ''bench''], projection = [Other_item], selection = None\<rparr>,
     query_limit = Some (Value (Number ''100''))\<rparr>"

definition reads_as :: "engine_env \<Rightarrow> str \<Rightarrow> statement \<Rightarrow> bool" where
  "reads_as E sql st \<longleftrightarrow> parse_sql E sql = Inr [st] \<and> \<not> prefix ''CALL'' (show_statement E st)"

text \<open>The parser reads the texts of the benchmark.\<close>

definition bench_parses :: "engine_env \<Rightarrow> bool" where
  "bench_parses E \<longleftrightarrow> list_all2 (reads_as E) load_texts (bench_create # map bench_insert bench_ids)
     \<and> reads_as E ''SELECT * FROM bench LIMIT 100'' bench_query"

definition load_calls :: "call list" where
  "load_calls = map (\<lambda>sql. (sql, 0, unwraps)) load_texts"

abbreviation bench_schemas :: "(str \<times> table_schema) list" where
  "bench_schemas \<equiv> [(''bench'', text_schema ''bench'' [''id'', ''val''])]"

definition loaded :: "database \<Rightarrow> bool" where
  "loaded db \<longleftrightarrow> definitions db = bench_schemas \<and> card (dom (contents db)) = 100"

lemma digit_ascii:
  assumes "c \<in> set (show_nat n)"
  shows "(of_char c :: nat) < 128"
  using show_nat_digits [of n] assms by (auto simp: less_eq_char_def)

lemma insert_text: "statement_text (insert_bench i)"
proof -
  have "ascii (insert_bench i)" using digit_ascii by (auto simp: insert_bench_def quoted_def ascii_def)
  then show ?thesis by (simp add: statement_text_def insert_bench_def blanks_def ascii_upper_def)
qed

lemma length_ids [simp]: "length bench_ids = 100"
  by (simp only: bench_ids_def length_upt)

lemma listed_card:
  assumes "listed db kvs"
  shows "card (dom (contents db)) = length kvs"
proof -
  have "dom (contents db) = set (map fst kvs)" using assms by (simp add: listed_def dom_map_of_conv_image_fst)
  then show ?thesis using assms distinct_card [of "map fst kvs"] by (simp add: listed_def)
qed

lemma always_inserts:
  "length kvs + length ns = 100 \<Longrightarrow> always E loaded bench_schemas kvs (map (\<lambda>i. (bench_insert i, unwraps)) ns)"
proof (induction ns arbitrary: kvs)
  case Nil
  then show ?case unfolding list.map by (intro always_done) (simp add: loaded_def listed_card)
next
  case (Cons i ns)
  show ?case
    unfolding list.map bench_insert_def
    by (rule always_insert_row, simp, simp) (use Cons in \<open>simp add: bench_insert_def\<close>)
qed

lemma work_inserts: "work m (map bench_insert ns) = 2 * length ns"
  by (induction ns arbitrary: m) (simp_all add: bench_insert_def insert_into_def writes_def added_rows_def)

lemma plain_inserts:
  "\<forall>i \<in> set ns. \<not> prefix ''CALL'' (show_statement E (bench_insert i)) \<Longrightarrow>
    plain_statements E bench_schemas (map bench_insert ns)"
proof (induction ns)
  case (Cons i ns)
  then show ?case
    by (simp add: bench_insert_def after_insert) (simp add: insert_into_def plain_other)
qed simp

lemma load_steps:
  "always E loaded [] [] (steps_of load_calls (bench_create # map bench_insert bench_ids))"
proof -
  have "zip (map bench_insert ns) (map (\<lambda>_. unwraps) (map insert_bench ns)) = map (\<lambda>i. (bench_insert i, unwraps)) ns" for ns
    by (induction ns) simp_all
  then have steps: "steps_of load_calls (bench_create # map bench_insert bench_ids)
      = (bench_create, unwraps) # map (\<lambda>i. (bench_insert i, unwraps)) bench_ids"
    by (simp add: steps_of_def load_calls_def load_texts_def comp_def)
  show ?thesis
    unfolding steps unfolding bench_create_def by (rule always_create) (simp add: always_inserts)
qed

lemma load_reaches:
  assumes E: "total_codec E" "inj_on (random_id E) {..<4000000}" "posix (penv (benv E))" "node_codec (benv E)"
    and "fits_small E" and ps: "list_all2 (reads_as E) load_texts (bench_create # map bench_insert bench_ids)"
  obtains s s' t db where "engine_open E clock boots [] None = Some (Inr (), s)" and "run_calls E load_calls s = Some (Inr (), s')"
    and "shows_tables E s' t db" and "loaded db" and "has_room 4000000 1000 s'" and "active_transactions s' = []"
proof (rule calls_reach [OF E _ load_steps])
  let ?sts = "bench_create # map bench_insert bench_ids"
  from ps have pe: "map (\<lambda>(sql, c, check). parse_sql E sql) (map (\<lambda>sql. (sql, 0, unwraps)) sqls) = map (\<lambda>st. Inr [st]) sts
      \<and> (\<forall>st \<in> set sts. \<not> prefix ''CALL'' (show_statement E st))" if "list_all2 (reads_as E) sqls sts" for sqls sts
    using that by (induction sqls arbitrary: sts) (auto simp: list_all2_Cons1 reads_as_def)
  show pa: "parses E load_calls ?sts" using pe [OF ps] by (simp add: parses_def load_calls_def)
  have cr: "plain_statement E [] bench_create"
    using assms(5) pa unfolding bench_create_def
    by (intro plain_create) (simp_all add: parses_def plain_def ascii_def put_list_def catalogue_size bench_create_def)
  show "plain_statements E [] ?sts"
    using cr plain_inserts [of bench_ids E] pa by (simp add: parses_def bench_create_def)
  show "list_all (\<lambda>(sql, c, check). to_parser E sql) load_calls"
    using insert_text
    by (auto simp: load_calls_def load_texts_def list_all_iff statement_text_def ascii_def blanks_def ascii_upper_def
        intro: statement_text_parser)
  show "work 0 ?sts \<le> 1000"
    using work_inserts [of _ bench_ids] by (simp add: bench_create_def writes_def)
qed (rule that)

lemma unwraps_simps: "unwraps (Inr x)" "\<not> unwraps (Inl e)"
  by (simp_all add: unwraps_def)

lemma run_execute_all:
  "run_calls E (map (\<lambda>sql. (sql, 0, unwraps)) sqls) s = Some (Inr (), s') \<Longrightarrow> execute_all E sqls s = Some (Inr (), s')"
proof (induction sqls arbitrary: s)
  case (Cons sql sqls)
  then obtain r s1 where r: "execute E sql 0 s = Some (r, s1)"
    by (cases "execute E sql 0 s") (auto simp: attempt_def seq_def)
  with Cons.prems obtain x where x: "r = Inr x"
    by (cases r) (auto simp: attempt_def seq_def unwraps_simps split: if_splits)
  have "run_calls E (map (\<lambda>sql. (sql, 0, unwraps)) sqls) s1 = Some (Inr (), s')"
    using Cons.prems r x by (simp add: attempt_def seq_def unwraps_simps)
  from Cons.IH [OF this] r x show ?case by (simp add: execute_all_def seq_Inr)
qed (simp add: execute_all_def)

section \<open>The reads\<close>

lemma turbo_shown:
  assumes "shows_tables E s t db" and "has_room T n s"
  shows "\<exists>s'. set_turbo s = Some (Inr (), s') \<and> shows_tables E s' t db \<and> has_room T n s'
    \<and> active_transactions s' = active_transactions s"
proof -
  let ?m = "(tier s)\<lparr>turbo_mode := 1\<rparr>"
  let ?s = "s\<lparr>tree := (tree s)\<lparr>memory_tier := ?m\<rparr>\<rparr>"
  have "stored E ?s t"
    using shownD(1) [OF assms(1)] mt_inv_settings(1) by (intro stored_tier [OF shownD(1) [OF assms(1)], where m = ?m])
      (auto simp: stored_def)
  then have "shows_tables E ?s t db" using assms(1) by (simp add: shows_tables_def mt_lookup_def)
  moreover have "has_room T n ?s" using assms(2) by (simp add: has_room_def room_for_def room_def mt_max_bytes_def)
  ultimately show ?thesis by (intro exI [of _ ?s]) (simp add: set_turbo_def)
qed

lemma reads_hit:
  "stored E s t \<Longrightarrow> mt_lookup (tier s) key \<noteq> None \<Longrightarrow>
    \<exists>s'. for_each (replicate n key) read_key s = Some (Inr (), s') \<and> stored E s' t \<and> same_all s s'"
proof (induction n arbitrary: s)
  case (Suc n)
  obtain s1 where s1: "tier_get key s = Some (Inr (mt_lookup (tier s) key), s1)" "stored E s1 t" "same_all s s1"
    by (rule tier_get_ok [OF Suc.prems(1)])
  have "mt_lookup (tier s1) key \<noteq> None" using Suc.prems(2) same_all_lookup [OF s1(3)] by simp
  from Suc.IH [OF s1(2) this] obtain s' where
    s': "for_each (replicate n key) read_key s1 = Some (Inr (), s')" "stored E s' t" "same_all s1 s'" by blast
  moreover have "read_key key s = Some (Inr (), s1)" using s1(1) Suc.prems(2) by (simp add: read_key_def seq_Inr)
  ultimately show ?case using s1(3) by (auto simp: seq_Inr intro: al.trans)
qed (simp add: al.refl)

lemma throughput_runs:
  assumes sh: "shows_tables E s t db" and rm: "has_room T n s" and "loaded db"
    and pick: "\<forall>es. es \<noteq> [] \<longrightarrow> (\<exists>kv \<in> set es. pick es = Some kv)"
  shows "\<exists>s'. throughput_test pick s = Some (Inr (), s') \<and> left_with E T n s s' db"
proof -
  have "dom (contents db) \<noteq> {}" using assms(3) by (metis card.empty loaded_def zero_neq_numeral)
  then obtain x where "x \<in> dom (contents db)" by blast
  then obtain tbl i r where r: "contents db (tbl, i) = Some r" by (cases x) auto
  obtain d where "mt_lookup (tier s) (row_key tbl i) = Some d" by (rule shown_live [OF sh r])
  then have "cached_entries s \<noteq> []" by (auto simp: mt_lookup_def)
  with pick obtain e where e: "e \<in> set (cached_entries s)" "pick (cached_entries s) = Some e" by blast
  obtain key d where kd: "e = (key, d)" by (cases e)
  note kv = e [unfolded kd]
  have "(key, d) \<in> set (cached_entries s)" by (rule kv(1))
  then have "mt_lookup (tier s) key \<noteq> None" using cached_lookup [OF shownD(1) [OF sh]] by simp
  from reads_hit [OF shownD(1) [OF sh] this, of iterations] obtain s' where
    s': "for_each (replicate iterations key) read_key s = Some (Inr (), s')" "stored E s' t" "same_all s s'" by blast
  have "throughput_test pick s = Some (Inr (), s')"
    using kv(2) s'(1) by (simp add: throughput_test_def)
  with same_all_left [OF sh s'(2,3) rm] show ?thesis by blast
qed

section \<open>The benchmark ends\<close>

lemma bench_query_answers:
  assumes "sql_step E db bench_query r db'" and "loaded db"
  shows "\<exists>x. r = Inr x" and "db' = db"
proof -
  from assms(1)[unfolded bench_query_def] show "db' = db" by (rule step_queryE) (simp_all add: statement_error_def)
  from assms(1)[unfolded bench_query_def] show "\<exists>x. r = Inr x"
    by (rule step_queryE) (use assms(2) in \<open>simp_all add: statement_error_def loaded_def query_text_def from_part_def
      just_def factor_table_def vec_get_def table_def_def\<close>)
qed

text \<open>
  C9 (the benchmark completes): on every file system and bincode that read back what was
  written, with distinct random numbers and a parser that reads its texts, the benchmark ends
  without error: the table and its hundred rows are written, the query answers, the memory
  tier is not empty, so the first unwrap succeeds, and each of the million reads of the chosen
  key hits, whichever key the iteration over the map yields. At the end the engine shows a
  database with that table and a hundred rows.
\<close>

theorem benchmark_completes:
  assumes "total_codec E" and "inj_on (random_id E) {..<4000000}" and "posix (penv (benv E))" and "node_codec (benv E)"
    and "fits_small E" and "bench_parses E" and "\<forall>es. es \<noteq> [] \<longrightarrow> (\<exists>kv \<in> set es. pick es = Some kv)"
  shows "\<exists>s t db. benchmark E pick clock boots = Some (Inr (), s) \<and> shows_tables E s t db
    \<and> definitions db = bench_schemas \<and> card (dom (contents db)) = 100"
proof -
  have ps: "list_all2 (reads_as E) load_texts (bench_create # map bench_insert bench_ids)"
    "reads_as E ''SELECT * FROM bench LIMIT 100'' bench_query"
    using assms(6) by (simp_all add: bench_parses_def)
  obtain s s1 t db where s: "engine_open E clock boots [] None = Some (Inr (), s)" "run_calls E load_calls s = Some (Inr (), s1)"
    "shows_tables E s1 t db" "loaded db" "has_room 4000000 1000 s1" "active_transactions s1 = []"
    by (rule load_reaches [OF assms(1-5) ps(1), of clock boots])
  have load: "execute_all E load_texts s = Some (Inr (), s1)"
    using s(2) unfolding load_calls_def by (rule run_execute_all)
  obtain s2 where s2: "set_turbo s1 = Some (Inr (), s2)" "shows_tables E s2 t db" "has_room 4000000 1000 s2"
    "active_transactions s2 = []"
    using turbo_shown [OF s(3,5)] s(6) by auto
  have tx: "tx_of 0 s2 = None" using s2(4) by (simp add: tx_of_def)
  have rm: "has_room 4000000 (1000 + writes (card (dom (contents db))) bench_query) s2"
    using s2(3) by (simp add: bench_query_def writes_def)
  have pl: "plain_statement E (definitions db) bench_query"
    using ps(2) by (simp add: reads_as_def bench_query_def plain_other)
  have tp: "to_parser E ''SELECT * FROM bench LIMIT 100''"
    by (rule statement_text_parser) (simp add: statement_text_def ascii_def blanks_def ascii_upper_def)
  have pq: "parse_sql E ''SELECT * FROM bench LIMIT 100'' = Inr [bench_query]" using ps(2) by (simp add: reads_as_def)
  obtain r s3 db' where r: "execute E ''SELECT * FROM bench LIMIT 100'' 0 s2 = Some (r, s3)" "sql_step E db bench_query r db'"
    "left_with E 4000000 1000 s2 s3 db'"
    by (rule execute_one [OF assms(1,2) s2(2) tx rm pl tp pq])
  obtain x where x: "r = Inr x" using bench_query_answers(1) [OF r(2) s(4)] by blast
  have "left_with E 4000000 1000 s2 s3 db" using r(3) bench_query_answers(2) [OF r(2) s(4)] by simp
  then obtain t3 where t3: "shows_tables E s3 t3 db" "has_room 4000000 1000 s3" by (auto simp: left_with_def)
  from throughput_runs [OF t3 s(4) assms(7)] obtain s4 t4 where
    s4: "throughput_test pick s3 = Some (Inr (), s4)" "shows_tables E s4 t4 db" by (auto simp: left_with_def)
  have "benchmark E pick clock boots = Some (Inr (), s4)"
    using s(1) load s2(1) r(1) x s4(1) by (simp add: benchmark_def seq_Inr)
  with s4(2) s(4) show ?thesis unfolding loaded_def by blast
qed

definition bench_parser :: "str \<Rightarrow> err + statement list" where
  "bench_parser sql = (if sql = ''SELECT * FROM bench LIMIT 100'' then Inr [bench_query]
     else if sql = ''CREATE TABLE bench (id INT, val TEXT)'' then Inr [bench_create]
     else case find (\<lambda>i. insert_bench i = sql) bench_ids of
       Some i \<Rightarrow> Inr [bench_insert i] | None \<Rightarrow> Inl (Msg ''Unknown text''))"

abbreviation BE :: engine_env where
  "BE \<equiv> table_env bench_parser"

lemma show_nat_comma: "takeWhile (\<lambda>c. c \<noteq> CHR '','') (show_nat n @ CHR '','' # t) = show_nat n"
proof -
  have "CHR '','' \<notin> set (show_nat n)" using show_nat_digits [of n] by (auto simp: less_eq_char_def)
  then have "\<And>c. c \<in> set (show_nat n) \<Longrightarrow> c \<noteq> CHR '',''" by metis
  then show ?thesis by (simp add: takeWhile_append)
qed

lemma insert_bench_inj: "insert_bench i = insert_bench j \<Longrightarrow> i = j"
proof -
  assume "insert_bench i = insert_bench j"
  then have "\<exists>t u. show_nat i @ CHR '','' # t = show_nat j @ CHR '','' # u" by (auto simp: insert_bench_def)
  then have "show_nat i = show_nat j" using show_nat_comma by metis
  then show "i = j" using show_nat_value by metis
qed

theorem benchmark_completes_witness:
  "\<exists>s. benchmark BE (\<lambda>es. case es of [] \<Rightarrow> None | e # _ \<Rightarrow> Some e) (\<lambda>_. 0) True = Some (Inr (), s)"
proof -
  have "find (\<lambda>i. insert_bench i = insert_bench j) ns = Some j" if "j \<in> set ns" for j ns
    using that insert_bench_inj by (induction ns) auto
  then have "reads_as BE (insert_bench j) (bench_insert j)" if "j \<in> set bench_ids" for j
    using that by (simp add: reads_as_def bench_parser_def bench_insert_def insert_into_def) (simp add: insert_bench_def)
  then have ins: "list_all2 (reads_as BE) (map insert_bench bench_ids) (map bench_insert bench_ids)"
    by (simp add: list.rel_map list_all2_same)
  have "reads_as BE ''CREATE TABLE bench (id INT, val TEXT)'' bench_create"
    "reads_as BE ''SELECT * FROM bench LIMIT 100'' bench_query"
    by (simp_all add: reads_as_def bench_parser_def bench_create_def bench_query_def)
  with ins have ps: "bench_parses BE" by (simp add: bench_parses_def load_texts_def)
  have "\<forall>es. es \<noteq> [] \<longrightarrow> (\<exists>kv \<in> set es. (case es of [] \<Rightarrow> None | e # _ \<Rightarrow> Some e) = Some kv)" for es :: "(bytes \<times> bytes) list"
    by (simp split: list.split)
  moreover have "fits_small BE" by (simp add: fits_small_def table_fits)
  ultimately show ?thesis
    using benchmark_completes [of BE "\<lambda>es. case es of [] \<Rightarrow> None | e # _ \<Rightarrow> Some e" "\<lambda>_. 0" True]
      total_codec_table drawn_ids ps by auto
qed

end
