(* ===== verification/Spec2Isabelle.thy ===== *)
theory Spec2Isabelle
  imports Engine_Tx_Samples Engine_Select Engine_Drain Startup Server_Live Btree_Faults Unit_Tests
    Engine_Undo Select_Spec Benchmark
begin

text \<open>
  KSSQL, a SQL server in Rust: a line protocol over TCP and an HTTP interface, a SQL engine
  with optimistic transactions, a B+tree in a file of 4096-byte pages, a write-ahead log and
  a cache in memory. This development models the program from the page file up to \<open>main\<close> and
  proves what each part promises and what the parts do together. Paths are under
  \<open>src/src/\<close>.

  Parts and theories.

  \<^item> \<open>Prelude\<close>: machine words, the errors, and the type \<open>'s act\<close> of every function that changes
    state: from a state to \<open>None\<close> (it does not return) or to its result (\<open>Inl\<close> an error, \<open>Inr\<close> a
    value) and the state it leaves. \<open>seq\<close> is the question mark followed by the rest of the
    function, \<open>for_each\<close> a loop, \<open>zoom\<close> a call on a part of the state. A panic is the error
    \<open>Panicked\<close>. Vectors, slices and hash maps of the standard library (maps are association
    lists). \<open>Text\<close>: strings as lists of UTF-8 bytes and the functions on them. \<open>Codec\<close>:
    combinators for byte encodings, used by the witnesses.
  \<^item> \<open>Memory_Tier\<close>: \<open>MemoryTier\<close> of \<open>storage/mod.rs\<close>, the cache with its last-write times,
    counters, limit and eviction.
  \<^item> \<open>Pager\<close>: \<open>storage/pager.rs\<close>, the page file with checksums, the requests its thread serves
    and the file length it caches, which is 0 until the thread has started (\<open>booted\<close>).
  \<^item> \<open>Wal\<close>, \<open>Wal_Pipeline\<close>: \<open>storage/wal.rs\<close>, the bounded queue, \<open>enqueue\<close> with its retries,
    the flush with two buffers, the writer thread, padding, and the recovery loop; then the
    interleavings of these steps as an inductive relation.
  \<^item> \<open>Btree\<close>: \<open>storage/btree.rs\<close>, nodes on pages, lookup, insertion with splits on the way
    down, opening with replay of the log. \<open>Btree_Spec\<close>: trees as values, with their order
    invariant and insertion. \<open>Btree_Refine\<close>: the code implements them. \<open>Btree_Props\<close>:
    the promises of the tree. \<open>Btree_Total\<close>: insertion and lookup return on any pages
    without cycles (\<open>Total\<close> has the rules). \<open>Btree_Faults\<close>: an update it loses. \<open>Btree_Chain\<close>: the chain
    of leaves that scans follow.
  \<^item> \<open>Sql\<close>, \<open>Engine\<close>: \<open>parser/engine.rs\<close>, conditions, scans, the index lookup, all statements,
    transactions, \<open>execute\<close>, \<open>universal_search\<close>, start, drain thread, undo and redo.
    \<open>Engine_Frame\<close> (what an operation leaves alone), \<open>Engine_Wf\<close> (the invariant of its maps),
    \<open>Engine_Scan\<close>, \<open>Engine_Rows\<close> (what a scan returns), \<open>Engine_Store\<close>, \<open>Engine_Write\<close>,
    \<open>Engine_Insert\<close>, \<open>Engine_Select\<close> (statements on a stored database), \<open>Select_Spec\<close> (the
    meaning of a query on rows as maps, and that the engine's answer is it), \<open>Engine_Tx\<close>
    (transactions), \<open>Engine_Drain\<close> (the drain thread), \<open>Engine_Total\<close> and \<open>Engine_Budget\<close>
    (termination, without and with insertions into the tree), \<open>Restart\<close>
    (\<open>Engine::new\<close> after a crash). \<open>Engine_Samples\<close> and \<open>Engine_Tx_Samples\<close> hold the concrete
    databases of the witnesses.
  \<^item> \<open>Hardware\<close>: \<open>HardwareManager\<close> and the hit ratio of \<open>storage/mod.rs\<close>.
  \<^item> \<open>Server\<close>: \<open>network/server.rs\<close>, connections, requests and the feeds of \<open>/ws\<close> as events of
    one state, with the drain thread as a further event. \<open>Server_Feed\<close> (what the feeds receive),
    \<open>Server_Live\<close> (every event is served). \<open>Startup\<close>: \<open>main.rs\<close>.
  \<^item> \<open>Tables\<close>: the abstract specification of the engine, without storage: a database is the
    table definitions and a map from row numbers to rows, \<open>sql_step\<close> says what a statement may
    return and leave, \<open>sql_run\<close> what a text may. \<open>Row_Keys\<close> (keys of rows can be read back),
    \<open>Engine_Tables\<close> (when a state shows a database), \<open>Engine_Refines\<close> and \<open>Engine_Database\<close> (each
    statement and each text implements the specification), \<open>Engine_Fresh\<close> (a new engine shows the
    empty database), \<open>Engine_Snapshot\<close> (two transactions on a shown database), \<open>Engine_Undo\<close> (what undo and redo do
    to a shown database), \<open>Table_Samples\<close>
    (an environment for them).
  \<^item> \<open>Test_Rules\<close>, \<open>Unit_Tests\<close>: the tests of \<open>parser/mod.rs\<close> as programs over the model.
    \<open>Benchmark\<close>: \<open>bin/benchmark.rs\<close> likewise.

  How the parts meet. A row is a \<open>Record\<close> in bincode under the key \<open>table:id\<close>. INSERT, UPDATE,
  DELETE and COMMIT put it into the memory tier and on the queue of the log; a flush moves
  queue entries to the log file, a drain round inserts them into the tree, whose own page
  writes are logged as well. Readers ask the tier first. On opening, page updates of the log
  are written to the file and records go to the tier.

  The central predicates. \<open>tree_rep E p0 s t\<close>: the pages of the state \<open>s\<close> hold the tree \<open>t\<close>, and
  so does the file \<open>p0\<close> with the logged pages. \<open>stored E s t\<close>: the engine's database holds \<open>t\<close>,
  its leaves are chained and the tier is well-formed. \<open>current_data s t k\<close>: what a reader finds
  for a key. \<open>table_rows\<close>: the rows of a table, as a function of tier and tree. \<open>keeps R m\<close>:
  every run of \<open>m\<close> relates its states by \<open>R\<close>. \<open>linked E s D\<close>: following children and leaf links
  ends, as \<open>D\<close> has levels and places that decrease; no order of keys is asked for, so it also
  holds after an insertion that failed half way. \<open>ends m s Q\<close>: \<open>m\<close> returns from \<open>s\<close> with \<open>Q\<close>;
  \<open>returns I m\<close>: from every state of \<open>I\<close>, and stays in \<open>I\<close>; \<open>spends I k m\<close>: with at most \<open>k\<close>
  insertions into the tree. \<open>runs E s evs s'\<close>: the server went from \<open>s\<close> to \<open>s'\<close>.
  \<open>shows_tables E s t db\<close>: the database \<open>db\<close> of the specification can be read off the tier, while
  no row has reached the tree; \<open>has_room T n s\<close>: random numbers, versions, queue, tier and page
  numbers suffice for \<open>n\<close> more entries.

  Interfaces, as locales with an interpretation on the code: \<open>codec\<close> (round trip of an
  encoding), \<open>lossy_cache\<close> (a cache may forget but never answers wrongly; \<open>Memory_Tier\<close>),
  \<open>page_store\<close> (\<open>Pager\<close>), \<open>bounded_fifo\<close> (the queue of \<open>Wal\<close>), \<open>node_store\<close> (what insertion
  needs of loading and saving nodes; \<open>Btree\<close> on pager and log), \<open>frame_rel\<close> (relations that
  sequencing keeps; interpreted on the data of tree, engine and transactions),
  \<open>row_writer\<close> (the loop of UPDATE and DELETE), \<open>steady\<close> (an invariant under which the engine
  returns: stored databases) and \<open>steady_inserts\<close>, which extends it to insertions with a
  budget (linked files; a \<open>sublocale\<close> gives the first for every budget).

  What is shown.

  \<^item> Storage: pages read back as written and damaged pages are refused; the log is
    first-in first-out, loses nothing inside the process and is parsed back exactly as long as no
    batch ends one to three bytes before a block boundary (\<open>gap_ok\<close>); the B+tree implements a map
    as long as no split takes the inserted key as its separator (\<open>clean_root\<close>), and under the
    first condition a crash that loses any logged page loses nothing.
  \<^item> Engine: a scan equals its reference; INSERT, UPDATE and DELETE do what they say on
    exactly the selected rows; SELECT answers what a reference on rows as
    maps says (joins, conditions, limits, aggregates, print); a COMMIT installs all its updates or
    fails without a trace, and of two transactions that update one row one fails; statements in
    a transaction are private until then; the drain thread refines updates of the map; every
    text returns, on linked files; texts without CREATE INDEX and transactions implement the
    specification on tables, from a new engine until a drain round (\<open>engine_refines_tables\<close>), and
    of two transactions that update common rows the first committer wins
    (\<open>first_committer_wins\<close>); the repository's own tests pass (\<open>unit_tests_pass\<close>) and its benchmark
    completes (\<open>benchmark_completes\<close>); a restart gives back tree, records and schemas.
  \<^item> Server: without the credentials no query runs and nothing but the drain thread
    changes the engine; every pending event is served; a feed of \<open>/ws\<close> is opened without
    credentials and shows exactly the queries that are executed, in order, if it keeps up.
  \<^item> Faults, each proved on the model: an update of a key that becomes the separator of a
    split below the root is lost (\<open>split_loses_update\<close>), rows deleted after they were drained come back
    (\<open>delete_then_scan\<close>), updated rows are hidden after a restart (\<open>restart_spec\<close>), conditions
    such as LIKE or IN are ignored (\<open>opaque_condition_ignored\<close>), an index shows one row per value
    (\<open>index_returns_one_row\<close>), a purge hides rows (\<open>purge_hides_undrained\<close>), undo hides the
    rows of an UPDATE and brings no old contents back (\<open>undo_restores_nothing\<close>), SELECT without FROM
    stops the process (\<open>select_without_from_stops_server\<close>), opening can overwrite a database
    (\<open>bt_open_race\<close>) and recovery can lose a batch (\<open>wal_lost_batch\<close>).

  Bounds and loops. Page numbers, versions and sizes are words of the code's width. The
  descents of the tree, the walks along the leaves and the search have no bound in the code
  and are partial functions: that they return is proved, on stored databases. All other
  loops end by their structure or a measure; there is no fuel. An insertion needs
  room for three queue entries per level and eight more (\<open>insert_room\<close>), page numbers below
  \<open>2 ^ 32\<close>, nodes that fit a page, and a key that is not the separator of a split on its way
  (\<open>clean_root\<close>, which new keys satisfy); the theorems name these as hypotheses. For
  termination only page numbers matter: at page \<open>2 ^ 32\<close> they wrap around and a new node could
  overwrite the root. An insertion needs as many pages as there are levels and three; levels
  are at most as many as pages, so a file of \<open>2 ^ 22\<close> pages, 16 GB, has room for the thousand
  insertions of a drain round or of 166 CREATE TABLE statements with their five repeats.

  The environment. Fields of records stand for code outside the repository: bincode, crc32,
  file access, the SQL parser and how it prints syntax trees, wasmi, JSON, HTTP downloads, the
  clock, random numbers, the readings of the machine, the tables of Unicode for letters outside ASCII, and the arithmetic
  and printing of floating-point numbers. Theorems that need their behaviour name it
  (\<open>posix\<close>, \<open>node_codec\<close>, \<open>wal_codec\<close>, \<open>record_codec\<close>, \<open>row_codec\<close>, \<open>total_codec\<close>, \<open>parses\<close>,
  \<open>prints\<close>), and the witnesses supply a
  concrete one. What other threads do to the queue while \<open>enqueue\<close> sleeps is the field \<open>backoff\<close>.

  Concurrency. One call of an engine operation is one step, as is one drain round; the tasks
  interleave between steps, on the queue also inside \<open>enqueue\<close> and between the steps of the
  log's threads (\<open>Wal_Pipeline\<close>). Interleavings inside one statement are not modelled.

  Not modelled, as there is no logic of the program's own in it or no state: the page
  buffer \<open>AlignedBuf\<close>; the map \<open>views\<close>, which nothing uses; \<open>cosine_similarity\<close>, which nothing
  calls; the wasm call, which hands a binary to the wasmi crate; the panics of the pager and log
  threads on files that cannot be opened; the bound of the channel between flush and log writer; binding, TLS and the
  dashboard page; the banner; the stress test, which counts the successes of concurrent calls and
  measures time.
\<close>

end
